(* ===== verification/Rz_Prelude.thy ===== *)
theory Rz_Prelude
  imports Main "HOL-Library.Word" "HOL-Library.Monad_Syntax" "HOL-Library.AList"
    "HOL-Library.Multiset" "HOL-Library.Sublist"
begin

text \<open>
  Shared vocabulary of the development: machine integers and byte strings, Rust's panicking
  slice and index operations, little-endian integer codecs, UTF-8 validation
  (\<^verbatim>\<open>std::str::from_utf8\<close>), tokio's tasks and intervals, hash maps as association lists with an iteration order, and the generic lemmas the components share.
  A computation that may panic has type \<open>'a option\<close>, with \<open>None\<close> for the panic.
\<close>

section \<open>Named collections\<close>

named_theorems panic_defs \<open>definitions of the operations that may panic\<close>
named_theorems codec_simps \<open>rewrite rules of the byte codecs\<close>
named_theorems hash_simps \<open>rewrite rules for hash maps\<close>

section \<open>Machine integers and byte strings\<close>

type_synonym u8 = "8 word"
type_synonym u16 = "16 word"
type_synonym u32 = "32 word"
type_synonym bytes = "u8 list"

text \<open>The cast \<^verbatim>\<open>x as u32\<close> of a \<^verbatim>\<open>usize\<close> keeps the low 32 bits.\<close>

definition as_u32 :: "nat \<Rightarrow> nat" where
  "as_u32 n = n mod 2 ^ 32"

definition as_u64 :: "nat \<Rightarrow> nat" where
  "as_u64 n = n mod 2 ^ 64"

lemma as_u32_small [simp]: "n < 2 ^ 32 \<Longrightarrow> as_u32 n = n"
  by (simp add: as_u32_def)

lemma as_u32_le: "as_u32 n \<le> n"
  by (simp add: as_u32_def)

section \<open>Spawned tasks\<close>

text \<open>What has become of a task: it waits or works, it ended with a value, or a panic ended it.
  \<^verbatim>\<open>tokio::time::interval\<close> panics when the period is zero.\<close>

datatype 'a task = Task_Running | Task_Ended 'a | Task_Panicked

definition interval :: "nat \<Rightarrow> unit option" where
  [panic_defs]: "interval period = (if period = 0 then None else Some ())"

section \<open>Panicking access\<close>

definition idx :: "'a list \<Rightarrow> nat \<Rightarrow> 'a option" where
  [panic_defs]: "idx xs i = (if i < length xs then Some (xs ! i) else None)"

definition slice :: "'a list \<Rightarrow> nat \<Rightarrow> nat \<Rightarrow> 'a list option" where
  [panic_defs]: "slice xs i j =
     (if i \<le> j \<and> j \<le> length xs then Some (take (j - i) (drop i xs)) else None)"

definition checked_sub :: "nat \<Rightarrow> nat \<Rightarrow> nat option" where
  [panic_defs]: "checked_sub a b = (if b \<le> a then Some (a - b) else None)"

text \<open>\<^verbatim>\<open>dst[i..j].copy_from_slice(src)\<close> panics when the range is bad or the lengths differ.\<close>

definition copy_from_slice :: "'a list \<Rightarrow> nat \<Rightarrow> nat \<Rightarrow> 'a list \<Rightarrow> 'a list option" where
  [panic_defs]: "copy_from_slice dst i j src =
     (if i \<le> j \<and> j \<le> length dst \<and> length src = j - i
      then Some (take i dst @ src @ drop j dst) else None)"

lemma idx_append [simp]: "i < length xs \<Longrightarrow> idx (xs @ ys) i = idx xs i"
  by (simp add: idx_def nth_append)

lemma slice_append [simp]: "j \<le> length xs \<Longrightarrow> slice (xs @ ys) i j = slice xs i j"
  by (simp add: slice_def)

lemma slice_Some_length: "slice xs i j = Some ys \<Longrightarrow> length ys = j - i"
  by (auto simp: slice_def split: if_splits)

lemma idx_Some [simp]: "i < length xs \<Longrightarrow> idx xs i = Some (xs ! i)"
  by (simp add: idx_def)

lemma slice_Some [simp]:
  "i \<le> j \<Longrightarrow> j \<le> length xs \<Longrightarrow> slice xs i j = Some (take (j - i) (drop i xs))"
  by (simp add: slice_def)

section \<open>Little-endian integers\<close>

fun nat_to_le :: "nat \<Rightarrow> nat \<Rightarrow> bytes" where
  "nat_to_le 0 n = []"
| "nat_to_le (Suc k) n = word_of_nat (n mod 256) # nat_to_le k (n div 256)"

fun le_to_nat :: "bytes \<Rightarrow> nat" where
  "le_to_nat [] = 0"
| "le_to_nat (b # bs) = unat b + 256 * le_to_nat bs"

text \<open>\<^verbatim>\<open>to_le_bytes\<close> and \<^verbatim>\<open>from_le_bytes(s.try_into()...)\<close>: the array conversion
  fails unless the slice has exactly the width of the integer.\<close>

definition u32_to_le :: "u32 \<Rightarrow> bytes" where
  "u32_to_le w = nat_to_le 4 (unat w)"

definition u16_to_le :: "u16 \<Rightarrow> bytes" where
  "u16_to_le w = nat_to_le 2 (unat w)"

definition u32_from_le :: "bytes \<Rightarrow> u32 option" where
  "u32_from_le bs = (if length bs = 4 then Some (word_of_nat (le_to_nat bs)) else None)"

definition u16_from_le :: "bytes \<Rightarrow> u16 option" where
  "u16_from_le bs = (if length bs = 2 then Some (word_of_nat (le_to_nat bs)) else None)"

lemma length_nat_to_le [simp]: "length (nat_to_le k n) = k"
  by (induction k n rule: nat_to_le.induct) auto

lemma unat_byte_of_nat [simp]: "unat (word_of_nat (n mod 256) :: u8) = n mod 256"
  by (simp add: unat_of_nat)

lemma le_to_nat_nat_to_le: "le_to_nat (nat_to_le k n) = n mod 256 ^ k"
proof (induction k n rule: nat_to_le.induct)
  case (2 k n)
  have "le_to_nat (nat_to_le (Suc k) n) = n mod 256 + 256 * (n div 256 mod 256 ^ k)"
    using "2.IH" by simp
  also have "\<dots> = n mod (256 * 256 ^ k)"
    by (simp add: mod_mult2_eq)
  finally show ?case by simp
qed simp

lemma unat_u8_less: "unat (b :: u8) < 256"
proof -
  have "unat b < 2 ^ LENGTH(8)" by (rule unsigned_less)
  then show ?thesis by simp
qed

lemma unat_u16_less: "unat (w :: u16) < 65536"
proof -
  have "unat w < 2 ^ LENGTH(16)" by (rule unsigned_less)
  then show ?thesis by simp
qed

lemma unat_u32_less: "unat (w :: u32) < 4294967296"
proof -
  have "unat w < 2 ^ LENGTH(32)" by (rule unsigned_less)
  then show ?thesis by simp
qed

lemma le_to_nat_bound: "le_to_nat bs < 256 ^ length bs"
proof (induction bs)
  case (Cons b bs)
  have "unat b < 256" by (rule unat_u8_less)
  with Cons show ?case by simp
qed simp

lemma nat_to_le_le_to_nat: "nat_to_le (length bs) (le_to_nat bs) = bs"
proof (induction bs)
  case (Cons b bs)
  have b: "unat b < 256" by (rule unat_u8_less)
  then have "(unat b + 256 * le_to_nat bs) div 256 = le_to_nat bs"
    and "(unat b + 256 * le_to_nat bs) mod 256 = unat b"
    by simp_all
  with Cons show ?case by simp
qed simp

lemma length_u32_to_le [simp]: "length (u32_to_le w) = 4"
  by (simp add: u32_to_le_def)

lemma length_u16_to_le [simp]: "length (u16_to_le w) = 2"
  by (simp add: u16_to_le_def)

text \<open>Evaluation of the codecs on concrete values.\<close>

lemma u32_to_le_eval:
  "u32_to_le w = [word_of_nat (unat w mod 256), word_of_nat (unat w div 256 mod 256),
     word_of_nat (unat w div 65536 mod 256), word_of_nat (unat w div 16777216 mod 256)]"
proof -
  have "(4::nat) = Suc (Suc (Suc (Suc 0)))" by simp
  then show ?thesis
    unfolding u32_to_le_def by (simp only: nat_to_le.simps) (simp add: div_mult2_eq [symmetric])
qed

lemma u16_to_le_eval:
  "u16_to_le w = [word_of_nat (unat w mod 256), word_of_nat (unat w div 256 mod 256)]"
proof -
  have "(2::nat) = Suc (Suc 0)" by simp
  then show ?thesis unfolding u16_to_le_def by (simp only: nat_to_le.simps)
qed

lemma u32_from_to_le [simp, codec_simps]: "u32_from_le (u32_to_le w) = Some w"
  using unat_u32_less [of w] by (simp add: u32_from_le_def u32_to_le_def le_to_nat_nat_to_le)

lemma u16_from_to_le [simp, codec_simps]: "u16_from_le (u16_to_le w) = Some w"
  using unat_u16_less [of w] by (simp add: u16_from_le_def u16_to_le_def le_to_nat_nat_to_le)

lemma u32_to_from_le [codec_simps]: "u32_from_le bs = Some w \<Longrightarrow> u32_to_le w = bs"
  using nat_to_le_le_to_nat [of bs] le_to_nat_bound [of bs]
  by (auto simp: u32_from_le_def u32_to_le_def unat_of_nat split: if_splits)

lemma u32_from_le_total [simp]: "length bs = 4 \<Longrightarrow> \<exists>w. u32_from_le bs = Some w"
  by (simp add: u32_from_le_def)

lemma u16_from_le_total [simp]: "length bs = 2 \<Longrightarrow> \<exists>w. u16_from_le bs = Some w"
  by (simp add: u16_from_le_def)

lemma u32_to_le_inject [simp]: "u32_to_le v = u32_to_le w \<longleftrightarrow> v = w"
  by (metis option.inject u32_from_to_le)

lemma le_to_nat_u32 [simp]: "le_to_nat (u32_to_le w) = unat w"
  using unat_u32_less [of w] by (simp add: u32_to_le_def le_to_nat_nat_to_le)

lemma unat_u32_of_nat: "n < 4294967296 \<Longrightarrow> unat (word_of_nat n :: u32) = n"
  by (simp add: unat_of_nat)

lemma unat_u8_of_nat: "n < 256 \<Longrightarrow> unat (word_of_nat n :: u8) = n"
  by (simp add: unat_of_nat)

section \<open>Cutting lists\<close>

lemma nth_append_len: "n = length xs \<Longrightarrow> (xs @ y # ys) ! n = y"
  by simp

lemma drop_append_len: "n = length xs \<Longrightarrow> drop n (xs @ ys) = ys"
  by simp

lemma nth_take_drop_split: "i < length xs \<Longrightarrow> drop i xs = xs ! i # drop (Suc i) xs"
  by (rule Cons_nth_drop_Suc [symmetric])

lemma take_drop_append_drop: "drop i xs = take k (drop i xs) @ drop (i + k) xs"
  by (metis append_take_drop_id drop_drop add.commute)

section \<open>UTF-8 and strings\<close>

text \<open>
  A Rust \<^verbatim>\<open>String\<close> is a valid UTF-8 byte vector; it is modelled by the HOL string of its
  bytes. \<open>utf8_valid\<close> is the check of \<^verbatim>\<open>std::str::from_utf8\<close>: the well-formed byte
  sequences of the Unicode standard (no overlong forms, no surrogates, at most U+10FFFF).
\<close>

definition utf8_cont :: "u8 \<Rightarrow> bool" where
  "utf8_cont b \<longleftrightarrow> 0x80 \<le> b \<and> b \<le> 0xBF"

fun utf8_valid :: "bytes \<Rightarrow> bool" where
  "utf8_valid [] = True"
| "utf8_valid (a # bs) =
    (if a < 0x80 then utf8_valid bs
     else case bs of
       [] \<Rightarrow> False
     | b # cs \<Rightarrow>
        (if 0xC2 \<le> a \<and> a \<le> 0xDF then utf8_cont b \<and> utf8_valid cs
         else case cs of
           [] \<Rightarrow> False
         | c # ds \<Rightarrow>
            (if a = 0xE0 then 0xA0 \<le> b \<and> b \<le> 0xBF \<and> utf8_cont c \<and> utf8_valid ds
             else if a = 0xED then 0x80 \<le> b \<and> b \<le> 0x9F \<and> utf8_cont c \<and> utf8_valid ds
             else if 0xE1 \<le> a \<and> a \<le> 0xEF then utf8_cont b \<and> utf8_cont c \<and> utf8_valid ds
             else case ds of
               [] \<Rightarrow> False
             | d # es \<Rightarrow>
                (if a = 0xF0 then 0x90 \<le> b \<and> b \<le> 0xBF \<and> utf8_cont c \<and> utf8_cont d \<and> utf8_valid es
                 else if a = 0xF4 then 0x80 \<le> b \<and> b \<le> 0x8F \<and> utf8_cont c \<and> utf8_cont d \<and> utf8_valid es
                 else if 0xF1 \<le> a \<and> a \<le> 0xF3 then utf8_cont b \<and> utf8_cont c \<and> utf8_cont d \<and> utf8_valid es
                 else False))))"

definition bytes_to_string :: "bytes \<Rightarrow> string" where
  "bytes_to_string bs = map (\<lambda>b. char_of (unat b)) bs"

definition string_to_bytes :: "string \<Rightarrow> bytes" where
  "string_to_bytes s = map of_char s"

definition from_utf8 :: "bytes \<Rightarrow> string option" where
  "from_utf8 bs = (if utf8_valid bs then Some (bytes_to_string bs) else None)"

lemma length_string_to_bytes [simp]: "length (string_to_bytes s) = length s"
  by (simp add: string_to_bytes_def)

lemma unat_of_char: "unat (of_char c :: u8) = (of_char c :: nat)"
proof -
  have "(of_char c :: u8) = word_of_nat (of_char c)"
    by (simp only: of_nat_of_char)
  moreover have "(of_char c :: nat) < 256" by simp
  ultimately show ?thesis by (simp add: unat_of_nat)
qed

lemma bytes_to_string_to_bytes [simp, codec_simps]:
  "bytes_to_string (string_to_bytes s) = s"
  by (simp add: bytes_to_string_def string_to_bytes_def unat_of_char comp_def)

lemma utf8_valid_ascii: "\<forall>b \<in> set bs. b < 0x80 \<Longrightarrow> utf8_valid bs"
  by (induction bs) auto

lemma subseq_distinct: "subseq xs ys \<Longrightarrow> distinct ys \<Longrightarrow> distinct xs"
  by (auto simp: subseq_conv_nths intro: distinct_nthsI)

lemma distinct_map_perm: "mset xs = mset ys \<Longrightarrow> distinct (map f ys) \<Longrightarrow> distinct (map f xs)"
  by (metis mset_map mset_eq_imp_distinct_iff)

end
