(* ===== verification/Rz_Error.thy ===== *)
theory Rz_Error
  imports Rz_Prelude
begin

text \<open>
  \<^verbatim>\<open>src/error.rs\<close>: the crate's error type \<^verbatim>\<open>RZError\<close> and its \<^verbatim>\<open>Display\<close> text (the
  \<^verbatim>\<open>#[error(...)]\<close> attributes). The payloads of \<^verbatim>\<open>Request\<close> (a \<^verbatim>\<open>reqwest::Error\<close>) and
  \<^verbatim>\<open>Io\<close> (an \<^verbatim>\<open>io::Error\<close>) are carried as their display text, the only thing the crate
  reads of them.
\<close>

datatype RZError =
    Cancelled
  | Auth string
  | Config_Error string
  | Validation string
  | ParseError string
  | System string
  | NoLeaderAvailable
  | NoFollowerNodeAvailable
  | Http string
  | Resolver string
  | Timeout
  | Request string
  | Io string

text \<open>\<^verbatim>\<open>Result<T, RZError>\<close> is \<open>RZError + 'a\<close>, with \<open>Inl\<close> for \<^verbatim>\<open>Err\<close>.\<close>

type_synonym 'a rz_result = "RZError + 'a"

fun display_error :: "RZError \<Rightarrow> string" where
  "display_error Cancelled = ''Operation cancelled''"
| "display_error (Auth s) = ''Authentication error: '' @ s"
| "display_error (Config_Error s) = ''Config error: '' @ s"
| "display_error (Validation s) = ''Validation error: '' @ s"
| "display_error (ParseError s) = ''Parse error: '' @ s"
| "display_error (System s) = ''Internal error: '' @ s"
| "display_error NoLeaderAvailable = ''no leader found in cluster''"
| "display_error NoFollowerNodeAvailable = ''no follower node found in cluster''"
| "display_error (Http s) = ''HTTP error: '' @ s"
| "display_error (Resolver s) = ''Identity resolution error: '' @ s"
| "display_error Timeout = ''Request timeout''"
| "display_error (Request s) = ''request failed: '' @ s"
| "display_error (Io s) = ''internal error: '' @ s"

end
