(* ===== verification/Rz_Stream.thy ===== *)
theory Rz_Stream
  imports Rz_Prelude
begin

text \<open>
  The interface between a byte stream and a framed protocol. A receiver appends what it reads
  to a buffer and takes complete frames off its front; \<open>ready\<close> recognises a complete frame
  at the front of the buffer and gives its length. The locale \<open>framing\<close> states what the
  decoders of the program promise (a recognised frame is non-empty, lies inside the buffer,
  and stays recognised when more bytes arrive), and proves once that the frames a receiver
  obtains do not depend on how the stream was cut into reads. \<open>framed_codec\<close> adds an encoder
  and the round trip of a whole sequence of frames. Both are interpreted on the router codec
  and on the shard codec of \<^verbatim>\<open>src/protocol.rs\<close> in theory \<open>Rz_Protocol\<close>.
\<close>

section \<open>Taking frames off a buffer\<close>

function parse_stream :: "(bytes \<Rightarrow> ('f \<times> nat) option) \<Rightarrow> bytes \<Rightarrow> 'f list \<times> bytes" where
  "parse_stream ready buf =
     (case ready buf of
        None \<Rightarrow> ([], buf)
      | Some (f, n) \<Rightarrow>
          (if 0 < n \<and> n \<le> length buf
           then (let (fs, rest) = parse_stream ready (drop n buf) in (f # fs, rest))
           else ([], buf)))"
  by pat_completeness auto
termination
  by (relation "measure (\<lambda>(ready, buf). length buf)") auto

declare parse_stream.simps [simp del]

text \<open>A receiver that reads the chunks of a stream one after the other.\<close>

fun feed :: "(bytes \<Rightarrow> ('f \<times> nat) option) \<Rightarrow> bytes \<Rightarrow> bytes list \<Rightarrow> 'f list \<times> bytes" where
  "feed ready buf [] = ([], buf)"
| "feed ready buf (c # cs) =
     (let (fs, rest) = parse_stream ready (buf @ c);
          (gs, end_buf) = feed ready rest cs
      in (fs @ gs, end_buf))"

section \<open>The contract of a decoder\<close>

locale framing =
  fixes ready :: "bytes \<Rightarrow> ('f \<times> nat) option"
  assumes ready_bounds: "ready buf = Some (f, n) \<Longrightarrow> 0 < n \<and> n \<le> length buf"
    and ready_stable: "ready buf = Some (f, n) \<Longrightarrow> ready (buf @ more) = Some (f, n)"
begin

lemma parse_step:
  "ready buf = Some (f, n) \<Longrightarrow>
   parse_stream ready buf =
     (f # fst (parse_stream ready (drop n buf)), snd (parse_stream ready (drop n buf)))"
  using ready_bounds by (auto simp: parse_stream.simps [of ready buf] split: prod.splits)

lemma parse_stop: "ready buf = None \<Longrightarrow> parse_stream ready buf = ([], buf)"
  by (simp add: parse_stream.simps [of ready buf])

lemma parse_append:
  "parse_stream ready (buf @ more) =
     (fst (parse_stream ready buf) @ fst (parse_stream ready (snd (parse_stream ready buf) @ more)),
      snd (parse_stream ready (snd (parse_stream ready buf) @ more)))"
proof (induction buf rule: length_induct)
  case (1 buf)
  show ?case
  proof (cases "ready buf")
    case None
    then show ?thesis by (simp add: parse_stop)
  next
    case (Some p)
    then obtain f n where p: "ready buf = Some (f, n)" by (cases p) auto
    then have n: "0 < n" "n \<le> length buf" by (auto dest: ready_bounds)
    then have "length (drop n buf) < length buf" by simp
    then show ?thesis
      using "1.IH" n by (simp add: parse_step [OF p] parse_step [OF ready_stable [OF p]])
  qed
qed

lemma parse_rest:
  "parse_stream ready (snd (parse_stream ready buf)) = ([], snd (parse_stream ready buf))"
proof (induction buf rule: length_induct)
  case (1 buf)
  show ?case
  proof (cases "ready buf")
    case None
    then show ?thesis by (simp add: parse_stop)
  next
    case (Some p)
    then obtain f n where p: "ready buf = Some (f, n)" by (cases p) auto
    then have "length (drop n buf) < length buf" by (auto dest: ready_bounds)
    then show ?thesis using "1.IH" by (simp add: parse_step [OF p])
  qed
qed

text \<open>Reading a stream in any number of chunks gives the frames of the whole stream.\<close>

lemma feed_chunks:
  "parse_stream ready buf = ([], buf) \<Longrightarrow> feed ready buf cs = parse_stream ready (buf @ concat cs)"
proof (induction cs arbitrary: buf)
  case Nil
  then show ?case by simp
next
  case (Cons c cs)
  have "feed ready (snd (parse_stream ready (buf @ c))) cs =
      parse_stream ready (snd (parse_stream ready (buf @ c)) @ concat cs)"
    by (rule Cons.IH) (rule parse_rest)
  then show ?case
    using parse_append [of "buf @ c" "concat cs"] by (simp add: case_prod_beta)
qed

lemma feed_from_empty: "feed ready [] cs = parse_stream ready (concat cs)"
proof -
  have "ready [] = None"
    using ready_bounds [of "[]"] by (cases "ready []") auto
  then show ?thesis using feed_chunks [of "[]" cs] by (simp add: parse_stop)
qed

end

section \<open>A decoder with its encoder\<close>

locale framed_codec = framing ready for ready :: "bytes \<Rightarrow> ('f \<times> nat) option" +
  fixes enc :: "'f \<Rightarrow> bytes"
    and ok :: "'f \<Rightarrow> bool"
  assumes ready_enc: "ok f \<Longrightarrow> ready (enc f) = Some (f, length (enc f))"
    and ready_partial: "ok f \<Longrightarrow> strict_prefix p (enc f) \<Longrightarrow> ready p = None"
begin

lemma parse_enc:
  "ok f \<Longrightarrow> parse_stream ready (enc f @ rest) =
     (f # fst (parse_stream ready rest), snd (parse_stream ready rest))"
  using parse_step [OF ready_stable [OF ready_enc]] by simp

lemma parse_all:
  assumes "\<forall>f \<in> set fs. ok f" and "ready rest = None"
  shows "parse_stream ready (concat (map enc fs) @ rest) = (fs, rest)"
  using assms by (induction fs) (auto simp: parse_enc parse_stop)

text \<open>Every frame of a stream is recovered in order, however the stream is cut, and an
  incomplete last frame stays in the buffer.\<close>

lemma feed_all:
  assumes ok: "\<forall>f \<in> set fs. ok f" and cut: "concat cs = concat (map enc fs)"
  shows "feed ready [] cs = (fs, [])"
proof -
  have "ready [] = None"
    using ready_bounds [of "[]"] by (cases "ready []") auto
  with parse_all [OF ok, of "[]"] show ?thesis by (simp add: feed_from_empty cut)
qed

lemma feed_all_partial:
  assumes ok: "\<forall>f \<in> set fs. ok f" and "ok g" and "strict_prefix p (enc g)"
    and cut: "concat cs = concat (map enc fs) @ p"
  shows "feed ready [] cs = (fs, p)"
  using parse_all [OF ok ready_partial [OF assms(2,3)]] by (simp add: feed_from_empty cut)

end

end
