(* ===== verification/Rz_Protocol.thy ===== *)
theory Rz_Protocol
  imports Rz_Error Rz_Stream
begin

text \<open>
  \<^verbatim>\<open>src/protocol.rs\<close>: the two wire formats. Routers send \<^emph>\<open>router frames\<close>
  (\<^verbatim>\<open>0xFE\<close>, a 4-byte length, a segment name, a write flag and an embedded shard frame),
  Roomzin nodes answer with \<^emph>\<open>shard frames\<close> (\<^verbatim>\<open>0xFF\<close>, a 4-byte correlation id, a 4-byte
  length, a payload). The definitions follow the source function by function; every slice and
  index of the source is a panicking access, so that the absence of panics is a theorem.
\<close>

section \<open>Constants and types\<close>

definition ROUTER_MAGIC :: u8 where "ROUTER_MAGIC = 0xFE"
definition SHARD_MAGIC :: u8 where "SHARD_MAGIC = 0xFF"
definition KEEPALIVE_SEGMENT :: string where "KEEPALIVE_SEGMENT = ''__keepalive__''"

datatype ProtocolError =
    ShortFrame
  | MissingMagic u8
  | ShortPayload string
  | ExtraBytes nat
  | InvalidUtf8
  | InvalidResponse string

record Header =
  clr_id :: u32
  status_len :: u8
  field_cnt :: u16

section \<open>Reading a shard frame from a node\<close>

text \<open>
  A reader is the sequence of results its \<^verbatim>\<open>read_buf\<close> calls give: some bytes (none at the
  end of the stream) or an I/O error. When the sequence is used up the read is pending. The
  loops re-test the buffer, so a pending call resumes as a fresh call on the same buffer.
\<close>

datatype read_event = Bytes_Read bytes | Read_Failed

datatype 'a polled = Ready 'a | Pending

fun fill_to :: "nat \<Rightarrow> read_event list \<Rightarrow> bytes \<Rightarrow>
    (ProtocolError + unit) polled \<times> read_event list \<times> bytes" where
  "fill_to k [] buf = ((if length buf < k then Pending else Ready (Inr ())), [], buf)"
| "fill_to k (ev # rs) buf =
     (if length buf < k
      then case ev of
          Read_Failed \<Rightarrow> (Ready (Inl ShortFrame), rs, buf)
        | Bytes_Read bs \<Rightarrow>
            (if bs = [] then (Ready (Inl ShortFrame), rs, buf) else fill_to k rs (buf @ bs))
      else (Ready (Inr ()), ev # rs, buf))"

text \<open>The part of \<^verbatim>\<open>drain_frame_async\<close> after the whole frame is buffered.\<close>

definition drain_parse :: "u32 \<Rightarrow> bytes \<Rightarrow> (ProtocolError + Header \<times> bytes) option" where
  "drain_parse cid full_frame = do {
     payload \<leftarrow> slice full_frame 9 (length full_frame);
     if payload = [] then Some (Inl (ShortPayload ''empty payload''))
     else do {
       b \<leftarrow> idx payload 0;
       let sl = unat b;
       if length payload < 1 + sl + 2 then Some (Inl (ShortPayload ''missing field count''))
       else do {
         fb \<leftarrow> slice payload (1 + sl) (1 + sl + 2);
         fc \<leftarrow> u16_from_le fb;
         Some (Inr (\<lparr>clr_id = cid, status_len = b, field_cnt = fc\<rparr>, full_frame))
       }
     }
   }"

definition drain_frame_async :: "read_event list \<Rightarrow> bytes \<Rightarrow>
    ((ProtocolError + Header \<times> bytes) polled \<times> read_event list \<times> bytes) option" where
  "drain_frame_async reader buf =
     (case fill_to 9 reader buf of
        (Pending, r, b) \<Rightarrow> Some (Pending, r, b)
      | (Ready (Inl e), r, b) \<Rightarrow> Some (Ready (Inl e), r, b)
      | (Ready (Inr _), r, b) \<Rightarrow> do {
          header_bytes \<leftarrow> slice b 0 9;
          m \<leftarrow> idx header_bytes 0;
          if m \<noteq> 0xFF then Some (Ready (Inl (MissingMagic m)), r, b)
          else do {
            cb \<leftarrow> slice header_bytes 1 5;
            cid \<leftarrow> u32_from_le cb;
            lb \<leftarrow> slice header_bytes 5 9;
            pl \<leftarrow> u32_from_le lb;
            let payload_len = unat pl;
            case fill_to (9 + payload_len) r b of
              (Pending, r', b') \<Rightarrow> Some (Pending, r', b')
            | (Ready (Inl e), r', b') \<Rightarrow> Some (Ready (Inl e), r', b')
            | (Ready (Inr _), r', b') \<Rightarrow> do {
                full_frame \<leftarrow> slice b' 0 (9 + payload_len);
                res \<leftarrow> drain_parse cid full_frame;
                Some (Ready res, r', drop (9 + payload_len) b')
              }
          }
        })"

definition prepend_header :: "u32 \<Rightarrow> bytes \<Rightarrow> bytes" where
  "prepend_header cid payload =
     [0xFF] @ u32_to_le cid @ u32_to_le (word_of_nat (length payload)) @ payload"

section \<open>Decoding a router frame\<close>

datatype DecodeResult =
    NeedMore
  | Frame (frame_len: nat) (segment: string) (is_write: bool) (shard_frame: bytes)
      (clrid_offset: nat) (original_clrid: u32)
  | Decode_Error RZError

text \<open>The second half of \<^verbatim>\<open>try_decode_router\<close>, from \<^verbatim>\<open>let seg_len\<close> on: the whole
  frame of \<open>flen\<close> bytes is in the buffer.\<close>

definition decode_router_body :: "bytes \<Rightarrow> nat \<Rightarrow> DecodeResult option" where
  "decode_router_body buf flen = do {
     sb \<leftarrow> idx buf 5;
     let seg_len = unat sb;
     let seg_start = 6;
     let is_write_pos = seg_start + seg_len;
     if is_write_pos \<ge> flen then
       Some (Decode_Error (ParseError ''segment length out of range''))
     else do {
       seg_bytes \<leftarrow> slice buf seg_start (seg_start + seg_len);
       case from_utf8 seg_bytes of
         None \<Rightarrow> Some (Decode_Error (ParseError ''segment not utf-8''))
       | Some seg \<Rightarrow> do {
           wb \<leftarrow> idx buf is_write_pos;
           let shard_start = is_write_pos + 1;
           sm \<leftarrow> (if shard_start + 5 > flen then Some 0 else idx buf shard_start);
           if shard_start + 5 > flen \<or> sm \<noteq> SHARD_MAGIC then
             Some (Decode_Error (ParseError ''missing shard magic''))
           else do {
             cb \<leftarrow> slice buf (shard_start + 1) (shard_start + 5);
             cid \<leftarrow> u32_from_le cb;
             sf \<leftarrow> slice buf shard_start flen;
             Some (Frame flen seg (wb = 0x01) sf (shard_start + 1) cid)
           }
         }
     }
   }"

definition try_decode_router :: "bytes \<Rightarrow> DecodeResult option" where
  "try_decode_router buf =
     (if length buf < 5 then Some NeedMore
      else do {
        m \<leftarrow> idx buf 0;
        if m \<noteq> ROUTER_MAGIC then Some (Decode_Error (ParseError ''bad router magic''))
        else do {
          lb \<leftarrow> slice buf 1 5;
          case u32_from_le lb of
            None \<Rightarrow> Some (Decode_Error (ParseError ''bad length''))
          | Some w \<Rightarrow>
              (let total_len = unat w; flen = 5 + total_len in
               if total_len > 16 * 1024 * 1024 then
                 Some (Decode_Error (ParseError ''frame too large''))
               else if length buf < flen then Some NeedMore
               else if total_len < 2 then
                 Some (Decode_Error (ParseError ''router total_len too small''))
               else decode_router_body buf flen)
        }
      })"

text \<open>\<^verbatim>\<open>buf[from..].iter().position(..)\<close>: the slice panics when \<^verbatim>\<open>from\<close> is past the end.\<close>

fun position :: "('a \<Rightarrow> bool) \<Rightarrow> 'a list \<Rightarrow> nat option" where
  "position P [] = None"
| "position P (x # xs) = (if P x then Some 0 else map_option Suc (position P xs))"

definition find_next_router_magic :: "bytes \<Rightarrow> nat \<Rightarrow> nat option option" where
  "find_next_router_magic buf from_pos = do {
     tail \<leftarrow> slice buf from_pos (length buf);
     Some (map_option (\<lambda>p. from_pos + p) (position (\<lambda>b. b = ROUTER_MAGIC) tail))
   }"

section \<open>The error reply\<close>

definition error_message :: "u8 \<Rightarrow> bytes" where
  "error_message code =
     (if code = 1 then string_to_bytes ''404''
      else if code = 2 then string_to_bytes ''503''
      else if code = 3 then string_to_bytes ''408''
      else string_to_bytes ''500'')"

definition build_error_response :: "u32 \<Rightarrow> u8 \<Rightarrow> bytes" where
  "build_error_response clrid code =
     (let msg = error_message code;
          payload = [5] @ string_to_bytes ''ERROR'' @ u16_to_le 1 @ u16_to_le 1 @ [1]
            @ u32_to_le 4 @ u32_to_le (word_of_nat (length msg)) @ msg
      in [0xFF] @ u32_to_le clrid @ u32_to_le (word_of_nat (length payload)) @ payload)"

section \<open>The router's side of the format\<close>

text \<open>
  The encoder of router frames is not part of the bridge; the integration tests carry one
  (\<^verbatim>\<open>tests/common/command.rs\<close>). Its length arithmetic is in \<^verbatim>\<open>u32\<close>, its segment length a
  truncating cast to \<^verbatim>\<open>u8\<close>.
\<close>

definition prepend_router_header :: "string \<Rightarrow> bool \<Rightarrow> u32 \<Rightarrow> bytes \<Rightarrow> bytes" where
  "prepend_router_header seg w clrid payload =
     (let shard_total_len = (word_of_nat (length payload) :: u32);
          shard_frame_len = 9 + shard_total_len;
          segment_len = (word_of_nat (length seg) :: u32);
          router_header_len = 1 + segment_len + 1
      in [ROUTER_MAGIC] @ u32_to_le (router_header_len + shard_frame_len)
         @ [ucast segment_len] @ string_to_bytes seg @ [if w then 0x01 else 0x00]
         @ [SHARD_MAGIC] @ u32_to_le clrid @ u32_to_le shard_total_len @ payload)"

section \<open>Specifications\<close>

text \<open>The decoder without its bounds checks: what it computes when no access panics.\<close>

definition body_ref :: "bytes \<Rightarrow> nat \<Rightarrow> DecodeResult" where
  "body_ref buf flen =
     (let sl = unat (buf ! 5) in
      if flen \<le> 6 + sl then Decode_Error (ParseError ''segment length out of range'')
      else if \<not> utf8_valid (take sl (drop 6 buf))
        then Decode_Error (ParseError ''segment not utf-8'')
      else if flen < 12 + sl \<or> buf ! (7 + sl) \<noteq> SHARD_MAGIC
        then Decode_Error (ParseError ''missing shard magic'')
      else Frame flen (bytes_to_string (take sl (drop 6 buf))) (buf ! (6 + sl) = 1)
             (take (flen - (7 + sl)) (drop (7 + sl) buf)) (8 + sl)
             (word_of_nat (le_to_nat (take 4 (drop (8 + sl) buf)))))"

definition decode_ref :: "bytes \<Rightarrow> DecodeResult" where
  "decode_ref buf =
     (let total = le_to_nat (take 4 (drop 1 buf)) in
      if length buf < 5 then NeedMore
      else if buf ! 0 \<noteq> ROUTER_MAGIC then Decode_Error (ParseError ''bad router magic'')
      else if total > 16777216 then Decode_Error (ParseError ''frame too large'')
      else if length buf < 5 + total then NeedMore
      else if total < 2 then Decode_Error (ParseError ''router total_len too small'')
      else body_ref buf (5 + total))"

text \<open>The layout of a router frame and the frames the bridge accepts, stated without reference
  to any decoding order.\<close>

definition router_layout :: "bytes \<Rightarrow> u8 \<Rightarrow> bytes \<Rightarrow> bytes" where
  "router_layout segb flag sf =
     [ROUTER_MAGIC] @ u32_to_le (word_of_nat (2 + length segb + length sf))
       @ [word_of_nat (length segb)] @ segb @ [flag] @ sf"

definition router_wf :: "bytes \<Rightarrow> bytes \<Rightarrow> bool" where
  "router_wf segb sf \<longleftrightarrow> length segb \<le> 255 \<and> utf8_valid segb \<and> 5 \<le> length sf
     \<and> sf ! 0 = SHARD_MAGIC \<and> 2 + length segb + length sf \<le> 16777216"

text \<open>A payload \<^verbatim>\<open>drain_frame_async\<close> accepts: a status string and a field count fit.\<close>

definition payload_wf :: "bytes \<Rightarrow> bool" where
  "payload_wf pl \<longleftrightarrow> pl \<noteq> [] \<and> 3 + unat (pl ! 0) \<le> length pl \<and> length pl < 4294967296"

definition frame_header :: "u32 \<Rightarrow> bytes \<Rightarrow> Header" where
  "frame_header cid pl = \<lparr>clr_id = cid, status_len = pl ! 0,
     field_cnt = word_of_nat (le_to_nat (take 2 (drop (1 + unat (pl ! 0)) pl)))\<rparr>"

text \<open>The two decoders as frame recognisers, with the frames they recognise.\<close>

definition router_ready :: "bytes \<Rightarrow> ((string \<times> bool \<times> bytes \<times> u32) \<times> nat) option" where
  "router_ready buf =
     (case try_decode_router buf of
        Some (Frame flen seg w sf off cid) \<Rightarrow> Some ((seg, w, sf, cid), flen)
      | _ \<Rightarrow> None)"

definition router_enc :: "string \<times> bool \<times> bytes \<times> u32 \<Rightarrow> bytes" where
  "router_enc = (\<lambda>(seg, w, sf, cid). router_layout (string_to_bytes seg) (if w then 1 else 0) sf)"

definition router_ok :: "string \<times> bool \<times> bytes \<times> u32 \<Rightarrow> bool" where
  "router_ok = (\<lambda>(seg, w, sf, cid). router_wf (string_to_bytes seg) sf
     \<and> take 4 (drop 1 sf) = u32_to_le cid)"

definition shard_ready :: "bytes \<Rightarrow> ((Header \<times> bytes) \<times> nat) option" where
  "shard_ready buf =
     (case drain_frame_async [] buf of
        Some (Ready (Inr (h, f)), r, b) \<Rightarrow> Some ((h, f), length f)
      | _ \<Rightarrow> None)"

definition shard_ok :: "Header \<times> bytes \<Rightarrow> bool" where
  "shard_ok = (\<lambda>(h, f). let pl = drop 9 f in payload_wf pl
     \<and> f = prepend_header (clr_id h) pl \<and> h = frame_header (clr_id h) pl)"

section \<open>Lemmas\<close>

lemma decode_router_body_ref:
  assumes "7 \<le> flen" "flen \<le> length buf"
  shows "decode_router_body buf flen = Some (body_ref buf flen)"
proof -
  define sl where "sl = unat (buf ! 5)"
  have n: "buf ! 5 = buf ! 5" "5 < length buf" using assms by auto
  show ?thesis
  proof (cases "flen < 12 + sl")
    case True
    with assms n show ?thesis
      by (simp add: decode_router_body_def body_ref_def from_utf8_def sl_def [symmetric])
  next
    case False
    with assms have "idx buf (7 + sl) = Some (buf ! (7 + sl))" 
       "slice buf (8 + sl) (12 + sl) = Some (take 4 (drop (8 + sl) buf))"
       "u32_from_le (take 4 (drop (8 + sl) buf)) = Some (word_of_nat (le_to_nat (take 4 (drop (8 + sl) buf))))"
      by (simp_all add: u32_from_le_def)
    with False assms n show ?thesis
      by (simp add: decode_router_body_def body_ref_def from_utf8_def Let_def sl_def [symmetric])
  qed
qed

lemma try_decode_router_ref: "try_decode_router buf = Some (decode_ref buf)"
proof (cases "length buf < 5")
  case True
  then show ?thesis by (simp add: try_decode_router_def decode_ref_def)
next
  case False
  define lb where "lb = take 4 (drop 1 buf)"
  from False have l4: "length lb = 4" by (simp add: lb_def)
  then have u: "u32_from_le lb = Some (word_of_nat (le_to_nat lb))"
    by (simp add: u32_from_le_def)
  have t: "unat (word_of_nat (le_to_nat lb) :: u32) = le_to_nat lb"
    using l4 le_to_nat_bound [of lb] by (simp add: unat_of_nat)
  have s: "slice buf 1 5 = Some lb" "idx buf 0 = Some (buf ! 0)" using False by (auto simp: lb_def idx_def)
  show ?thesis
    using False decode_router_body_ref [of "5 + le_to_nat lb" buf]
    by (simp add: try_decode_router_def decode_ref_def s u t Let_def lb_def [symmetric] del: One_nat_def)
qed

lemma length_router_layout [simp]:
  "length (router_layout segb flag sf) = 7 + length segb + length sf"
  by (simp add: router_layout_def)

lemma layout_total:
  assumes "router_wf segb sf"
  shows "le_to_nat (take 4 (drop 1 (router_layout segb flag sf @ rest))) = 2 + length segb + length sf"
proof -
  let ?n = "2 + length segb + length sf"
  have "take 4 (drop 1 (router_layout segb flag sf @ rest)) = u32_to_le (word_of_nat ?n)"
    unfolding router_layout_def by (simp del: of_nat_add)
  moreover have "unat (word_of_nat ?n :: u32) = ?n"
    using assms unfolding router_wf_def by (intro unat_u32_of_nat) simp
  ultimately show ?thesis by simp
qed

lemma layout_nth:
  "(router_layout segb flag sf @ rest) ! 0 = ROUTER_MAGIC"
  "(router_layout segb flag sf @ rest) ! 5 = word_of_nat (length segb)"
  "(router_layout segb flag sf @ rest) ! (6 + length segb) = flag"
  "drop 6 (router_layout segb flag sf @ rest) = segb @ flag # sf @ rest"
  "drop (7 + length segb) (router_layout segb flag sf @ rest) = sf @ rest"
proof -
  let ?h = "ROUTER_MAGIC # u32_to_le (word_of_nat (2 + length segb + length sf))"
  let ?w = "word_of_nat (length segb)"
  have e: "router_layout segb flag sf @ rest = ?h @ ?w # segb @ flag # sf @ rest"
    by (simp add: router_layout_def)
  show "(router_layout segb flag sf @ rest) ! 0 = ROUTER_MAGIC"
    by (simp add: router_layout_def)
  show "(router_layout segb flag sf @ rest) ! 5 = ?w"
    unfolding e by (rule nth_append_len) simp
  have "(router_layout segb flag sf @ rest) ! (6 + length segb) = ((?h @ ?w # segb) @ flag # sf @ rest) ! (6 + length segb)"
    by (simp add: router_layout_def)
  also have "\<dots> = flag" by (rule nth_append_len) simp
  finally show "(router_layout segb flag sf @ rest) ! (6 + length segb) = flag" .
  have "drop 6 ((?h @ [?w]) @ segb @ flag # sf @ rest) = segb @ flag # sf @ rest"
    by (rule drop_append_len) simp
  then show "drop 6 (router_layout segb flag sf @ rest) = segb @ flag # sf @ rest"
    by (simp add: router_layout_def)
  have "drop (7 + length segb) ((?h @ [?w] @ segb @ [flag]) @ sf @ rest) = sf @ rest"
    by (rule drop_append_len) simp
  then show "drop (7 + length segb) (router_layout segb flag sf @ rest) = sf @ rest"
    by (simp add: router_layout_def)
qed

lemma decode_layout:
  assumes wf: "router_wf segb sf"
  shows "try_decode_router (router_layout segb flag sf @ rest) =
     Some (Frame (7 + length segb + length sf) (bytes_to_string segb) (flag = 1) sf (8 + length segb)
        (word_of_nat (le_to_nat (take 4 (drop 1 sf)))))"
proof -
  define b where "b = router_layout segb flag sf @ rest"
  define sl where "sl = length segb"
  have n: "b ! 0 = ROUTER_MAGIC" "b ! 5 = word_of_nat sl" "b ! (6 + sl) = flag"
    "drop 6 b = segb @ flag # sf @ rest" "drop (7 + sl) b = sf @ rest"
    "length b = 7 + sl + length sf + length rest"
    unfolding b_def sl_def by (simp_all only: layout_nth) simp
  have sl: "unat (b ! 5) = sl"
    using wf by (simp add: n router_wf_def unat_of_nat sl_def)
  have "b ! (7 + sl) = drop (7 + sl) b ! 0"
    using n(6) by (subst nth_drop) simp_all
  then have m: "b ! (7 + sl) = SHARD_MAGIC"
    using wf by (auto simp: n router_wf_def nth_append)
  have "drop (8 + sl) b = drop 1 (drop (7 + sl) b)"
    by (simp only: drop_drop) simp
  then have c: "take 4 (drop (8 + sl) b) = take 4 (drop 1 sf)"
    using wf by (simp only: n) (simp add: router_wf_def)
  have "body_ref b (7 + sl + length sf) =
      Frame (7 + sl + length sf) (bytes_to_string segb) (flag = 1) sf (8 + sl)
        (word_of_nat (le_to_nat (take 4 (drop 1 sf))))"
    using wf n m c sl by (simp add: body_ref_def router_wf_def sl_def Let_def)
  moreover have "decode_ref b = body_ref b (7 + sl + length sf)"
    using wf layout_total [OF wf, of flag rest] n
    by (simp add: decode_ref_def router_wf_def sl_def b_def [symmetric] Let_def add.assoc)
  ultimately show ?thesis
    by (simp add: try_decode_router_ref b_def sl_def)
qed

lemma decode_FrameD:
  assumes "try_decode_router buf = Some (Frame flen seg w sf off cid)"
  defines "sl \<equiv> unat (buf ! 5)"
  defines "segb \<equiv> take sl (drop 6 buf)"
  shows "buf = router_layout segb (buf ! (6 + sl)) sf @ drop flen buf"
    and "router_wf segb sf" and "length segb = sl" and "flen = 7 + length segb + length sf"
    and "seg = bytes_to_string segb" and "w = (buf ! (6 + sl) = 1)" and "off = 8 + sl"
    and "u32_to_le cid = take 4 (drop 1 sf)"
proof -
  define total where "total = le_to_nat (take 4 (drop 1 buf))"
  have d: "decode_ref buf = Frame flen seg w sf off cid"
    using assms(1) by (simp add: try_decode_router_ref)
  then have len: "5 + total \<le> length buf" "total \<le> 16777216" "2 \<le> total" "buf ! 0 = ROUTER_MAGIC" "5 \<le> length buf"
    and b: "body_ref buf (5 + total) = Frame flen seg w sf off cid"
    by (auto simp: decode_ref_def Let_def total_def split: if_splits)
  from b have c: "12 + sl \<le> 5 + total" "utf8_valid segb" "buf ! (7 + sl) = SHARD_MAGIC"
    and flen: "flen = 5 + total" and sf: "sf = take (flen - (7 + sl)) (drop (7 + sl) buf)"
    and seg: "seg = bytes_to_string segb" and w: "w = (buf ! (6 + sl) = 1)" and off: "off = 8 + sl"
    and cid: "cid = word_of_nat (le_to_nat (take 4 (drop (8 + sl) buf)))"
    by (auto simp: body_ref_def Let_def segb_def sl_def [symmetric] split: if_splits)
  show segl: "length segb = sl" using c len by (simp add: segb_def)
  have sfl: "length sf + 2 + sl = total" using c len by (simp add: sf flen)
  show fl: "flen = 7 + length segb + length sf" using c sfl segl flen by simp
  show "seg = bytes_to_string segb" "w = (buf ! (6 + sl) = 1)" "off = 8 + sl"
    by (fact seg, fact w, fact off)
  have d1: "drop 1 sf = take (flen - (8 + sl)) (drop (8 + sl) buf)"
    by (simp add: sf drop_take)
  then have t4: "take 4 (drop 1 sf) = take 4 (drop (8 + sl) buf)" using c flen by (simp add: min_def)
  show "u32_to_le cid = take 4 (drop 1 sf)"
    unfolding t4 by (rule u32_to_from_le) (use c len in \<open>simp add: u32_from_le_def cid\<close>)
  have "sf ! 0 = buf ! (7 + sl)" using c len flen by (simp add: sf)
  moreover have "sl \<le> 255" using unat_u8_less [of "buf ! 5"] by (simp add: sl_def)
  ultimately show wf: "router_wf segb sf"
    using c len sfl segl by (simp add: router_wf_def)
  have "u32_to_le (word_of_nat total) = take 4 (drop 1 buf)"
    by (rule u32_to_from_le) (use len in \<open>simp add: u32_from_le_def total_def\<close>)
  moreover have "total = 2 + length segb + length sf" using fl flen by simp
  ultimately have lenb: "u32_to_le (word_of_nat (2 + length segb + length sf)) = take 4 (drop 1 buf)"
    by simp
  have "buf = buf ! 0 # drop 1 buf"
    using len by (cases buf) auto
  also have "drop 1 buf = take 4 (drop 1 buf) @ drop 5 buf"
    using take_drop_append_drop [of 1 buf 4] by simp
  also have "drop 5 buf = buf ! 5 # drop 6 buf"
    using nth_take_drop_split [of 5 buf] len by simp
  also have "drop 6 buf = segb @ drop (6 + sl) buf"
    using take_drop_append_drop [of 6 buf sl] by (simp add: segb_def)
  also have "drop (6 + sl) buf = buf ! (6 + sl) # drop (7 + sl) buf"
    using nth_take_drop_split [of "6 + sl" buf] len c by simp
  also have "drop (7 + sl) buf = sf @ drop flen buf"
    using take_drop_append_drop [of "7 + sl" buf "flen - (7 + sl)"] c flen by (simp add: sf)
  finally show "buf = router_layout segb (buf ! (6 + sl)) sf @ drop flen buf"
    using len segl lenb by (simp add: router_layout_def sl_def del: of_nat_add)
qed

lemma body_ref_stable:
  "7 \<le> flen \<Longrightarrow> flen \<le> length buf \<Longrightarrow> body_ref (buf @ ext) flen = body_ref buf flen"
  by (auto simp: body_ref_def Let_def nth_append)

lemma decode_stable:
  assumes "try_decode_router buf = Some r" and "r \<noteq> NeedMore"
  shows "try_decode_router (buf @ ext) = Some r"
proof -
  have l: "5 \<le> length buf" using assms by (auto simp: try_decode_router_ref decode_ref_def Let_def split: if_splits)
  then have t: "take 4 (drop 1 (buf @ ext)) = take 4 (drop 1 buf)" and z: "(buf @ ext) ! 0 = buf ! 0"
    by (auto simp: nth_append)
  show ?thesis
    using assms l body_ref_stable [of "5 + le_to_nat (take 4 (drop 1 buf))" buf ext]
    unfolding try_decode_router_ref decode_ref_def t z Let_def
    by (auto split: if_splits)
qed

lemma decode_partial:
  assumes wf: "router_wf segb sf" and p: "strict_prefix p (router_layout segb flag sf)"
  shows "try_decode_router p = Some NeedMore"
proof (cases "length p < 5")
  case True
  then show ?thesis by (simp add: try_decode_router_ref decode_ref_def)
next
  case False
  from p obtain q where q: "router_layout segb flag sf = p @ q" "q \<noteq> []"
    by (auto simp: strict_prefix_def prefix_def)
  have "take 4 (drop 1 p) = take 4 (drop 1 (router_layout segb flag sf @ []))"
    using False q by simp
  then have t: "le_to_nat (take 4 (drop 1 p)) = 2 + length segb + length sf"
    using layout_total [OF wf] by simp
  have z: "p ! 0 = ROUTER_MAGIC"
    using False q layout_nth(1) [of segb flag sf "[]"] by (cases p) auto
  have "length p < 7 + length segb + length sf"
    using q length_router_layout [of segb flag sf] by (cases q) auto
  then show ?thesis
    using False t z wf by (simp add: try_decode_router_ref decode_ref_def Let_def router_wf_def)
qed

lemma fill_to_chunks:
  assumes "\<forall>c \<in> set cs. c \<noteq> []" and "k \<le> length buf + length (concat cs)"
  shows "\<exists>i \<le> length cs. fill_to k (map Bytes_Read cs) buf =
      (Ready (Inr ()), map Bytes_Read (drop i cs), buf @ concat (take i cs))
    \<and> k \<le> length (buf @ concat (take i cs))"
  using assms
proof (induction cs arbitrary: buf)
  case Nil
  then show ?case by simp
next
  case (Cons c cs)
  show ?case
  proof (cases "length buf < k")
    case True
    from Cons.prems have "k \<le> length (buf @ c) + length (concat cs)" by simp
    with Cons obtain i where "i \<le> length cs"
      "fill_to k (map Bytes_Read cs) (buf @ c) =
        (Ready (Inr ()), map Bytes_Read (drop i cs), (buf @ c) @ concat (take i cs))"
      "k \<le> length ((buf @ c) @ concat (take i cs))" by (metis list.set_intros(2))
    with True Cons.prems(1) show ?thesis by (intro exI [of _ "Suc i"]) simp
  next
    case False
    then show ?thesis by (intro exI [of _ 0]) simp
  qed
qed

lemma fill_to_done: "fill_to k r b = (Ready (Inr u), r', b') \<Longrightarrow> k \<le> length b'"
  by (induction k r b rule: fill_to.induct) (auto split: if_splits read_event.splits)

lemma drain_parse_total:
  assumes "9 \<le> length f"
  shows "drain_parse cid f \<noteq> None"
proof -
  have "slice f 9 (length f) = Some (drop 9 f)" using assms by simp
  then show ?thesis
    by (auto simp: drain_parse_def Let_def u16_from_le_def Cons_eq_append_conv neq_Nil_conv)
qed

lemma drain_parse_NoneD: "drain_parse cid f = None \<Longrightarrow> length f < 9"
  using drain_parse_total [of f cid] by (cases "9 \<le> length f") auto

lemma length_prepend_header [simp]: "length (prepend_header cid pl) = 9 + length pl"
  by (simp add: prepend_header_def)

lemma drain_parse_wf:
  assumes "payload_wf pl"
  shows "drain_parse cid (prepend_header cid pl) = Some (Inr (frame_header cid pl, prepend_header cid pl))"
proof -
  have "drop 9 (prepend_header cid pl) = pl" by (simp add: prepend_header_def)
  then have s: "slice (prepend_header cid pl) 9 (length (prepend_header cid pl)) = Some pl" by simp
  define sl where "sl = unat (pl ! 0)"
  have "slice pl (1 + sl) (1 + sl + 2) = Some (take 2 (drop (1 + sl) pl))"
    "length (take 2 (drop (1 + sl) pl)) = 2" "idx pl 0 = Some (pl ! 0)"
    using assms by (auto simp: payload_wf_def sl_def)
  then show ?thesis
    unfolding drain_parse_def s using assms
    by (simp add: payload_wf_def frame_header_def u16_from_le_def Let_def sl_def [symmetric])
qed

lemma drain_frame_not_None: "drain_frame_async reader buf \<noteq> None"
proof -
  obtain p r b where f: "fill_to 9 reader buf = (p, r, b)" by (cases "fill_to 9 reader buf") auto
  show ?thesis
  proof (cases p)
    case Pending
    then show ?thesis by (simp add: drain_frame_async_def f)
  next
    case (Ready x)
    show ?thesis
    proof (cases x)
      case (Inl e)
      with Ready show ?thesis by (simp add: drain_frame_async_def f)
    next
      case (Inr u)
      with Ready f have "9 \<le> length b" by (auto dest: fill_to_done)
      moreover from this have "slice b 0 9 = Some (take 9 b)" by simp
      moreover have "slice (take 9 b) 1 5 = Some (take 4 (drop 1 (take 9 b)))" 
        "slice (take 9 b) 5 9 = Some (take 4 (drop 5 (take 9 b)))"
        "idx (take 9 b) 0 = Some (b ! 0)"
        "length (take 4 (drop 1 (take 9 b))) = 4" "length (take 4 (drop 5 (take 9 b))) = 4"
        using \<open>9 \<le> length b\<close> by (auto simp: idx_def)
      ultimately show ?thesis
        using Ready Inr
        by (auto simp: drain_frame_async_def f u32_from_le_def Let_def 
              split: polled.splits sum.splits prod.splits bind_splits dest!: fill_to_done drain_parse_NoneD)
    qed
  qed
qed

lemma drain_frame_chunks:
  assumes wf: "payload_wf pl" and ne: "\<forall>c \<in> set cs. c \<noteq> []"
    and stream: "buf @ concat cs = prepend_header cid pl @ tail"
  shows "\<exists>i b'. drain_frame_async (map Bytes_Read cs) buf =
      Some (Ready (Inr (frame_header cid pl, prepend_header cid pl)), map Bytes_Read (drop i cs), b')
    \<and> b' @ concat (drop i cs) = tail"
proof -
  let ?n = "9 + length pl"
  have len: "length buf + length (concat cs) = ?n + length tail"
    using arg_cong [OF stream, of length] by simp
  then have "9 \<le> length buf + length (concat cs)" by simp
  from fill_to_chunks [OF ne this] obtain i where
    f1: "fill_to 9 (map Bytes_Read cs) buf = (Ready (Inr ()), map Bytes_Read (drop i cs), buf @ concat (take i cs))"
    and l1: "9 \<le> length (buf @ concat (take i cs))" by blast
  define b where "b = buf @ concat (take i cs)"
  have sb: "b @ concat (drop i cs) = prepend_header cid pl @ tail"
    using stream by (simp add: b_def flip: concat_append)
  have "?n \<le> length b + length (concat (drop i cs))"
    using arg_cong [OF sb, of length] by simp
  moreover have "\<forall>c \<in> set (drop i cs). c \<noteq> []" using ne by (auto dest: in_set_dropD)
  ultimately obtain j where
    f2: "fill_to ?n (map Bytes_Read (drop i cs)) b =
      (Ready (Inr ()), map Bytes_Read (drop (i + j) cs), b @ concat (take j (drop i cs)))"
    and l2: "?n \<le> length (b @ concat (take j (drop i cs)))"
    using fill_to_chunks [of "drop i cs" ?n b] by (auto simp: add.commute)
  define b2 where "b2 = b @ concat (take j (drop i cs))"
  have sb2: "b2 @ concat (drop (i + j) cs) = prepend_header cid pl @ tail"
    using sb take_drop_append_drop [of i cs j] by (simp add: b2_def) (metis concat_append)
  have pre: "take ?n b2 = prepend_header cid pl" "drop ?n b2 @ concat (drop (i + j) cs) = tail"
    using arg_cong [OF sb2, of "take ?n"] arg_cong [OF sb2, of "drop ?n"] l2
    by (auto simp: b2_def)
  have h: "take 9 b = [0xFF] @ u32_to_le cid @ u32_to_le (word_of_nat (length pl))"
    using arg_cong [OF sb, of "take 9"] l1 by (simp add: b_def [symmetric] prepend_header_def)
  have "unat (word_of_nat (length pl) :: u32) = length pl"
    using wf unfolding payload_wf_def by (intro unat_u32_of_nat) simp
  then have "drain_frame_async (map Bytes_Read cs) buf =
      Some (Ready (Inr (frame_header cid pl, prepend_header cid pl)), map Bytes_Read (drop (i + j) cs), drop ?n b2)"
    using l1 l2 pre(1) drain_parse_wf [OF wf, of cid]
    by (simp add: drain_frame_async_def f1 b_def [symmetric] h f2 b2_def [symmetric] Let_def)
  with pre(2) show ?thesis by blast
qed

lemma build_error_response_eq:
  "build_error_response cid code = prepend_header cid
     ([5] @ string_to_bytes ''ERROR'' @ u16_to_le 1 @ u16_to_le 1 @ [1] @ u32_to_le 4
       @ u32_to_le 3 @ error_message code)"
  by (simp add: build_error_response_def prepend_header_def error_message_def Let_def)

lemma error_payload_wf:
  "payload_wf ([5] @ string_to_bytes ''ERROR'' @ u16_to_le 1 @ u16_to_le 1 @ [1] @ u32_to_le 4
       @ u32_to_le 3 @ error_message code)"
  by (simp add: payload_wf_def error_message_def)

lemma prepend_router_header_layout:
  assumes "length seg \<le> 255" and "length payload \<le> 16776950"
  shows "prepend_router_header seg w cid payload =
    router_layout (string_to_bytes seg) (if w then 1 else 0) (prepend_header cid payload)"
proof -
  have "(ucast (word_of_nat (length seg) :: u32) :: u8) = word_of_nat (length seg)"
    using assms unat_u32_of_nat [of "length seg"]
    by (simp add: ucast_eq uint_nat)
  then show ?thesis
    by (simp add: prepend_router_header_def router_layout_def prepend_header_def SHARD_MAGIC_def Let_def)
qed

lemma position_Some:
  "position P xs = Some i \<longleftrightarrow> i < length xs \<and> P (xs ! i) \<and> (\<forall>j < i. \<not> P (xs ! j))"
proof (induction xs arbitrary: i)
  case (Cons x xs)
  show ?case
  proof (cases i)
    case (Suc k)
    then show ?thesis using Cons.IH [of k] by (auto simp: less_Suc_eq_0_disj)
  qed auto
qed simp

lemma position_None: "position P xs = None \<longleftrightarrow> (\<forall>x \<in> set xs. \<not> P x)"
  by (induction xs) auto


lemma drain_buffered:
  "drain_frame_async [] buf =
     (if length buf < 9 then Some (Pending, [], buf)
      else if buf ! 0 \<noteq> 0xFF then Some (Ready (Inl (MissingMagic (buf ! 0))), [], buf)
      else let n = 9 + le_to_nat (take 4 (drop 5 buf)) in
        if length buf < n then Some (Pending, [], buf)
        else map_option (\<lambda>res. (Ready res, [], drop n buf))
          (drain_parse (word_of_nat (le_to_nat (take 4 (drop 1 buf)))) (take n buf)))"
proof (cases "length buf < 9")
  case False
  have u: "idx (take 9 buf) 0 = Some (buf ! 0)"
    "take 4 (drop 1 (take 9 buf)) = take 4 (drop 1 buf)" "take 4 (drop 5 (take 9 buf)) = take 4 (drop 5 buf)"
    "length (take 4 (drop 1 buf)) = 4" "length (take 4 (drop 5 buf)) = 4"
    using False by (auto simp: idx_def drop_take)
  then have s: "slice (take 9 buf) 1 5 = Some (take 4 (drop 1 buf))" "slice (take 9 buf) 5 9 = Some (take 4 (drop 5 buf))"
    using False by (simp_all add: drop_take)
  have t: "unat (word_of_nat (le_to_nat (take 4 (drop 5 buf))) :: u32) = le_to_nat (take 4 (drop 5 buf))"
    by (rule unat_u32_of_nat) (use le_to_nat_bound [of "take 4 (drop 5 buf)"] u in simp)
  define n where "n = le_to_nat (take 4 (drop 5 buf))"
  define c where "c = (word_of_nat (le_to_nat (take 4 (drop 1 buf))) :: u32)"
  have "u32_from_le (take 4 (drop 5 buf)) = Some (word_of_nat n)" "u32_from_le (take 4 (drop 1 buf)) = Some c"
    using u by (simp_all add: u32_from_le_def n_def c_def)
  with False u(1) s t show ?thesis
    by (simp add: drain_frame_async_def Let_def n_def [symmetric] c_def [symmetric] map_conv_bind_option comp_def del: One_nat_def)
qed (simp add: drain_frame_async_def)

lemma drain_parse_InrD:
  assumes "drain_parse cid f = Some (Inr (h, g))"
  shows "g = f" and "clr_id h = cid"
  using assms by (auto simp: drain_parse_def Let_def split: bind_splits if_splits)

lemma shard_ready_eq:
  "shard_ready buf = Some (hf, n) \<longleftrightarrow>
     9 \<le> length buf \<and> buf ! 0 = 0xFF \<and> n = 9 + le_to_nat (take 4 (drop 5 buf)) \<and> n \<le> length buf
     \<and> drain_parse (word_of_nat (le_to_nat (take 4 (drop 1 buf)))) (take n buf) = Some (Inr hf)"
proof (cases "9 \<le> length buf \<and> buf ! 0 = 0xFF \<and> 9 + le_to_nat (take 4 (drop 5 buf)) \<le> length buf")
  case True
  obtain h f where hf: "hf = (h, f)" by (cases hf)
  have "length f = 9 + le_to_nat (take 4 (drop 5 buf))"
    if "drain_parse c (take (9 + le_to_nat (take 4 (drop 5 buf))) buf) = Some (Inr (h, f))" for c
    using drain_parse_InrD(1) [OF that] True by simp
  with True show ?thesis
    unfolding shard_ready_def drain_buffered hf
    by (cases "drain_parse (word_of_nat (le_to_nat (take 4 (drop 1 buf))))
          (take (9 + le_to_nat (take 4 (drop 5 buf))) buf)") (auto split: sum.splits)
next
  case False
  then show ?thesis
    unfolding shard_ready_def drain_buffered by (auto simp: Let_def)
qed

section \<open>The codecs implement the framing interface\<close>

interpretation router_codec: framed_codec router_ready router_enc router_ok
proof
  fix buf f n
  assume "router_ready buf = Some (f, n)"
  then obtain seg w sf off cid where d: "try_decode_router buf = Some (Frame n seg w sf off cid)"
    and f: "f = (seg, w, sf, cid)"
    by (auto simp: router_ready_def split: option.splits DecodeResult.splits)
  show "0 < n \<and> n \<le> length buf"
    using decode_FrameD(1,4) [OF d] by (auto dest: arg_cong [where f = length])
  fix ext
  show "router_ready (buf @ ext) = Some (f, n)"
    using decode_stable [OF d, of ext] by (simp add: router_ready_def f)
next
  fix f assume ok: "router_ok f"
  obtain seg w sf cid where f: "f = (seg, w, sf, cid)" by (cases f)
  from ok have "word_of_nat (le_to_nat (take 4 (drop 1 sf))) = cid"
    by (simp add: router_ok_def f)
  then show "router_ready (router_enc f) = Some (f, length (router_enc f))"
    using ok decode_layout [of "string_to_bytes seg" sf "if w then 1 else 0" "[]"]
    by (simp add: router_ok_def f router_enc_def router_ready_def)
  fix p assume "strict_prefix p (router_enc f)"
  then show "router_ready p = None"
    using ok decode_partial by (auto simp: router_ok_def f router_enc_def router_ready_def)
qed

interpretation shard_codec: framed_codec shard_ready snd shard_ok
proof
  fix buf :: bytes and f :: "Header \<times> bytes" and n
  assume r: "shard_ready buf = Some (f, n)"
  then show "0 < n \<and> n \<le> length buf" by (auto simp: shard_ready_eq)
  fix ext :: bytes
  from r show "shard_ready (buf @ ext) = Some (f, n)" by (auto simp: shard_ready_eq nth_append)
next
  fix hf :: "Header \<times> bytes" assume ok: "shard_ok hf"
  obtain h f where hf: "hf = (h, f)" by (cases hf)
  define pl where "pl = drop 9 f"
  have pl: "payload_wf pl" "f = prepend_header (clr_id h) pl" "h = frame_header (clr_id h) pl"
    using ok by (simp_all add: shard_ok_def hf pl_def Let_def)
  then have l: "le_to_nat (take 4 (drop 5 f)) = length pl" "take 4 (drop 1 f) = u32_to_le (clr_id h)"
    "f ! 0 = 0xFF" "length f = 9 + length pl"
    by (simp_all add: prepend_header_def payload_wf_def unat_u32_of_nat)
  then show "shard_ready (snd hf) = Some (hf, length (snd hf))"
    using drain_parse_wf [OF pl(1), of "clr_id h"] pl(2,3) by (simp add: shard_ready_eq hf)
  fix p assume "strict_prefix p (snd hf)"
  then obtain q where q: "f = p @ q" "q \<noteq> []" by (auto simp: hf strict_prefix_def prefix_def)
  have "length p < 9 + length pl" using q l(4) by (cases q) auto
  then show "shard_ready p = None"
    using l(1) q by (cases "shard_ready p") (auto simp: shard_ready_eq)
qed

section \<open>Properties of the wire formats\<close>

text \<open>C14: \<^verbatim>\<open>try_decode_router\<close> reports a frame exactly when the buffer starts with a
  well-formed router frame, and then the reported length, segment, write flag, shard frame,
  correlation-id offset and correlation id are those of that frame.\<close>

theorem try_decode_router_frame_iff:
  "try_decode_router buf = Some (Frame flen seg w sf off cid) \<longleftrightarrow>
     (\<exists>segb flag rest. buf = router_layout segb flag sf @ rest \<and> router_wf segb sf
        \<and> seg = bytes_to_string segb \<and> w = (flag = 1) \<and> flen = 7 + length segb + length sf
        \<and> off = 8 + length segb \<and> u32_to_le cid = take 4 (drop 1 sf))"
  (is "?L \<longleftrightarrow> ?R")
proof
  assume ?L
  note d = decode_FrameD [OF this]
  show ?R
    by (intro exI conjI) (rule d(1), rule d(2), rule d(5), rule d(6), rule d(4),
      simp only: d(3) d(7), rule d(8))
next
  assume ?R
  then obtain segb flag rest where r: "buf = router_layout segb flag sf @ rest" "router_wf segb sf"
    "seg = bytes_to_string segb" "w = (flag = 1)" "flen = 7 + length segb + length sf"
    "off = 8 + length segb" "u32_to_le cid = take 4 (drop 1 sf)" by blast
  have "word_of_nat (le_to_nat (take 4 (drop 1 sf))) = cid"
    by (simp only: r(7) [symmetric]) simp
  with decode_layout [OF r(2), of flag rest] show ?L by (simp add: r)
qed

text \<open>No input makes \<^verbatim>\<open>try_decode_router\<close> panic: every slice and index it takes is in
  bounds, whatever length fields the peer sent.\<close>

lemma try_decode_router_never_panics: "\<exists>r. try_decode_router buf = Some r"
  by (simp add: try_decode_router_ref)

text \<open>A verdict other than \<^verbatim>\<open>NeedMore\<close> is final: bytes that arrive later do not change
  it, so decoding early never loses or invents a frame or an error.\<close>

lemma try_decode_router_verdict_final:
  assumes "try_decode_router buf = Some r" and "r \<noteq> NeedMore"
  shows "try_decode_router (buf @ later) = Some r"
  using assms by (rule decode_stable)

text \<open>C20: a router frame built by the encoder of the integration tests decodes to the segment,
  write flag, correlation id and shard frame it was built from, with the following bytes of the
  stream left over.\<close>

theorem router_frame_roundtrip:
  assumes "length seg \<le> 255" and "utf8_valid (string_to_bytes seg)"
    and "length payload \<le> 16776950"
  shows "try_decode_router (prepend_router_header seg w cid payload @ rest) =
     Some (Frame (length (prepend_router_header seg w cid payload)) seg w
       (prepend_header cid payload) (8 + length seg) cid)"
proof -
  have "router_wf (string_to_bytes seg) (prepend_header cid payload)"
    using assms by (simp add: router_wf_def prepend_header_def SHARD_MAGIC_def)
  moreover have "word_of_nat (le_to_nat (take 4 (drop 1 (prepend_header cid payload)))) = cid"
    by (simp add: prepend_header_def)
  ultimately show ?thesis
    by (simp add: prepend_router_header_layout [OF assms(1,3)] decode_layout)
qed

theorem router_frame_roundtrip_witness:
  "try_decode_router (prepend_router_header ''seg'' True 7 [1, 2, 3] @ [9]) =
     Some (Frame (length (prepend_router_header ''seg'' True 7 [1, 2, 3])) ''seg'' True
       (prepend_header 7 [1, 2, 3]) 11 7)"
  using router_frame_roundtrip [of "''seg''" "[1, 2, 3]" True 7 "[9]"]
  by (simp add: string_to_bytes_def)

text \<open>However the router's stream is cut into reads, taking complete frames off the
  receive buffer yields every frame once and in order, and nothing is left in the buffer.\<close>

lemma router_stream_chunking:
  assumes "\<forall>f \<in> set fs. router_ok f" and "concat cs = concat (map router_enc fs)"
  shows "feed router_ready [] cs = (fs, [])"
  using assms by (rule router_codec.feed_all)

text \<open>\<^verbatim>\<open>drain_frame_async\<close> recovers a node's frame from any sequence of non-empty reads:
  it returns the header (correlation id, status length, field count) and the whole frame, and
  what it leaves in buffer and reader is exactly the rest of the stream.\<close>

lemma drain_frame_any_chunking:
  assumes "payload_wf pl" and "\<forall>c \<in> set cs. c \<noteq> []"
    and "buf @ concat cs = prepend_header cid pl @ tail"
  shows "\<exists>i b'. drain_frame_async (map Bytes_Read cs) buf =
      Some (Ready (Inr (frame_header cid pl, prepend_header cid pl)), map Bytes_Read (drop i cs), b')
    \<and> b' @ concat (drop i cs) = tail"
  using assms by (rule drain_frame_chunks)

text \<open>\<^verbatim>\<open>drain_frame_async\<close> never panics, whatever a node sends and however the reads
  fail.\<close>

lemma drain_frame_never_panics: "\<exists>r. drain_frame_async reader buf = Some r"
  using drain_frame_not_None [of reader buf] by blast

text \<open>The error reply of \<^verbatim>\<open>build_error_response\<close> is a well-formed shard frame of 31 bytes:
  a receiver that runs \<^verbatim>\<open>drain_frame_async\<close> on it gets the request's correlation id, the
  five-byte status \<^verbatim>\<open>ERROR\<close> and one field.\<close>

lemma error_response_parses:
  "\<exists>h. drain_frame_async [] (build_error_response cid code) =
      Some (Ready (Inr (h, build_error_response cid code)), [], [])
    \<and> h = \<lparr>clr_id = cid, status_len = 5, field_cnt = 1\<rparr>
    \<and> take 5 (drop 10 (build_error_response cid code)) = string_to_bytes ''ERROR''
    \<and> length (build_error_response cid code) = 31"
proof -
  let ?pl = "[5] @ string_to_bytes ''ERROR'' @ u16_to_le 1 @ u16_to_le 1 @ [1] @ u32_to_le 4
       @ u32_to_le 3 @ error_message code"
  have "drain_frame_async (map Bytes_Read []) (prepend_header cid ?pl) =
      Some (Ready (Inr (frame_header cid ?pl, prepend_header cid ?pl)), [], [])"
    using drain_frame_chunks [OF error_payload_wf [of code], of "[]" "prepend_header cid ?pl" cid "[]"]
    by auto
  moreover have "frame_header cid ?pl = \<lparr>clr_id = cid, status_len = 5, field_cnt = 1\<rparr>"
    by (simp add: frame_header_def u16_to_le_eval string_to_bytes_def)
  ultimately show ?thesis
    by (simp add: build_error_response_eq) (simp add: prepend_header_def string_to_bytes_def error_message_def)
qed

text \<open>\<^verbatim>\<open>find_next_router_magic\<close> returns the first position at or after \<^verbatim>\<open>from\<close> that
  holds \<^verbatim>\<open>0xFE\<close>, nothing when there is none, and panics only when \<^verbatim>\<open>from\<close> is beyond the end
  of the buffer.\<close>

lemma find_next_router_magic_correct:
  "(find_next_router_magic buf k = None \<longleftrightarrow> length buf < k)
   \<and> (find_next_router_magic buf k = Some (Some p) \<longleftrightarrow>
        k \<le> p \<and> p < length buf \<and> buf ! p = ROUTER_MAGIC \<and> ROUTER_MAGIC \<notin> set (take (p - k) (drop k buf)))
   \<and> (find_next_router_magic buf k = Some None \<longleftrightarrow>
        k \<le> length buf \<and> ROUTER_MAGIC \<notin> set (drop k buf))"
proof -
  let ?pos = "position (\<lambda>b. b = ROUTER_MAGIC) (drop k buf)"
  have f: "find_next_router_magic buf k =
      (if k \<le> length buf then Some (map_option (\<lambda>p. k + p) ?pos) else None)"
    by (simp add: find_next_router_magic_def slice_def)
  have some: "?pos = Some q \<longleftrightarrow> k + q < length buf \<and> buf ! (k + q) = ROUTER_MAGIC
      \<and> ROUTER_MAGIC \<notin> set (take q (drop k buf))" if "k \<le> length buf" for q
    using that by (auto simp: position_Some in_set_conv_nth)
  have none: "?pos = None \<longleftrightarrow> ROUTER_MAGIC \<notin> set (drop k buf)"
    by (auto simp: position_None)
  show ?thesis
  proof (cases "k \<le> length buf")
    case True
    have "find_next_router_magic buf k = Some (Some p) \<longleftrightarrow> k \<le> p \<and> ?pos = Some (p - k)"
      using True by (auto simp: f)
    with True none some [OF True, of "p - k"] show ?thesis by (auto simp: f)
  next
    case False
    then show ?thesis by (simp add: f)
  qed
qed

end
