(* ===== verification/Rz_Executor.thy ===== *)
theory Rz_Executor
  imports Rz_Error
begin

text \<open>
  The interface between the TCP server and what it calls: the clock, the cluster's
  \<^verbatim>\<open>execute\<close>, and the writer half of the client's socket, all operations on an abstract world
  \<open>'w\<close>. The locale \<open>executor\<close> is the contract of \<^verbatim>\<open>ClusterHandler::execute\<close> the server relies
  on: a frame that is not a shard frame is refused, and a reply that is long enough to carry a
  correlation id carries the one of the request. Theory \<open>Rz_Execute\<close> interprets it on the
  model of \<^verbatim>\<open>ClusterHandler::execute\<close>; theory \<open>Rz_Tcp_Server\<close> is its client.
\<close>

type_synonym instant = int

record 'w server_io =
  io_now :: "'w \<Rightarrow> instant \<times> 'w"
  io_execute :: "bool \<Rightarrow> bytes \<Rightarrow> 'w \<Rightarrow> bytes rz_result \<times> 'w"
  io_write_all :: "bytes \<Rightarrow> 'w \<Rightarrow> bool \<times> 'w"
  io_flush :: "'w \<Rightarrow> 'w"

text \<open>The correlation id a frame carries in its bytes 1 to 4.\<close>

definition clrid_field :: "bytes \<Rightarrow> bytes" where
  "clrid_field f = take 4 (drop 1 f)"

locale executor =
  fixes exec :: "bool \<Rightarrow> bytes \<Rightarrow> 'w \<Rightarrow> bytes rz_result \<times> 'w"
  assumes exec_reject:
      "length f < 9 \<or> f ! 0 \<noteq> 0xFF \<Longrightarrow>
       fst (exec w f s) = Inl (Validation ''invalid shard frame'')"
    and exec_reply:
      "fst (exec w f s) = Inr resp \<Longrightarrow> 9 \<le> length resp \<Longrightarrow> clrid_field resp = clrid_field f"
begin

text \<open>A successful execution was one of a shard frame.\<close>

lemma exec_ok_frame: "fst (exec w f s) = Inr resp \<Longrightarrow> 9 \<le> length f \<and> f ! 0 = 0xFF"
  using exec_reject [of f w s] by fastforce

end

end
