(* ===== verification/Rz_Text.thy ===== *)
theory Rz_Text
  imports Rz_Prelude
begin

text \<open>
  The text functions of the Rust standard library the crate uses on addresses, URLs and HTTP
  bodies: decimal formatting, \<^verbatim>\<open>trim_start_matches\<close>, \<^verbatim>\<open>trim_end_matches\<close> and \<^verbatim>\<open>trim\<close>. A
  string is the list of its UTF-8 bytes, so white space is recognised by its encoded form.
\<close>

section \<open>Decimal formatting\<close>

definition digit_char :: "nat \<Rightarrow> char" where
  "digit_char d = char_of (48 + d)"

fun show_nat :: "nat \<Rightarrow> string" where
  "show_nat n = (if n < 10 then [digit_char n] else show_nat (n div 10) @ [digit_char (n mod 10)])"

declare show_nat.simps [simp del]

fun read_nat :: "string \<Rightarrow> nat" where
  "read_nat s = foldl (\<lambda>n c. 10 * n + (of_char c - 48)) 0 s"

lemma of_char_digit: "d < 10 \<Longrightarrow> of_char (digit_char d) = (48 + d :: nat)"
  by (simp add: digit_char_def)

lemma read_show_nat: "read_nat (show_nat n) = n"
proof (induction n rule: show_nat.induct)
  case (1 n)
  show ?case
  proof (cases "n < 10")
    case True
    then show ?thesis by (simp add: show_nat.simps [of n] of_char_digit)
  next
    case False
    then have "read_nat (show_nat (n div 10)) = n div 10" by (rule "1.IH")
    with False show ?thesis by (simp add: show_nat.simps [of n] of_char_digit)
  qed
qed

lemma show_nat_inject: "show_nat m = show_nat n \<longleftrightarrow> m = n"
  by (metis read_show_nat)

lemma show_nat_digits: "c \<in> set (show_nat n) \<Longrightarrow> 48 \<le> (of_char c :: nat) \<and> (of_char c :: nat) < 58"
proof (induction n rule: show_nat.induct)
  case (1 n)
  show ?case
  proof (cases "n < 10")
    case True
    then show ?thesis using "1.prems" by (simp add: show_nat.simps [of n] of_char_digit)
  next
    case False
    from False "1.prems" have "c \<in> set (show_nat (n div 10)) \<or> c = digit_char (n mod 10)"
      by (auto simp: show_nat.simps [of n])
    then show ?thesis using "1.IH" [OF False] by (auto simp: of_char_digit)
  qed
qed

section \<open>Stripping prefixes and suffixes\<close>

text \<open>\<^verbatim>\<open>trim_start_matches(pat)\<close> removes the pattern as often as it is a prefix.\<close>

function trim_start_matches :: "string \<Rightarrow> string \<Rightarrow> string" where
  "trim_start_matches pat s =
     (if pat \<noteq> [] \<and> take (length pat) s = pat
      then trim_start_matches pat (drop (length pat) s) else s)"
  by pat_completeness auto
termination
proof (relation "measure (\<lambda>(pat, s). length s)")
  fix pat s :: string
  assume "pat \<noteq> [] \<and> take (length pat) s = pat"
  then have "s \<noteq> []" by auto
  with \<open>pat \<noteq> [] \<and> _\<close> show "((pat, drop (length pat) s), (pat, s)) \<in> measure (\<lambda>(pat, s). length s)"
    by simp
qed simp

declare trim_start_matches.simps [simp del]

definition trim_end_matches :: "char \<Rightarrow> string \<Rightarrow> string" where
  "trim_end_matches c s = rev (dropWhile (\<lambda>x. x = c) (rev s))"

lemma trim_start_matches_stable:
  "take (length pat) s \<noteq> pat \<Longrightarrow> trim_start_matches pat s = s"
  by (simp add: trim_start_matches.simps)

lemma trim_start_matches_no_prefix:
  "pat \<noteq> [] \<Longrightarrow> take (length pat) (trim_start_matches pat s) \<noteq> pat"
proof (induction pat s rule: trim_start_matches.induct)
  case (1 pat s)
  then show ?case by (cases "take (length pat) s = pat") (simp_all add: trim_start_matches.simps [of pat s])
qed

section \<open>White space\<close>

text \<open>The UTF-8 encodings of the code points with the property \<^verbatim>\<open>White_Space\<close>.\<close>

definition whitespace_encodings :: "string list" where
  "whitespace_encodings =
     map (map char_of) ([[9], [10], [11], [12], [13], [32], [0xC2, 0x85], [0xC2, 0xA0], [0xE1, 0x9A, 0x80],
       [0xE2, 0x80, 0xA8], [0xE2, 0x80, 0xA9], [0xE2, 0x80, 0xAF], [0xE2, 0x81, 0x9F], [0xE3, 0x80, 0x80]]
       @ map (\<lambda>i. [0xE2, 0x80, 0x80 + i]) [0..<11 :: nat])"

definition ws_prefix :: "string \<Rightarrow> nat option" where
  "ws_prefix s = map_option length (find (\<lambda>e. take (length e) s = e) whitespace_encodings)"

lemma whitespace_encodings_nonempty: "e \<in> set whitespace_encodings \<Longrightarrow> e \<noteq> []"
  by (auto simp: whitespace_encodings_def)

lemma ws_prefix_bound: "ws_prefix s = Some n \<Longrightarrow> 0 < n \<and> n \<le> length s"
proof -
  assume "ws_prefix s = Some n"
  then obtain e where e: "e \<in> set whitespace_encodings" "take (length e) s = e" "n = length e"
    by (auto simp: ws_prefix_def find_Some_iff dest: nth_mem)
  from e(2) have "length e \<le> length s" by (metis length_take min.cobounded1)
  with e whitespace_encodings_nonempty show ?thesis by auto
qed

function trim_start :: "string \<Rightarrow> string" where
  "trim_start s = (case ws_prefix s of None \<Rightarrow> s | Some n \<Rightarrow> trim_start (drop n s))"
  by pat_completeness auto
termination
  by (relation "measure length") (auto dest: ws_prefix_bound)

declare trim_start.simps [simp del]

definition ws_suffix :: "string \<Rightarrow> nat option" where
  "ws_suffix s =
     map_option length (find (\<lambda>e. drop (length s - length e) s = e) whitespace_encodings)"

lemma ws_suffix_bound: "ws_suffix s = Some n \<Longrightarrow> 0 < n \<and> n \<le> length s"
proof -
  assume "ws_suffix s = Some n"
  then obtain e where e: "e \<in> set whitespace_encodings" "drop (length s - length e) s = e" "n = length e"
    by (auto simp: ws_suffix_def find_Some_iff dest: nth_mem)
  from e(2) have "length e \<le> length s" by (metis length_drop diff_le_self)
  with e whitespace_encodings_nonempty show ?thesis by auto
qed

function trim_end :: "string \<Rightarrow> string" where
  "trim_end s = (case ws_suffix s of None \<Rightarrow> s | Some n \<Rightarrow> trim_end (take (length s - n) s))"
  by pat_completeness auto
termination
  by (relation "measure length") (auto dest: ws_suffix_bound)

declare trim_end.simps [simp del]

definition trim :: "string \<Rightarrow> string" where
  "trim s = trim_end (trim_start s)"

lemma trim_start_no_ws: "ws_prefix (trim_start s) = None"
proof (induction s rule: trim_start.induct)
  case (1 s)
  then show ?case by (cases "ws_prefix s") (simp_all add: trim_start.simps [of s])
qed

lemma trim_end_no_ws: "ws_suffix (trim_end s) = None"
proof (induction s rule: trim_end.induct)
  case (1 s)
  then show ?case by (cases "ws_suffix s") (simp_all add: trim_end.simps [of s])
qed

text \<open>Text that begins and ends with a printing ASCII character is kept as it is.\<close>

definition graph_char :: "char \<Rightarrow> bool" where
  "graph_char c \<longleftrightarrow> 32 < (of_char c :: nat) \<and> (of_char c :: nat) < 128"

lemma whitespace_ends: "\<forall>e \<in> set whitespace_encodings. e \<noteq> [] \<and> \<not> graph_char (hd e) \<and> \<not> graph_char (last e)"
  by (simp add: whitespace_encodings_def graph_char_def upt_rec)

lemma trim_graph:
  assumes "s \<noteq> []" and "graph_char (hd s)" and "graph_char (last s)"
  shows "trim s = s"
proof -
  have "take (length e) s \<noteq> e" "drop (length s - length e) s \<noteq> e" if "e \<in> set whitespace_encodings" for e
  proof -
    have e: "e \<noteq> []" "\<not> graph_char (hd e)" "\<not> graph_char (last e)" using that whitespace_ends by auto
    show "take (length e) s \<noteq> e" using e assms by (cases s; cases e) auto
    show "drop (length s - length e) s \<noteq> e"
    proof
      assume d: "drop (length s - length e) s = e"
      then have "length s - length e < length s" using e(1) by (metis drop_eq_Nil not_le)
      then have "last e = last s" using d by (metis last_drop)
      with e assms show False by simp
    qed
  qed
  then have "ws_prefix s = None" "ws_suffix s = None"
    by (auto simp: ws_prefix_def ws_suffix_def find_None_iff)
  then show ?thesis by (simp add: trim_def trim_start.simps [of s] trim_end.simps [of s])
qed

end
