(* ===== verification/Rz_Config.thy ===== *)
theory Rz_Config
  imports Rz_Text
begin

text \<open>
  \<^verbatim>\<open>src/config.rs\<close>: the configuration record, its documented defaults and the derived
  values. The command line parser is the \<^verbatim>\<open>clap\<close> crate and is not modelled; \<open>default_config\<close>
  is the record it builds from the five required arguments. \<^verbatim>\<open>usize\<close> and \<^verbatim>\<open>u64\<close> fields are
  natural numbers, ports are 16-bit words. A \<^verbatim>\<open>Duration\<close> is a number of nanoseconds.
\<close>

type_synonym duration = nat

definition from_secs :: "nat \<Rightarrow> duration" where
  "from_secs s = s * 1000000000"

definition from_millis :: "nat \<Rightarrow> duration" where
  "from_millis s = s * 1000000"

record Config =
  zone_id :: string
  shard_id :: string
  bridge_id :: string
  rzid_addr :: string
  rzpoint_addr :: string
  roomzin_api_port :: u16
  roomzin_tcp_port :: u16
  rzid_heartbeat_interval_secs :: nat
  listen_host :: string
  listen_port :: u16
  api_listening_addr :: string
  conn_per_roomzin_node :: nat
  max_active_conns :: nat
  max_connections :: nat
  timeout_sec :: nat
  http_timeout_sec :: nat
  keep_alive_sec :: nat
  node_probe_interval_sec :: nat
  worker_threads :: nat
  frame_timeout_secs :: nat
  idle_timeout_secs :: nat
  max_buffer_size :: nat
  max_frame_size :: nat

definition default_config :: "string \<Rightarrow> string \<Rightarrow> string \<Rightarrow> string \<Rightarrow> string \<Rightarrow> Config" where
  "default_config zone shard bridge rzid rzpoint =
     \<lparr>zone_id = zone, shard_id = shard, bridge_id = bridge, rzid_addr = rzid, rzpoint_addr = rzpoint,
      roomzin_api_port = 8080, roomzin_tcp_port = 7777, rzid_heartbeat_interval_secs = 10,
      listen_host = ''0.0.0.0'', listen_port = 9000, api_listening_addr = ''0.0.0.0:9100'',
      conn_per_roomzin_node = 1, max_active_conns = 10000, max_connections = 10000,
      timeout_sec = 2, http_timeout_sec = 2, keep_alive_sec = 15, node_probe_interval_sec = 2,
      worker_threads = 0, frame_timeout_secs = 20, idle_timeout_secs = 90,
      max_buffer_size = 262144, max_frame_size = 16384\<rparr>"

definition listen_addr :: "Config \<Rightarrow> string" where
  "listen_addr cfg = listen_host cfg @ '':'' @ show_nat (unat (listen_port cfg))"

text \<open>The number of physical cores comes from the \<^verbatim>\<open>num_cpus\<close> crate, a parameter here.\<close>

definition effective_workers :: "nat \<Rightarrow> Config \<Rightarrow> nat" where
  "effective_workers physical cfg =
     (if worker_threads cfg = 0 then max physical 1 * 3 else worker_threads cfg)"

definition frame_timeout :: "Config \<Rightarrow> duration" where
  "frame_timeout cfg = from_secs (frame_timeout_secs cfg)"

definition idle_timeout :: "Config \<Rightarrow> duration" where
  "idle_timeout cfg = from_secs (idle_timeout_secs cfg)"

end
