(* ===== verification/Rz_Demux.thy ===== *)
theory Rz_Demux
  imports Rz_Prelude Rz_Executor Rz_Config
begin

text \<open>
  \<^verbatim>\<open>src/demux.rs\<close>: the table of requests in flight on one connection, from correlation ids to
  the sending half of the requester's oneshot channel and the time of sending. A oneshot channel
  is named by the number of the request that made it; sending on it and dropping its sender are
  outputs of the operations. The hash map is an association list with distinct keys.
  The locale \<open>pending_table\<close> is the interface the connection relies on; it is interpreted on
  the table's operations below.
\<close>

section \<open>The table\<close>

type_synonym tx = nat
type_synonym demux = "(u32 \<times> (tx \<times> instant)) list"

definition demux_new :: demux where
  "demux_new = []"

text \<open>\<^verbatim>\<open>store\<close>: an entry that is overwritten drops its sender.\<close>

definition demux_store :: "u32 \<Rightarrow> tx \<Rightarrow> instant \<Rightarrow> demux \<Rightarrow> demux" where
  "demux_store cid t sent_at m = AList.update cid (t, sent_at) m"

definition store_drops :: "u32 \<Rightarrow> demux \<Rightarrow> tx option" where
  "store_drops cid m = map_option fst (map_of m cid)"

definition load_remove :: "u32 \<Rightarrow> demux \<Rightarrow> (tx \<times> instant) option \<times> demux" where
  "load_remove cid m = (map_of m cid, AList.delete cid m)"

text \<open>\<^verbatim>\<open>cleanup\<close>: the entries sent before the threshold are collected, then removed one by one,
  and an empty response is sent on each one's channel.\<close>

definition timed_out_ids :: "instant \<Rightarrow> demux \<Rightarrow> u32 list" where
  "timed_out_ids threshold m = map fst (filter (\<lambda>(_, (_, sent_at)). sent_at < threshold) m)"

fun remove_timed_out :: "u32 list \<Rightarrow> demux \<Rightarrow> demux \<times> (tx \<times> bytes) list" where
  "remove_timed_out [] m = (m, [])"
| "remove_timed_out (cid # cids) m =
     (case load_remove cid m of
        (None, m') \<Rightarrow> remove_timed_out cids m'
      | (Some (t, _), m') \<Rightarrow>
          (let (m'', sends) = remove_timed_out cids m' in (m'', (t, []) # sends)))"

definition demux_cleanup :: "instant \<Rightarrow> duration \<Rightarrow> demux \<Rightarrow> demux \<times> (tx \<times> bytes) list" where
  "demux_cleanup now max_age m =
     (let threshold = now - int max_age in remove_timed_out (timed_out_ids threshold m) m)"

section \<open>The interface\<close>

locale pending_table =
  fixes lookup :: "'m \<Rightarrow> u32 \<Rightarrow> 'v option"
    and insert_entry :: "u32 \<Rightarrow> 'v \<Rightarrow> 'm \<Rightarrow> 'm"
    and take_entry :: "u32 \<Rightarrow> 'm \<Rightarrow> 'v option \<times> 'm"
  assumes lookup_insert: "lookup (insert_entry k v m) = (lookup m)(k \<mapsto> v)"
    and take_value: "fst (take_entry k m) = lookup m k"
    and take_rest: "lookup (snd (take_entry k m)) = (lookup m)(k := None)"
begin

text \<open>A stored entry is found again exactly once.\<close>

lemma take_after_insert: "fst (take_entry k (insert_entry k v m)) = Some v"
  by (simp add: take_value lookup_insert)

lemma take_twice: "fst (take_entry k (snd (take_entry k m))) = None"
  by (simp add: take_value take_rest)

lemma take_other: "k \<noteq> k' \<Longrightarrow> fst (take_entry k (snd (take_entry k' m))) = fst (take_entry k m)"
  by (simp add: take_value take_rest)

text \<open>Entries of different keys do not disturb each other, whatever happens in between.\<close>

lemma take_after_others:
  assumes "k \<notin> set ks" and "k \<notin> set (map fst kvs)"
  shows "lookup (fold (\<lambda>(k, v). insert_entry k v) kvs (fold (\<lambda>k m. snd (take_entry k m)) ks m)) k = lookup m k"
proof -
  have "lookup (fold (\<lambda>k m. snd (take_entry k m)) ks m) k = lookup m k" for m
    using assms(1) by (induction ks arbitrary: m) (simp_all add: take_rest)
  moreover have "lookup (fold (\<lambda>(k, v). insert_entry k v) kvs m) k = lookup m k" for m
    using assms(2) by (induction kvs arbitrary: m) (auto simp: lookup_insert)
  ultimately show ?thesis by simp
qed

end

section \<open>Lemmas\<close>

lemma map_of_delete: "map_of (AList.delete k m) = (map_of m)(k := None)"
  by (simp add: AList.delete_conv' fun_upd_def)

lemma map_of_demux_store: "map_of (demux_store cid t s m) = (map_of m)(cid \<mapsto> (t, s))"
  by (simp add: demux_store_def AList.update_conv')

interpretation demux: pending_table map_of "\<lambda>cid (t, s). demux_store cid t s" load_remove
  by unfold_locales
    (auto simp: map_of_demux_store load_remove_def map_of_delete split: prod.splits)

lemma remove_timed_out_map:
  "map_of (fst (remove_timed_out cids m)) cid = (if cid \<in> set cids then None else map_of m cid)"
proof (induction cids m rule: remove_timed_out.induct)
  case (2 k cids m)
  then show ?case
    by (cases "map_of m k") (auto simp: load_remove_def map_of_delete case_prod_beta Let_def)
qed simp

lemma remove_timed_out_sends:
  assumes "distinct cids"
  shows "(t, b) \<in> set (snd (remove_timed_out cids m)) \<longleftrightarrow>
     b = [] \<and> (\<exists>cid s. cid \<in> set cids \<and> map_of m cid = Some (t, s))"
  using assms
proof (induction cids m rule: remove_timed_out.induct)
  case (2 k cids m)
  let ?m = "AList.delete k m"
  have rest: "(\<exists>cid s. cid \<in> set cids \<and> map_of ?m cid = Some (t, s)) \<longleftrightarrow>
      (\<exists>cid s. cid \<in> set cids \<and> map_of m cid = Some (t, s))"
    using "2.prems" by (auto simp: map_of_delete)
  show ?case
  proof (cases "map_of m k")
    case None
    with 2 have "(t, b) \<in> set (snd (remove_timed_out (k # cids) m)) \<longleftrightarrow>
        b = [] \<and> (\<exists>cid s. cid \<in> set cids \<and> map_of ?m cid = Some (t, s))"
      by (simp add: load_remove_def)
    with None show ?thesis by (simp only: rest list.set) auto
  next
    case (Some ts)
    obtain t' s' where ts: "ts = (t', s')" by (cases ts)
    from 2 Some ts have "(t, b) \<in> set (snd (remove_timed_out (k # cids) m)) \<longleftrightarrow>
        (t, b) = (t', []) \<or> b = [] \<and> (\<exists>cid s. cid \<in> set cids \<and> map_of ?m cid = Some (t, s))"
      by (simp add: load_remove_def case_prod_beta Let_def)
    with Some ts show ?thesis by (simp only: rest list.set) auto
  qed
qed simp

lemma timed_out_ids_iff:
  assumes "distinct (map fst m)"
  shows "cid \<in> set (timed_out_ids th m) \<longleftrightarrow> (\<exists>t s. map_of m cid = Some (t, s) \<and> s < th)"
  using assms by (auto simp: timed_out_ids_def map_of_eq_Some_iff image_iff)

lemma distinct_timed_out_ids: "distinct (map fst m) \<Longrightarrow> distinct (timed_out_ids th m)"
  by (simp add: timed_out_ids_def distinct_map_filter)

lemma distinct_demux_store: "distinct (map fst m) \<Longrightarrow> distinct (map fst (demux_store cid t s m))"
  by (simp add: demux_store_def distinct_update)

lemma distinct_load_remove: "distinct (map fst m) \<Longrightarrow> distinct (map fst (snd (load_remove cid m)))"
  by (simp add: load_remove_def distinct_delete)

lemma cleanup_map:
  assumes "distinct (map fst m)"
  shows "map_of (fst (demux_cleanup now age m)) cid =
     (case map_of m cid of Some (t, s) \<Rightarrow> (if s < now - int age then None else Some (t, s)) | None \<Rightarrow> None)"
  using timed_out_ids_iff [OF assms, of cid "now - int age"]
  by (cases "map_of m cid") (auto simp: demux_cleanup_def remove_timed_out_map simp del: map_of_eq_Some_iff)

lemma cleanup_sends:
  assumes "distinct (map fst m)"
  shows "(t, b) \<in> set (snd (demux_cleanup now age m)) \<longleftrightarrow>
      b = [] \<and> (\<exists>cid s. map_of m cid = Some (t, s) \<and> s < now - int age)"
proof -
  have "(\<exists>cid s. cid \<in> set (timed_out_ids (now - int age) m) \<and> map_of m cid = Some (t, s)) \<longleftrightarrow>
      (\<exists>cid s. map_of m cid = Some (t, s) \<and> s < now - int age)"
    unfolding timed_out_ids_iff [OF assms] by (metis option.inject prod.inject)
  then show ?thesis
    unfolding demux_cleanup_def Let_def
    by (simp only: remove_timed_out_sends [OF distinct_timed_out_ids [OF assms]])
qed

lemma distinct_remove_timed_out:
  "distinct (map fst m) \<Longrightarrow> distinct (map fst (fst (remove_timed_out cids m)))"
proof (induction cids m rule: remove_timed_out.induct)
  case (2 cid cids m)
  then show ?case
    by (cases "map_of m cid") (auto simp: load_remove_def distinct_delete case_prod_beta Let_def)
qed simp

lemma distinct_cleanup: "distinct (map fst m) \<Longrightarrow> distinct (map fst (fst (demux_cleanup now age m)))"
  by (simp add: demux_cleanup_def distinct_remove_timed_out Let_def)

section \<open>Properties of the table\<close>

text \<open>\<^verbatim>\<open>cleanup\<close> removes exactly the entries older than the given age, keeps every other
  entry as it was, and sends an empty response to exactly the requesters it removed.\<close>

lemma cleanup_expires_exactly_old:
  assumes "distinct (map fst m)"
  shows "map_of (fst (demux_cleanup now age m)) cid =
       (case map_of m cid of Some (t, s) \<Rightarrow> (if s < now - int age then None else Some (t, s)) | None \<Rightarrow> None)
     \<and> set (snd (demux_cleanup now age m)) =
       {(t, []) | t. \<exists>cid s. map_of m cid = Some (t, s) \<and> s < now - int age}"
proof (intro conjI set_eqI)
  fix x
  show "x \<in> set (snd (demux_cleanup now age m)) \<longleftrightarrow>
      x \<in> {(t, []) | t. \<exists>cid s. map_of m cid = Some (t, s) \<and> s < now - int age}"
    by (cases x) (simp only: cleanup_sends [OF assms] mem_Collect_eq prod.inject, metis)
qed (rule cleanup_map [OF assms])

end
