(* ===== verification/Rz_Connection.thy ===== *)
theory Rz_Connection
  imports Rz_Protocol Rz_Demux
begin

text \<open>
  \<^verbatim>\<open>src/connection.rs\<close>: one multiplexed connection to a Roomzin node. \<open>conn\<close> is
  \<^verbatim>\<open>ConnectionInner\<close> with the state of its two tasks: \<open>rx_alive\<close> says that the write task still
  holds the receiving end of the send queue, \<open>reading\<close> that the read task has not ended.
  \<open>write_step\<close> and \<open>read_loop\<close> are the tasks. The step relation \<open>conn_step\<close> interleaves any
  number of requests with both tasks and the clean-up; \<open>chans\<close> is the state of the oneshot
  channels, \<open>assigned\<close> (ghost) the correlation id each request was given.
\<close>

section \<open>The connection and its operations\<close>

record conn =
  conn_addr :: string
  entries :: demux
  send_queue :: "bytes list"
  queue_cap :: nat
  rx_alive :: bool
  corr_id :: u32
  closed :: bool
  reading :: bool

text \<open>The outcome of \<^verbatim>\<open>TcpStream::connect\<close> is a parameter.\<close>

definition connect :: "string \<Rightarrow> Config \<Rightarrow> demux \<Rightarrow> string + unit \<Rightarrow> conn rz_result" where
  "connect host cfg d tcp =
     (case tcp of
        Inl e \<Rightarrow> Inl (Io e)
      | Inr _ \<Rightarrow> Inr \<lparr>conn_addr = host, entries = d, send_queue = [],
          queue_cap = max (max_active_conns cfg) 2048, rx_alive = True, corr_id = 1,
          closed = False, reading = True\<rparr>)"

definition next_corr_id :: "conn \<Rightarrow> u32 \<times> conn" where
  "next_corr_id c = (corr_id c, c\<lparr>corr_id := corr_id c + 1\<rparr>)"

text \<open>\<^verbatim>\<open>send_raw\<close> waits while the queue is full and fails once the receiver is gone.\<close>

definition send_raw :: "bytes \<Rightarrow> conn \<Rightarrow> bool polled \<times> conn" where
  "send_raw frame c =
     (if \<not> rx_alive c then (Ready False, c)
      else if length (send_queue c) < queue_cap c
        then (Ready True, c\<lparr>send_queue := send_queue c @ [frame]\<rparr>)
      else (Pending, c))"

definition conn_send :: "u32 \<Rightarrow> bytes \<Rightarrow> conn \<Rightarrow> bool polled \<times> conn" where
  "conn_send cid payload c = send_raw (prepend_header cid payload) c"

definition is_closed :: "conn \<Rightarrow> bool" where
  "is_closed c = closed c"

definition conn_close :: "conn \<Rightarrow> conn" where
  "conn_close c = c\<lparr>closed := True\<rparr>"

text \<open>One turn of the write loop; \<open>ok\<close> is the outcome of writing and flushing.\<close>

definition write_step :: "bool \<Rightarrow> conn \<Rightarrow> conn \<times> bytes option" where
  "write_step ok c =
     (if \<not> rx_alive c then (c, None)
      else case send_queue c of
          [] \<Rightarrow> (c, None)
        | f # q \<Rightarrow>
            (if ok then (c\<lparr>send_queue := q\<rparr>, Some f)
             else (c\<lparr>send_queue := [], rx_alive := False, closed := True\<rparr>, None)))"

text \<open>
  The special error handling of the read loop. Note that \<^verbatim>\<open>payload\<close> is what
  \<^verbatim>\<open>drain_frame_async\<close> returned, the whole frame with its header.
\<close>

definition should_close :: "Header \<Rightarrow> bytes \<Rightarrow> bool option" where
  "should_close hdr payload =
     (let sl = unat (status_len hdr); field_data_start = 1 + sl + 2
      in if length payload \<ge> field_data_start then do {
           st \<leftarrow> slice payload 1 (1 + sl);
           if st = string_to_bytes ''ERROR'' then do {
             cb \<leftarrow> slice payload field_data_start (field_data_start + 3);
             Some (case from_utf8 cb of
                 None \<Rightarrow> False
               | Some code \<Rightarrow> code \<in> {''308'', ''405'', ''503''})
           } else Some False
         } else Some False)"

text \<open>One turn of the read loop after a frame arrived: the reply goes to the requester the
  correlation id is registered for; an unknown id ends the loop.\<close>

definition read_frame :: "Header \<Rightarrow> bytes \<Rightarrow> conn \<Rightarrow> (conn \<times> (tx \<times> bytes) option) option" where
  "read_frame hdr payload c =
     (case load_remove (clr_id hdr) (entries c) of
        (None, m) \<Rightarrow> Some (c\<lparr>entries := m, closed := True, reading := False\<rparr>, None)
      | (Some (t, _), m) \<Rightarrow> do {
          sc \<leftarrow> should_close hdr payload;
          Some (if sc then c\<lparr>entries := m, closed := True, reading := False\<rparr>
                else c\<lparr>entries := m\<rparr>, Some (t, payload))
        })"

definition read_ended :: "conn \<Rightarrow> conn" where
  "read_ended c = c\<lparr>closed := True, reading := False\<rparr>"

fun event_length :: "read_event \<Rightarrow> nat" where
  "event_length (Bytes_Read bs) = length bs"
| "event_length Read_Failed = 0"

definition unread :: "read_event list \<Rightarrow> bytes \<Rightarrow> nat" where
  "unread rs b = length b + sum_list (map event_length rs)"

lemma fill_to_unread: "fill_to k rs b = (p, rs', b') \<Longrightarrow> unread rs' b' \<le> unread rs b"
  by (induction k rs b rule: fill_to.induct)
    (fastforce simp: unread_def split: if_splits read_event.splits)+

lemma drain_frame_unread:
  assumes "drain_frame_async rs b = Some (Ready (Inr x), rs', b')"
  shows "unread rs' b' < unread rs b"
proof -
  obtain p r1 b1 where f1: "fill_to 9 rs b = (p, r1, b1)" by (cases "fill_to 9 rs b")
  with assms have p: "\<exists>u. p = Ready (Inr u)"
    by (auto simp: drain_frame_async_def split: polled.splits sum.splits)
  from assms f1 p obtain n p2 r2 b2 where f2: "fill_to (9 + n) r1 b1 = (p2, r2, b2)"
    and p2: "\<exists>u. p2 = Ready (Inr u)" and e: "rs' = r2" "b' = drop (9 + n) b2"
    by (auto simp: drain_frame_async_def Let_def
        split: polled.splits sum.splits prod.splits bind_splits if_splits)
  from f2 p2 have "9 + n \<le> length b2" by (auto dest: fill_to_done)
  moreover have "unread r2 b2 \<le> unread rs b"
    using fill_to_unread [OF f1] fill_to_unread [OF f2] by simp
  ultimately show ?thesis by (simp add: e unread_def)
qed

text \<open>The read loop on the results of the socket's reads. Every frame consumes input, so it
  ends; at the end of the reads known so far it waits in \<^verbatim>\<open>drain_frame_async\<close>.\<close>

function read_loop :: "read_event list \<Rightarrow> bytes \<Rightarrow> conn \<Rightarrow>
    (conn \<times> (tx \<times> bytes) list \<times> read_event list \<times> bytes) option" where
  "read_loop rs b c =
     (case drain_frame_async rs b of
        None \<Rightarrow> None
      | Some (Pending, rs', b') \<Rightarrow> Some (c, [], rs', b')
      | Some (Ready (Inl e), rs', b') \<Rightarrow> Some (read_ended c, [], rs', b')
      | Some (Ready (Inr (hdr, payload)), rs', b') \<Rightarrow>
          (case read_frame hdr payload c of
             None \<Rightarrow> None
           | Some (c1, out) \<Rightarrow>
               (if \<not> reading c1 then Some (c1, (case out of None \<Rightarrow> [] | Some o1 \<Rightarrow> [o1]), rs', b')
                else case read_loop rs' b' c1 of
                    None \<Rightarrow> None
                  | Some (c2, outs, rs2, b2) \<Rightarrow>
                      Some (c2, (case out of None \<Rightarrow> [] | Some o1 \<Rightarrow> [o1]) @ outs, rs2, b2))))"
  by pat_completeness auto
termination
  by (relation "measure (\<lambda>(rs, b, c). unread rs b)") (auto dest: drain_frame_unread)

declare read_loop.simps [simp del]

section \<open>Requests, tasks and clean-up interleaved\<close>

datatype chan = Unused | Waiting_Resp | Got bytes | Dropped

record conn_sys =
  the_conn :: conn
  chans :: "tx \<Rightarrow> chan"
  assigned :: "tx \<Rightarrow> u32 option"

definition deliver :: "tx \<times> bytes \<Rightarrow> (tx \<Rightarrow> chan) \<Rightarrow> (tx \<Rightarrow> chan)" where
  "deliver = (\<lambda>(t, b) ch. if ch t = Waiting_Resp then ch(t := Got b) else ch)"

definition drop_tx :: "tx option \<Rightarrow> (tx \<Rightarrow> chan) \<Rightarrow> (tx \<Rightarrow> chan)" where
  "drop_tx o1 ch = (case o1 of
     None \<Rightarrow> ch | Some t \<Rightarrow> if ch t = Waiting_Resp then ch(t := Dropped) else ch)"

definition conn_sys_new :: "conn \<Rightarrow> conn_sys" where
  "conn_sys_new c = \<lparr>the_conn = c, chans = (\<lambda>_. Unused), assigned = (\<lambda>_. None)\<rparr>"

inductive conn_step :: "conn_sys \<Rightarrow> conn_sys \<Rightarrow> bool" where
  take_id: "assigned s r = None \<Longrightarrow> next_corr_id (the_conn s) = (cid, c) \<Longrightarrow>
    conn_step s (s\<lparr>the_conn := c, assigned := (assigned s)(r \<mapsto> cid)\<rparr>)"
| register: "assigned s r = Some cid \<Longrightarrow> chans s r = Unused \<Longrightarrow>
    conn_step s (s\<lparr>the_conn := (the_conn s)\<lparr>entries := demux_store cid r now (entries (the_conn s))\<rparr>,
      chans := (drop_tx (store_drops cid (entries (the_conn s))) (chans s))(r := Waiting_Resp)\<rparr>)"
| enqueue: "send_raw f (the_conn s) = (p, c) \<Longrightarrow> conn_step s (s\<lparr>the_conn := c\<rparr>)"
| write_turn: "write_step ok (the_conn s) = (c, out) \<Longrightarrow> conn_step s (s\<lparr>the_conn := c\<rparr>)"
| frame_turn: "reading (the_conn s) \<Longrightarrow> drain_frame_async rs b = Some (Ready (Inr (hdr, payload)), rs', b') \<Longrightarrow>
    read_frame hdr payload (the_conn s) = Some (c, out) \<Longrightarrow>
    conn_step s (s\<lparr>the_conn := c, chans := (case out of None \<Rightarrow> chans s | Some o1 \<Rightarrow> deliver o1 (chans s))\<rparr>)"
| read_end: "reading (the_conn s) \<Longrightarrow> conn_step s (s\<lparr>the_conn := read_ended (the_conn s)\<rparr>)"
| cleanup_op: "demux_cleanup now age (entries (the_conn s)) = (m, sends) \<Longrightarrow>
    conn_step s (s\<lparr>the_conn := (the_conn s)\<lparr>entries := m\<rparr>, chans := fold deliver sends (chans s)\<rparr>)"
| close_op: "conn_step s (s\<lparr>the_conn := conn_close (the_conn s)\<rparr>)"

inductive conn_reachable :: "conn \<Rightarrow> conn_sys \<Rightarrow> bool" for c where
  conn_start: "conn_reachable c (conn_sys_new c)"
| conn_more: "conn_reachable c s \<Longrightarrow> conn_step s t \<Longrightarrow> conn_reachable c t"

text \<open>The invariant: the table holds exactly the requests that wait, each under the
  correlation id it was given; a response a request got carries its id, or is the empty one of
  the clean-up.\<close>

definition conn_sys_inv :: "conn_sys \<Rightarrow> bool" where
  "conn_sys_inv s \<longleftrightarrow> distinct (map fst (entries (the_conn s)))
     \<and> (\<forall>r. chans s r = Waiting_Resp \<longleftrightarrow>
          (\<exists>cid t. assigned s r = Some cid \<and> map_of (entries (the_conn s)) cid = Some (r, t)))
     \<and> (\<forall>cid r t. map_of (entries (the_conn s)) cid = Some (r, t) \<longrightarrow> assigned s r = Some cid)
     \<and> (\<forall>r b. chans s r = Got b \<longrightarrow>
          (\<exists>cid. assigned s r = Some cid \<and> (b = [] \<or> clrid_field b = u32_to_le cid)))"

text \<open>The correlation id whose little-endian bytes spell \<open>ERRO\<close>.\<close>

definition erro_id :: u32 where
  "erro_id = 0x4F525245"

text \<open>Correlation ids: the first $2^{32}$ requests of a connection get different ones.\<close>

fun take_ids :: "nat \<Rightarrow> conn \<Rightarrow> u32 list \<times> conn" where
  "take_ids 0 c = ([], c)"
| "take_ids (Suc n) c =
     (let (cid, c1) = next_corr_id c; (cids, c2) = take_ids n c1 in (cid # cids, c2))"

text \<open>A fresh connection, a reply a node may send on it, and the three steps of one request.\<close>

definition sample_conn :: conn where
  "sample_conn = \<lparr>conn_addr = ''n1'', entries = [], send_queue = [], queue_cap = 2048,
     rx_alive = True, corr_id = 1, closed = False, reading = True\<rparr>"

definition sample_reply :: bytes where
  "sample_reply = [2, 79, 75, 0, 0]"

definition sample_waiting :: conn_sys where
  "sample_waiting = \<lparr>the_conn = sample_conn\<lparr>corr_id := 2, entries := [(1, (7, 100))]\<rparr>,
     chans = (\<lambda>_. Unused)(7 := Waiting_Resp), assigned = [7 \<mapsto> 1]\<rparr>"

definition sample_error :: bytes where
  "sample_error = [5] @ string_to_bytes ''ERROR'' @ [1, 0] @ string_to_bytes ''503''"

section \<open>Lemmas\<close>

lemma fill_to_extends: "fill_to k rs b = (p, rs', b') \<Longrightarrow> \<exists>x. b' = b @ x"
  by (induction k rs b rule: fill_to.induct) (fastforce split: if_splits read_event.splits)+

lemma drain_parse_InrE:
  assumes "drain_parse cid f = Some (Inr (h, g))" and "9 \<le> length f" and "length f < 9 + 4294967296"
  shows "g = f \<and> payload_wf (drop 9 f) \<and> h = frame_header cid (drop 9 f)"
proof -
  define pl where "pl = drop 9 f"
  have s: "slice f 9 (length f) = Some pl" using assms(2) by (simp add: pl_def)
  have l: "length pl < 4294967296" using assms by (simp add: pl_def)
  from assms(1) have "pl \<noteq> []" by (auto simp: drain_parse_def s)
  then have i: "idx pl 0 = Some (pl ! 0)" by simp
  define sl where "sl = unat (pl ! 0)"
  from assms(1) \<open>pl \<noteq> []\<close> have n: "\<not> length pl < 1 + sl + 2"
    by (auto simp: drain_parse_def s i Let_def sl_def)
  then have "slice pl (1 + sl) (1 + sl + 2) = Some (take 2 (drop (1 + sl) pl))"
    "length (take 2 (drop (1 + sl) pl)) = 2" by simp_all
  with assms(1) \<open>pl \<noteq> []\<close> n have "g = f" "h = frame_header cid pl"
    unfolding drain_parse_def s
    by (simp_all add: i Let_def sl_def [symmetric] u16_from_le_def frame_header_def)
  with n l \<open>pl \<noteq> []\<close> show ?thesis by (simp add: payload_wf_def pl_def [symmetric] sl_def)
qed

lemma header_prefix:
  assumes "9 \<le> length f" and "f ! 0 = 0xFF"
    and "u32_from_le (take 4 (drop 1 f)) = Some cid" and "u32_from_le (take 4 (drop 5 f)) = Some w"
    and "length f = 9 + unat w"
  shows "f = prepend_header cid (drop 9 f)"
proof -
  have "f = f ! 0 # drop 1 f" using assms(1) by (cases f) auto
  also have "drop 1 f = take 4 (drop 1 f) @ drop 5 f"
    using take_drop_append_drop [of 1 f 4] by simp
  also have "drop 5 f = take 4 (drop 5 f) @ drop 9 f"
    using take_drop_append_drop [of 5 f 4] by simp
  finally have "f = 0xFF # u32_to_le cid @ u32_to_le w @ drop 9 f"
    using assms(2) u32_to_from_le [OF assms(3)] u32_to_from_le [OF assms(4)] by simp
  moreover have "w = word_of_nat (length (drop 9 f))" using assms(5) by simp
  ultimately show ?thesis by (simp add: prepend_header_def)
qed

lemma drain_frame_shape:
  assumes "drain_frame_async rs b = Some (Ready (Inr (h, f)), rs', b')"
  shows "payload_wf (drop 9 f) \<and> f = prepend_header (clr_id h) (drop 9 f)
    \<and> h = frame_header (clr_id h) (drop 9 f)"
proof -
  obtain p r1 b1 where f1: "fill_to 9 rs b = (p, r1, b1)" by (cases "fill_to 9 rs b")
  with assms obtain u where p: "p = Ready (Inr u)"
    by (auto simp: drain_frame_async_def split: polled.splits sum.splits)
  have l1: "9 \<le> length b1" using fill_to_done f1 p by blast
  then have s9: "slice b1 0 9 = Some (take 9 b1)" by simp
  from assms f1 p s9 obtain cid w p2 r2 b2 where
    m: "idx (take 9 b1) 0 = Some 0xFF"
    and cb: "slice (take 9 b1) 1 5 \<bind> u32_from_le = Some cid" and lb: "slice (take 9 b1) 5 9 \<bind> u32_from_le = Some w"
    and f2: "fill_to (9 + unat w) r1 b1 = (p2, r2, b2)" and p2: "\<exists>u. p2 = Ready (Inr u)"
    and dp: "slice b2 0 (9 + unat w) \<bind> drain_parse cid = Some (Inr (h, f))"
    by (auto simp: drain_frame_async_def Let_def
        split: polled.splits sum.splits prod.splits bind_splits if_splits)
  have l2: "9 + unat w \<le> length b2" using fill_to_done f2 p2 by blast
  define g where "g = take (9 + unat w) b2"
  obtain x where x: "b2 = b1 @ x" using fill_to_extends [OF f2] by blast
  have g9: "take 9 g = take 9 b1" using l1 by (simp add: g_def x)
  have lg: "length g = 9 + unat w" using l2 by (simp add: g_def)
  have "take 4 (drop 1 g) = take 4 (drop 1 (take 9 g))" "take 4 (drop 5 g) = take 4 (drop 5 (take 9 g))"
    by (simp_all add: drop_take)
  then have c: "u32_from_le (take 4 (drop 1 g)) = Some cid" "u32_from_le (take 4 (drop 5 g)) = Some w"
    using cb lb l1 by (simp_all add: g9)
  have "g ! 0 = take 9 g ! 0" by simp
  then have z: "g ! 0 = 0xFF" using m l1 by (simp add: g9 idx_def split: if_splits)
  have d: "drain_parse cid g = Some (Inr (h, f))" using dp l2 by (simp add: g_def)
  have "f = g \<and> payload_wf (drop 9 g) \<and> h = frame_header cid (drop 9 g)"
    using drain_parse_InrE [OF d] lg unat_u32_less [of w] by simp
  moreover have "clr_id h = cid" using drain_parse_InrD(2) [OF d] .
  moreover have "g = prepend_header cid (drop 9 g)"
    by (rule header_prefix [OF _ z c lg]) (simp add: lg)
  ultimately show ?thesis by simp
qed


lemma should_close_frame:
  assumes wf: "payload_wf pl"
  shows "\<exists>x. should_close (frame_header cid pl) (prepend_header cid pl) = Some x"
    and "cid \<noteq> erro_id \<Longrightarrow> should_close (frame_header cid pl) (prepend_header cid pl) = Some False"
proof -
  define f where "f = prepend_header cid pl"
  define sl where "sl = unat (pl ! 0)"
  have len: "12 + sl \<le> length f" using wf by (simp add: f_def payload_wf_def sl_def)
  have hs: "unat (status_len (frame_header cid pl)) = sl" by (simp add: frame_header_def sl_def)
  have s1: "slice f 1 (1 + sl) = Some (take sl (drop 1 f))" using len by simp
  have s2: "slice f (1 + sl + 2) (1 + sl + 2 + 3) = Some (take 3 (drop (1 + sl + 2) f))" using len by simp
  show "\<exists>x. should_close (frame_header cid pl) (prepend_header cid pl) = Some x"
    using len s1 s2 by (auto simp: should_close_def f_def [symmetric] hs Let_def)
  assume cid: "cid \<noteq> erro_id"
  have "take sl (drop 1 f) \<noteq> string_to_bytes ''ERROR''"
  proof
    assume e: "take sl (drop 1 f) = string_to_bytes ''ERROR''"
    then have "length (take sl (drop 1 f)) = 5" by simp
    then have "sl = 5" using len by simp
    with e have "take 4 (take 5 (drop 1 f)) = take 4 (string_to_bytes ''ERROR'')" by simp
    then have "u32_to_le cid = u32_to_le erro_id"
      by (simp add: f_def prepend_header_def string_to_bytes_def erro_id_def u32_to_le_eval [of "0x4F525245"])
    with cid show False by simp
  qed
  then show "should_close (frame_header cid pl) (prepend_header cid pl) = Some False"
    using len s1 by (simp add: should_close_def f_def [symmetric] hs Let_def)
qed


lemma read_frame_total:
  assumes "payload_wf pl"
  shows "\<exists>r. read_frame (frame_header cid pl) (prepend_header cid pl) c = Some r"
proof -
  obtain x where "should_close (frame_header cid pl) (prepend_header cid pl) = Some x"
    using should_close_frame(1) [OF assms] by blast
  then show ?thesis by (auto simp: read_frame_def split: prod.splits option.splits)
qed

lemma read_loop_not_None: "\<exists>r. read_loop rs b c = Some r"
proof (induction rs b c rule: read_loop.induct)
  case (1 rs b c)
  obtain p rs' b' where d: "drain_frame_async rs b = Some (p, rs', b')"
    using drain_frame_not_None [of rs b] by (cases "drain_frame_async rs b") auto
  show ?case
  proof (cases "\<exists>h f. p = Ready (Inr (h, f))")
    case True
    then obtain h f where hf: "p = Ready (Inr (h, f))" by blast
    obtain c1 out where r: "read_frame h f c = Some (c1, out)"
      using read_frame_total [of "drop 9 f" "clr_id h" c] drain_frame_shape [OF d [unfolded hf]] by auto
    show ?thesis
    proof (cases "reading c1")
      case True
      then obtain x where "read_loop rs' b' c1 = Some x"
        using "1.IH" [OF d refl hf refl refl refl r refl] by auto
      with d hf r True show ?thesis by (cases x) (simp add: read_loop.simps [of rs b c])
    next
      case False
      with d hf r show ?thesis by (simp add: read_loop.simps [of rs b c])
    qed
  next
    case False
    with d show ?thesis
      by (auto simp: read_loop.simps [of rs b c] split: polled.splits sum.splits)
  qed
qed

lemma read_loop_delivers:
  assumes "\<forall>(cid, pl) \<in> set fs. payload_wf pl \<and> cid \<noteq> erro_id \<and> (\<exists>t s. map_of (entries c) cid = Some (t, s))"
    and "distinct (map fst fs)" and "\<forall>ch \<in> set cs. ch \<noteq> []" and "reading c"
    and "b @ concat cs = concat (map (\<lambda>(cid, pl). prepend_header cid pl) fs)"
  shows "read_loop (map Bytes_Read cs) b c =
    Some (c\<lparr>entries := fold (\<lambda>(cid, pl) m. snd (load_remove cid m)) fs (entries c)\<rparr>,
      map (\<lambda>(cid, pl). (fst (the (map_of (entries c) cid)), prepend_header cid pl)) fs, [], [])"
  using assms
proof (induction fs arbitrary: b cs c)
  case Nil
  then have "b = []" "\<forall>ch \<in> set cs. ch = []" by auto
  with Nil.prems(3) have "b = []" "cs = []" by (cases cs; simp)+
  then show ?case by (simp add: read_loop.simps drain_frame_async_def)
next
  case (Cons x fs)
  obtain cid pl where x: "x = (cid, pl)" by (cases x)
  from Cons.prems(1) x obtain t s where wf: "payload_wf pl" "cid \<noteq> erro_id" and m: "map_of (entries c) cid = Some (t, s)"
    by auto
  let ?tail = "concat (map (\<lambda>(cid, pl). prepend_header cid pl) fs)"
  obtain i b' where d: "drain_frame_async (map Bytes_Read cs) b =
      Some (Ready (Inr (frame_header cid pl, prepend_header cid pl)), map Bytes_Read (drop i cs), b')"
    and rest: "b' @ concat (drop i cs) = ?tail"
    using drain_frame_chunks [OF wf(1) Cons.prems(3), of b cid ?tail] Cons.prems(5) x by auto
  define c1 where "c1 = c\<lparr>entries := snd (load_remove cid (entries c))\<rparr>"
  have r: "read_frame (frame_header cid pl) (prepend_header cid pl) c = Some (c1, Some (t, prepend_header cid pl))"
    using should_close_frame(2) [OF wf] m by (simp add: read_frame_def load_remove_def c1_def frame_header_def)
  have same: "map_of (entries c1) k = map_of (entries c) k" if "k \<in> set (map fst fs)" for k
    using that Cons.prems(2) x by (auto simp: c1_def load_remove_def map_of_delete)
  have "read_loop (map Bytes_Read (drop i cs)) b' c1 =
     Some (c1\<lparr>entries := fold (\<lambda>(cid, pl) m. snd (load_remove cid m)) fs (entries c1)\<rparr>,
      map (\<lambda>(cid, pl). (fst (the (map_of (entries c1) cid)), prepend_header cid pl)) fs, [], [])"
  proof (rule Cons.IH)
    show "\<forall>(cid, pl) \<in> set fs. payload_wf pl \<and> cid \<noteq> erro_id \<and> (\<exists>t s. map_of (entries c1) cid = Some (t, s))"
      using Cons.prems(1) same by (fastforce simp: split_beta)
  qed (use Cons.prems rest in \<open>auto simp: c1_def dest: in_set_dropD\<close>)
  moreover have "map (\<lambda>(cid, pl). (fst (the (map_of (entries c1) cid)), prepend_header cid pl)) fs =
      map (\<lambda>(cid, pl). (fst (the (map_of (entries c) cid)), prepend_header cid pl)) fs"
    using same by (auto simp: image_iff) force
  ultimately show ?case
    using d r m Cons.prems(4) by (simp add: read_loop.simps [of "map Bytes_Read cs"] x c1_def)
qed


lemma fold_deliver:
  assumes "\<forall>(t, b) \<in> set sends. b = []"
  shows "fold deliver sends ch r =
    (if ch r = Waiting_Resp \<and> (r, []) \<in> set sends then Got [] else ch r)"
  using assms by (induction sends arbitrary: ch) (auto simp: deliver_def split: if_splits)

lemma conn_sys_invI:
  assumes "distinct (map fst (entries (the_conn s)))"
    and "\<And>r. chans s r = Waiting_Resp \<longleftrightarrow>
          (\<exists>cid t. assigned s r = Some cid \<and> map_of (entries (the_conn s)) cid = Some (r, t))"
    and "\<And>cid r t. map_of (entries (the_conn s)) cid = Some (r, t) \<Longrightarrow> assigned s r = Some cid"
    and "\<And>r b. chans s r = Got b \<Longrightarrow>
          (\<exists>cid. assigned s r = Some cid \<and> (b = [] \<or> clrid_field b = u32_to_le cid))"
  shows "conn_sys_inv s"
  using assms unfolding conn_sys_inv_def by blast

lemma conn_sys_invD:
  assumes "conn_sys_inv s"
  shows "distinct (map fst (entries (the_conn s)))"
    and "chans s r = Waiting_Resp \<longleftrightarrow>
          (\<exists>cid t. assigned s r = Some cid \<and> map_of (entries (the_conn s)) cid = Some (r, t))"
    and "map_of (entries (the_conn s)) cid = Some (r, t) \<Longrightarrow> assigned s r = Some cid"
    and "chans s r = Got b \<Longrightarrow>
          (\<exists>cid. assigned s r = Some cid \<and> (b = [] \<or> clrid_field b = u32_to_le cid))"
  using assms unfolding conn_sys_inv_def by blast+

lemma inv_same_table:
  assumes "conn_sys_inv s" and "entries c = entries (the_conn s)"
  shows "conn_sys_inv (s\<lparr>the_conn := c\<rparr>)"
  using assms by (simp add: conn_sys_inv_def)

lemma inv_take_id:
  assumes inv: "conn_sys_inv s" and "assigned s r = None" and "entries c = entries (the_conn s)"
  shows "conn_sys_inv (s\<lparr>the_conn := c, assigned := (assigned s)(r \<mapsto> cid)\<rparr>)"
  using assms unfolding conn_sys_inv_def
  by (auto simp del: map_of_eq_Some_iff) (metis option.distinct(1))+

lemma inv_register:
  assumes inv: "conn_sys_inv s" and a: "assigned s r = Some cid" and u: "chans s r = Unused"
  shows "conn_sys_inv (s\<lparr>the_conn := (the_conn s)\<lparr>entries := demux_store cid r now (entries (the_conn s))\<rparr>,
      chans := (drop_tx (store_drops cid (entries (the_conn s))) (chans s))(r := Waiting_Resp)\<rparr>)"
    (is "conn_sys_inv ?s")
proof (rule conn_sys_invI)
  let ?m = "entries (the_conn s)"
  note d = conn_sys_invD [OF inv]
  have m: "map_of (entries (the_conn ?s)) = (map_of ?m)(cid \<mapsto> (r, now))"
    by (simp add: map_of_demux_store)
  have not_r: "fst x \<noteq> r" if "map_of ?m k = Some x" for k x
    using that d(2) [of r] d(3) [of k r] u by (cases x) auto
  show "distinct (map fst (entries (the_conn ?s)))"
    using d(1) by (simp add: distinct_demux_store)
  show "assigned ?s r' = Some cid'" if "map_of (entries (the_conn ?s)) cid' = Some (r', t)" for cid' r' t
    using that a d(3) unfolding m by (auto split: if_splits)
  have ch: "chans ?s q = (if q = r then Waiting_Resp
      else if (\<exists>t. map_of ?m cid = Some (q, t)) \<and> chans s q = Waiting_Resp then Dropped else chans s q)" for q
    using not_r by (auto simp: drop_tx_def store_drops_def split: option.splits simp del: map_of_eq_Some_iff)
  show "chans ?s q = Waiting_Resp \<longleftrightarrow>
      (\<exists>cid t. assigned ?s q = Some cid \<and> map_of (entries (the_conn ?s)) cid = Some (q, t))" for q
  proof (cases "q = r")
    case True
    with a show ?thesis unfolding m by (auto simp: ch)
  next
    case False
    have "(\<exists>k t. assigned s q = Some k \<and> ((map_of ?m)(cid \<mapsto> (r, now))) k = Some (q, t)) \<longleftrightarrow>
        (\<exists>k t. assigned s q = Some k \<and> k \<noteq> cid \<and> map_of ?m k = Some (q, t))"
      using False by auto
    moreover have "\<dots> \<longleftrightarrow> chans s q = Waiting_Resp \<and> \<not> (\<exists>t. map_of ?m cid = Some (q, t))"
      using d(2) [of q] d(3) by (metis option.inject)
    ultimately show ?thesis unfolding m ch using False by auto
  qed
  show "\<exists>cid. assigned ?s q = Some cid \<and> (b = [] \<or> clrid_field b = u32_to_le cid)"
    if "chans ?s q = Got b" for q b
  proof -
    have "chans s q = Got b" using that unfolding ch by (auto split: if_splits)
    then show ?thesis using d(4) [of q b] by simp
  qed
qed


lemma inv_frame:
  assumes inv: "conn_sys_inv s" and sh: "clrid_field payload = u32_to_le (clr_id hdr)"
    and rf: "read_frame hdr payload (the_conn s) = Some (c, out)"
  shows "conn_sys_inv (s\<lparr>the_conn := c, chans := (case out of None \<Rightarrow> chans s | Some o1 \<Rightarrow> deliver o1 (chans s))\<rparr>)"
    (is "conn_sys_inv ?s")
proof (rule conn_sys_invI)
  let ?m = "entries (the_conn s)" and ?k = "clr_id hdr"
  note d = conn_sys_invD [OF inv]
  have e: "entries c = snd (load_remove ?k ?m)"
    and o: "out = map_option (\<lambda>(t, _). (t, payload)) (map_of ?m ?k)"
    using rf by (auto simp: read_frame_def load_remove_def split: option.splits bind_splits prod.splits)
  have m: "map_of (entries (the_conn ?s)) = (map_of ?m)(?k := None)"
    by (simp add: e load_remove_def map_of_delete)
  show "distinct (map fst (entries (the_conn ?s)))"
    using d(1) by (simp add: e distinct_load_remove)
  have ch: "chans ?s q = (if \<exists>t. map_of ?m ?k = Some (q, t) then Got payload else chans s q)" for q
  proof (cases "map_of ?m ?k")
    case None
    then show ?thesis by (simp add: o)
  next
    case (Some x)
    then obtain t s0 where x: "map_of ?m ?k = Some (t, s0)" by (cases x) auto
    then have "chans s t = Waiting_Resp" using d(2) [of t] d(3) [of ?k t s0] by auto
    with x show ?thesis by (auto simp: o deliver_def)
  qed
  have holder: "assigned s q = Some ?k" if "map_of ?m ?k = Some (q, t)" for q t using d(3) that by blast
  show "chans ?s q = Waiting_Resp \<longleftrightarrow>
      (\<exists>cid t. assigned ?s q = Some cid \<and> map_of (entries (the_conn ?s)) cid = Some (q, t))" for q
  proof -
    have "(\<exists>cid t. assigned s q = Some cid \<and> ((map_of ?m)(?k := None)) cid = Some (q, t)) \<longleftrightarrow>
        chans s q = Waiting_Resp \<and> \<not> (\<exists>t. map_of ?m ?k = Some (q, t))"
      using d(2) [of q] holder [of q] by (auto simp del: map_of_eq_Some_iff) metis
    then show ?thesis unfolding m ch by auto
  qed
  show "assigned ?s q = Some cid" if "map_of (entries (the_conn ?s)) cid = Some (q, t)" for cid q t
    using that d(3) unfolding m by (auto split: if_splits)
  show "\<exists>cid. assigned ?s q = Some cid \<and> (b = [] \<or> clrid_field b = u32_to_le cid)"
    if "chans ?s q = Got b" for q b
    using that holder [of q] sh d(4) [of q b] unfolding ch by (auto split: if_splits)
qed

lemma inv_cleanup:
  assumes inv: "conn_sys_inv s" and cl: "demux_cleanup now age (entries (the_conn s)) = (m, sends)"
  shows "conn_sys_inv (s\<lparr>the_conn := (the_conn s)\<lparr>entries := m\<rparr>, chans := fold deliver sends (chans s)\<rparr>)"
    (is "conn_sys_inv ?s")
proof (rule conn_sys_invI)
  let ?m = "entries (the_conn s)"
  note d = conn_sys_invD [OF inv]
  have mm: "map_of m k = (case map_of ?m k of Some (t, s) \<Rightarrow> (if s < now - int age then None else Some (t, s)) | None \<Rightarrow> None)" for k
    using cleanup_map [OF d(1), of now age k] cl by simp
  have sd: "(t, b) \<in> set sends \<longleftrightarrow> b = [] \<and> (\<exists>k s. map_of ?m k = Some (t, s) \<and> s < now - int age)" for t b
    using cleanup_sends [OF d(1), of t b now age] cl by simp
  show "distinct (map fst (entries (the_conn ?s)))"
    using distinct_cleanup [OF d(1), of now age] cl by simp
  have ch: "chans ?s q = (if chans s q = Waiting_Resp \<and> (\<exists>k t. map_of ?m k = Some (q, t) \<and> t < now - int age)
      then Got [] else chans s q)" for q
  proof -
    have "\<forall>(t, b) \<in> set sends. b = []" by (auto simp: sd)
    from fold_deliver [OF this] show ?thesis by (simp add: sd)
  qed
  show "assigned ?s q = Some k" if "map_of (entries (the_conn ?s)) k = Some (q, t)" for k q t
    using that d(3) [of k q t] mm [of k] by (auto split: option.splits if_splits simp del: map_of_eq_Some_iff)
  show "chans ?s q = Waiting_Resp \<longleftrightarrow>
      (\<exists>k t. assigned ?s q = Some k \<and> map_of (entries (the_conn ?s)) k = Some (q, t))" for q
  proof -
    have mS: "map_of m k = Some (q, t) \<longleftrightarrow> map_of ?m k = Some (q, t) \<and> \<not> t < now - int age" for k t
      by (cases "map_of ?m k") (auto simp: mm split: if_splits simp del: map_of_eq_Some_iff)
    have one: "k = k' \<and> t = t'" if "map_of ?m k = Some (q, t)" "map_of ?m k' = Some (q, t')" for k k' t t'
      using d(3) [OF that(1)] d(3) [OF that(2)] that by simp
    have "(\<exists>k t. assigned s q = Some k \<and> map_of m k = Some (q, t)) \<longleftrightarrow>
        chans s q = Waiting_Resp \<and> \<not> (\<exists>k t. map_of ?m k = Some (q, t) \<and> t < now - int age)"
      unfolding mS d(2) [of q] using one by blast
    then show ?thesis unfolding ch by auto
  qed
  show "\<exists>k. assigned ?s q = Some k \<and> (b = [] \<or> clrid_field b = u32_to_le k)" if "chans ?s q = Got b" for q b
    using that d(2) [of q] d(4) [of q b] unfolding ch by (auto split: if_splits)
qed


lemma conn_step_inv:
  assumes "conn_step s t" and inv: "conn_sys_inv s"
  shows "conn_sys_inv t"
  using assms(1)
proof cases
  case (take_id r cid c)
  with inv show ?thesis by (auto simp: next_corr_id_def intro: inv_take_id)
next
  case (register r cid now)
  with inv show ?thesis by (simp add: inv_register)
next
  case (enqueue f p c)
  with inv show ?thesis
    by (auto simp: send_raw_def split: if_splits intro!: inv_same_table)
next
  case (write_turn ok c out)
  with inv show ?thesis
    by (auto simp: write_step_def split: if_splits list.splits intro!: inv_same_table)
next
  case (frame_turn rs b hdr payload rs' b' c out)
  have "payload = prepend_header (clr_id hdr) (drop 9 payload)"
    using drain_frame_shape [OF frame_turn(3)] by simp
  then have "clrid_field payload = clrid_field (prepend_header (clr_id hdr) (drop 9 payload))" by simp
  also have "\<dots> = u32_to_le (clr_id hdr)" by (simp add: clrid_field_def prepend_header_def)
  finally show ?thesis using inv frame_turn by (simp add: inv_frame)
next
  case read_end
  with inv show ?thesis by (simp add: read_ended_def inv_same_table)
next
  case (cleanup_op now age m sends)
  with inv show ?thesis by (simp add: inv_cleanup)
next
  case close_op
  with inv show ?thesis by (simp add: conn_close_def inv_same_table)
qed

lemma conn_reachable_inv: "conn_reachable c s \<Longrightarrow> entries c = [] \<Longrightarrow> conn_sys_inv s"
proof (induction rule: conn_reachable.induct)
  case conn_start
  then show ?case by (simp add: conn_sys_new_def conn_sys_inv_def)
next
  case (conn_more s t)
  then show ?case by (blast intro: conn_step_inv)
qed

lemma take_ids_eq: "fst (take_ids n c) = map (\<lambda>i. corr_id c + word_of_nat i) [0..<n]"
proof (induction n arbitrary: c)
  case (Suc n)
  have "map (\<lambda>i. corr_id c + 1 + word_of_nat i) [0..<n] = map (\<lambda>i. corr_id c + word_of_nat i) [Suc 0..<Suc n]"
    by (simp only: map_Suc_upt [symmetric] list.map_comp) (simp add: comp_def add.assoc)
  with Suc [of "c\<lparr>corr_id := corr_id c + 1\<rparr>"] show ?case
    by (simp add: next_corr_id_def case_prod_beta Let_def upt_conv_Cons del: upt_Suc)
qed simp

lemma take_ids_distinct: "n \<le> 4294967296 \<Longrightarrow> distinct (fst (take_ids n c))"
  unfolding take_ids_eq distinct_map
proof (intro conjI inj_onI)
  fix i j
  assume n: "n \<le> 4294967296" and ij: "i \<in> set [0..<n]" "j \<in> set [0..<n]"
    and e: "corr_id c + word_of_nat i = corr_id c + word_of_nat j"
  then have "unat (word_of_nat i :: u32) = unat (word_of_nat j :: u32)" by simp
  with n ij show "i = j" by (simp add: unat_u32_of_nat)
qed simp

lemma sample_waiting_reachable: "conn_reachable sample_conn sample_waiting"
proof -
  let ?s1 = "\<lparr>the_conn = sample_conn\<lparr>corr_id := 2\<rparr>, chans = (\<lambda>_. Unused), assigned = [7 \<mapsto> 1]\<rparr>"
  have "conn_step (conn_sys_new sample_conn) ?s1"
    using take_id [of "conn_sys_new sample_conn" 7 1 "sample_conn\<lparr>corr_id := 2\<rparr>"]
    by (simp add: conn_sys_new_def next_corr_id_def sample_conn_def)
  moreover have "conn_step ?s1 sample_waiting"
    using register [of ?s1 7 1 100]
    by (simp add: demux_store_def store_drops_def drop_tx_def sample_waiting_def sample_conn_def)
  ultimately show ?thesis by (blast intro: conn_reachable.intros)
qed

lemma should_close_erro:
  assumes "drain_frame_async rs b = Some (Ready (Inr (hdr, payload)), rs', b')" and "should_close hdr payload \<noteq> Some False"
  shows "clrid_field payload = u32_to_le erro_id"
proof -
  note sh = drain_frame_shape [OF assms(1)]
  then have "clr_id hdr = erro_id" using assms(2) should_close_frame(2) by metis
  moreover have "clrid_field (prepend_header cid pl) = u32_to_le cid" for cid pl by (simp add: clrid_field_def prepend_header_def)
  then have "clrid_field payload = u32_to_le (clr_id hdr)" using sh by metis
  ultimately show ?thesis by simp
qed

lemma whole_frame_drained:
  assumes wf: "payload_wf pl"
  shows "drain_frame_async [Bytes_Read (prepend_header cid pl)] [] =
    Some (Ready (Inr (frame_header cid pl, prepend_header cid pl)), [], [])"
proof -
  let ?f = "prepend_header cid pl"
  have ne: "?f \<noteq> []" by (simp add: prepend_header_def)
  have "\<exists>i b'. drain_frame_async (map Bytes_Read [?f]) [] =
      Some (Ready (Inr (frame_header cid pl, ?f)), map Bytes_Read (drop i [?f]), b') \<and>
      b' @ concat (drop i [?f]) = []"
    by (rule drain_frame_chunks [OF wf]) (use ne in auto)
  then obtain i b' where "drain_frame_async [Bytes_Read ?f] [] =
      Some (Ready (Inr (frame_header cid pl, ?f)), map Bytes_Read (drop i [?f]), b')"
    and "b' @ concat (drop i [?f]) = []" by auto
  moreover from this(2) ne have "drop i [?f] = []" by (cases i) auto
  ultimately show ?thesis by simp
qed

section \<open>Properties\<close>

text \<open>In every interleaving of requests with the write task, the read task, the clean-up and
  close, a request that got a non-empty response got one whose correlation-id field is the id this
  request was given on the connection, and exactly the waiting requests are in the table, each
  under its own id.\<close>
lemma response_matches_request:
  assumes "conn_reachable c s" and "entries c = []"
  shows "(\<forall>r b. chans s r = Got b \<longrightarrow> b \<noteq> [] \<longrightarrow> (\<exists>cid. assigned s r = Some cid \<and> clrid_field b = u32_to_le cid))
    \<and> (\<forall>r. chans s r = Waiting_Resp \<longleftrightarrow>
          (\<exists>cid t. assigned s r = Some cid \<and> map_of (entries (the_conn s)) cid = Some (r, t)))"
  using conn_sys_invD(2,4) [OF conn_reachable_inv [OF assms]] by blast

text \<open>C21: The read task hands every reply to the requester its correlation id is registered
  for, in the order of arrival, removes exactly these entries and goes on reading, however the
  node's bytes are split into reads.\<close>
theorem replies_reach_requesters:
  assumes "\<forall>(cid, pl) \<in> set fs. payload_wf pl \<and> cid \<noteq> erro_id \<and> (\<exists>t s. map_of (entries c) cid = Some (t, s))"
    and "distinct (map fst fs)" and "\<forall>ch \<in> set cs. ch \<noteq> []" and "reading c"
    and "concat cs = concat (map (\<lambda>(cid, pl). prepend_header cid pl) fs)"
  shows "\<exists>c'. read_loop (map Bytes_Read cs) [] c =
      Some (c', map (\<lambda>(cid, pl). (fst (the (map_of (entries c) cid)), prepend_header cid pl)) fs, [], [])
    \<and> (\<forall>cid. map_of (entries c') cid = (if cid \<in> fst ` set fs then None else map_of (entries c) cid))
    \<and> reading c' \<and> closed c' = closed c"
proof -
  let ?m = "fold (\<lambda>(cid, pl) m. snd (load_remove cid m)) fs (entries c)"
  have "map_of (fold (\<lambda>(cid, pl) m. snd (load_remove cid m)) fs m) k = (if k \<in> fst ` set fs then None else map_of m k)" for m k
    by (induction fs arbitrary: m) (auto simp: load_remove_def map_of_delete)
  then show ?thesis using read_loop_delivers [OF assms(1-4), of "[]"] assms(4,5) by auto
qed

lemma replies_reach_requesters_witness:
  "\<exists>c'. read_loop [Bytes_Read (take 3 (prepend_header 1 sample_reply)), Bytes_Read (drop 3 (prepend_header 1 sample_reply))]
      [] (the_conn sample_waiting) = Some (c', [(7, prepend_header 1 sample_reply)], [], [])
    \<and> map_of (entries c') 1 = None"
proof -
  let ?f = "prepend_header 1 sample_reply"
  have "\<exists>c'. read_loop (map Bytes_Read [take 3 ?f, drop 3 ?f]) [] (the_conn sample_waiting) =
      Some (c', map (\<lambda>(cid, pl). (fst (the (map_of (entries (the_conn sample_waiting)) cid)), prepend_header cid pl))
        [(1, sample_reply)], [], [])
    \<and> (\<forall>cid. map_of (entries c') cid = (if cid \<in> fst ` set [(1 :: u32, sample_reply)] then None else map_of (entries (the_conn sample_waiting)) cid))
    \<and> reading c' \<and> closed c' = closed (the_conn sample_waiting)"
    by (rule replies_reach_requesters)
      (simp_all add: payload_wf_def sample_reply_def erro_id_def sample_waiting_def sample_conn_def prepend_header_def u32_to_le_eval)
  then show ?thesis by (auto simp: sample_waiting_def)
qed

text \<open>The read task never panics, whatever the node sends: the slices of its error
  handling stay inside the frame.\<close>
lemma read_loop_never_panics: "\<exists>r. read_loop rs b c = Some r"
  by (rule read_loop_not_None)

text \<open>C36: No error reply of a node makes the read task close the connection: the task looks for
  the status at offset 1 of the whole frame, where the correlation id is, so the branch for the
  codes 308, 405 and 503 needs a correlation id that spells \<open>ERRO\<close>.\<close>
theorem error_replies_never_close:
  assumes "drain_frame_async rs b = Some (Ready (Inr (hdr, payload)), rs', b')"
    and "clr_id hdr \<noteq> erro_id" and "map_of (entries c) (clr_id hdr) = Some (t, sent_at)"
  shows "\<exists>c'. read_frame hdr payload c = Some (c', Some (t, payload)) \<and> closed c' = closed c \<and> reading c' = reading c"
proof -
  have "should_close hdr payload = Some False"
    using drain_frame_shape [OF assms(1)] should_close_frame(2) [OF _ assms(2)] by metis
  then show ?thesis using assms(3) by (auto simp: read_frame_def load_remove_def)
qed

lemma error_replies_never_close_witness:
  "\<exists>c'. read_frame (frame_header 1 sample_error) (prepend_header 1 sample_error) (the_conn sample_waiting) =
      Some (c', Some (7, prepend_header 1 sample_error)) \<and> closed c' = False \<and> reading c'"
proof -
  have "payload_wf sample_error" by (simp add: payload_wf_def sample_error_def string_to_bytes_def)
  from error_replies_never_close [OF whole_frame_drained [OF this, of 1], of "the_conn sample_waiting" 7 100]
  show ?thesis by (simp add: erro_id_def frame_header_def sample_waiting_def sample_conn_def)
qed

text \<open>The first $2^{32}$ requests on a connection get pairwise different correlation ids,
  counting from 1 and wrapping.\<close>
lemma corr_ids_distinct:
  assumes "n \<le> 4294967296"
  shows "distinct (fst (take_ids n c)) \<and> fst (take_ids n c) = map (\<lambda>i. corr_id c + word_of_nat i) [0..<n]"
  using take_ids_distinct [OF assms] take_ids_eq by blast

text \<open>C39: The end of the read task, whichever step it is, leaves every request that waits on the connection waiting
  (except one answered by that very step, under the id that spells \<open>ERRO\<close>), and so does everything that happens to the connection
  afterwards: the request's channel is neither answered nor dropped, until a clean-up of the table answers it with empty bytes or a later request is
  stored under the same id.\<close>
theorem waiters_stay_after_read_end:
  assumes "conn_step s t" and "conn_sys_inv s" and "\<not> reading (the_conn t)" and "chans s r = Waiting_Resp"
  shows "if reading (the_conn s) then chans t r = Waiting_Resp \<or> (\<exists>b. chans t r = Got b \<and> clrid_field b = u32_to_le erro_id)
    else chans t r = Waiting_Resp
      \<or> chans t r = Got [] \<and> (\<exists>now age. the_conn t = (the_conn s)\<lparr>entries := fst (demux_cleanup now age (entries (the_conn s)))\<rparr>)
      \<or> chans t r = Dropped \<and> (\<exists>q. q \<noteq> r \<and> assigned s q = assigned s r \<and> chans t q = Waiting_Resp)"
  using assms(1)
proof cases
  case (register q cid now)
  have "assigned s r = Some cid" if "map_of (entries (the_conn s)) cid = Some (r, x)" for x
    using conn_sys_invD(3) [OF assms(2) that] .
  with register assms(3,4) show ?thesis
    by (auto simp: drop_tx_def store_drops_def split: option.splits simp del: map_of_eq_Some_iff)
next
  case (frame_turn rs b hdr payload rs' b' c out)
  then have sc: "clrid_field payload = u32_to_le erro_id" if "should_close hdr payload \<noteq> Some False"
    using should_close_erro that by blast
  show ?thesis using frame_turn assms(3,4) sc
    by (auto simp: read_frame_def deliver_def split: prod.splits option.splits bind_splits if_splits)
next
  case (cleanup_op now age m sends)
  have "\<forall>(t, b) \<in> set sends. b = []"
    using cleanup_sends [OF conn_sys_invD(1) [OF assms(2)], of _ _ now age] cleanup_op(2) by auto
  then have "chans t r = Waiting_Resp \<or> chans t r = Got []" using cleanup_op(1) assms(4) by (simp add: fold_deliver)
  moreover have "the_conn t = (the_conn s)\<lparr>entries := fst (demux_cleanup now age (entries (the_conn s)))\<rparr>" using cleanup_op by simp
  ultimately show ?thesis using assms(3) cleanup_op(1) by auto
qed (use assms in \<open>auto simp: next_corr_id_def send_raw_def write_step_def conn_close_def read_ended_def split: if_splits list.splits\<close>)

lemma waiters_stay_after_read_end_witness:
  "chans (sample_waiting\<lparr>the_conn := read_ended (the_conn sample_waiting)\<rparr>) 7 = Waiting_Resp
    \<and> conn_step sample_waiting (sample_waiting\<lparr>the_conn := read_ended (the_conn sample_waiting)\<rparr>)"
proof -
  let ?t = "sample_waiting\<lparr>the_conn := read_ended (the_conn sample_waiting)\<rparr>"
  have inv: "conn_sys_inv sample_waiting"
    using conn_reachable_inv [OF sample_waiting_reachable] by (simp add: sample_conn_def)
  have r: "reading (the_conn sample_waiting)" by (simp add: sample_waiting_def sample_conn_def)
  then have st: "conn_step sample_waiting ?t" by (rule read_end)
  from waiters_stay_after_read_end [OF st inv, of 7] r have
    "chans ?t 7 = Waiting_Resp \<or> (\<exists>b. chans ?t 7 = Got b \<and> clrid_field b = u32_to_le erro_id)"
    by (simp add: read_ended_def sample_waiting_def)
  then show ?thesis using st by (auto simp: sample_waiting_def)
qed

end
