(* ===== verification/Rz_Http.thy ===== *)
theory Rz_Http
  imports Rz_Error Rz_Config
begin

text \<open>
  What the discovery components use of the \<^verbatim>\<open>reqwest\<close> client. The client is a parameter: a GET
  is a function of the URL and of the number of the attempt within the calling task, so that two
  attempts may get different answers; a POST likewise of the URL and the request body. A response
  is its status code, the display text of the status and the result of reading the body
  (\<open>Inl\<close> the error text). Decoding a JSON body is \<^verbatim>\<open>serde\<close>'s and is a parameter of the
  operations that need it. \<open>base_url\<close> is the normalisation that \<^verbatim>\<open>src/rzid.rs\<close> and
  \<^verbatim>\<open>src/resolver.rs\<close> both perform on a configured address.
\<close>

record http_response =
  status :: nat
  status_text :: string
  body :: "string + string"

type_synonym http_get = "string \<Rightarrow> nat \<Rightarrow> string + http_response"

definition is_success :: "nat \<Rightarrow> bool" where
  "is_success s \<longleftrightarrow> 200 \<le> s \<and> s < 300"

fun body_or_default :: "string + string \<Rightarrow> string" where
  "body_or_default (Inl _) = []"
| "body_or_default (Inr t) = t"

definition base_url :: "string \<Rightarrow> string" where
  "base_url address =
     ''http://'' @ trim_end_matches (CHR ''/'')
       (trim_start_matches ''https://'' (trim_start_matches ''http://'' address))"

text \<open>\<^verbatim>\<open>response.json()\<close> reads the body and decodes it.\<close>

fun decode_json :: "(string \<Rightarrow> string + 'a) \<Rightarrow> string + string \<Rightarrow> string + 'a" where
  "decode_json json (Inl e) = Inl e"
| "decode_json json (Inr t) = json t"

lemma trim_start_matches_append: "pat \<noteq> [] \<Longrightarrow> trim_start_matches pat (pat @ s) = trim_start_matches pat s"
  by (simp add: trim_start_matches.simps [of pat "pat @ s"])

lemma trim_start_matches_other: "\<not> prefix pat s \<Longrightarrow> trim_start_matches pat s = s"
  by (rule trim_start_matches_stable) (metis take_is_prefix)

lemma trim_end_matches_replicate:
  "last s \<noteq> c \<Longrightarrow> s \<noteq> [] \<Longrightarrow> trim_end_matches c (s @ replicate n c) = s"
proof -
  assume "last s \<noteq> c" "s \<noteq> []"
  then have "dropWhile (\<lambda>x. x = c) (rev s) = rev s" by (cases s rule: rev_cases) auto
  moreover have "dropWhile (\<lambda>x. x = c) (replicate n c @ rev s) = dropWhile (\<lambda>x. x = c) (rev s)"
    by (rule dropWhile_append2) simp
  ultimately show ?thesis by (simp add: trim_end_matches_def)
qed

text \<open>The address of a service may be given bare, with \<open>http://\<close> or with \<open>https://\<close>, and
  with slashes at the end: the base URL is always the plain-HTTP one of the host. In particular
  an \<open>https://\<close> address is contacted over plain HTTP.\<close>
lemma base_url_normalises:
  assumes "host \<noteq> []" and "last host \<noteq> CHR ''/''"
    and "\<not> prefix ''http://'' (host @ replicate n (CHR ''/''))"
    and "\<not> prefix ''https://'' (host @ replicate n (CHR ''/''))"
    and "scheme \<in> {[], ''http://'', ''https://''}"
  shows "base_url (scheme @ host @ replicate n (CHR ''/'')) = ''http://'' @ host"
proof -
  let ?t = "host @ replicate n (CHR ''/'')"
  have "trim_start_matches ''http://'' (''https://'' @ ?t) = ''https://'' @ ?t"
    by (rule trim_start_matches_other) simp
  then have "trim_start_matches ''https://'' (trim_start_matches ''http://'' (scheme @ ?t)) = ?t"
    using assms(5) trim_start_matches_append [of "''http://''" ?t] trim_start_matches_append [of "''https://''" ?t]
      trim_start_matches_other [OF assms(3)] trim_start_matches_other [OF assms(4)]
    by auto
  then show ?thesis using assms(1,2) by (simp add: base_url_def trim_end_matches_replicate)
qed

end
