(* ===== verification/Rz_Resolver.thy ===== *)
theory Rz_Resolver
  imports Rz_Http
begin

text \<open>
  \<^verbatim>\<open>src/resolver.rs\<close>: \<^verbatim>\<open>RzPointResolver\<close>, which resolves a node id to a host name with up to
  three GET requests. The operation returns its result and what it did on the way: the
  requests it sent and the pauses between them.
\<close>

record RzPointResolver =
  rp_base_url :: string
  rp_shard_id :: string

datatype http_event = Sent_Get string | Slept duration

text \<open>\<open>built\<close> is the outcome of \<^verbatim>\<open>Client::builder().build()\<close>.\<close>

definition RzPointResolver_new :: "string + unit \<Rightarrow> string \<Rightarrow> string \<Rightarrow> RzPointResolver rz_result" where
  "RzPointResolver_new built rzpoint_address shard =
     (case built of
        Inl e \<Rightarrow> Inl (System (''Failed to build RzPoint client: '' @ e))
      | Inr _ \<Rightarrow> Inr \<lparr>rp_base_url = base_url rzpoint_address, rp_shard_id = shard\<rparr>)"

definition resolve_url :: "RzPointResolver \<Rightarrow> string \<Rightarrow> string" where
  "resolve_url r node_id =
     rp_base_url r @ ''/shards/'' @ rp_shard_id r @ ''/nodes/'' @ node_id"

text \<open>One attempt: \<open>Inr\<close> the value to return, or \<open>Inl\<close> the error to remember before retrying.\<close>

definition resolve_attempt :: "http_get \<Rightarrow> RzPointResolver \<Rightarrow> string \<Rightarrow> nat \<Rightarrow> RZError + string rz_result" where
  "resolve_attempt get r node_id attempt =
     (case get (resolve_url r node_id) attempt of
        Inr resp \<Rightarrow>
          (if is_success (status resp) then
             Inr (case body resp of
                 Inl e \<Rightarrow> Inl (Resolver (''Failed to read response: '' @ e))
               | Inr hostname \<Rightarrow> Inr (trim hostname))
           else if status resp = 404 then Inr (Inl (Resolver (''Node '' @ node_id @ '' not found'')))
           else Inl (Resolver (''HTTP status: '' @ status_text resp)))
      | Inl e \<Rightarrow> Inl (Resolver (''Request failed: '' @ e)))"

text \<open>The loop \<^verbatim>\<open>for attempt in 0..3\<close>: \<open>todo\<close> attempts are left.\<close>

fun resolve_loop :: "http_get \<Rightarrow> RzPointResolver \<Rightarrow> string \<Rightarrow> nat \<Rightarrow> nat \<Rightarrow> RZError option \<Rightarrow>
    string rz_result \<times> http_event list" where
  "resolve_loop get r node_id attempt 0 last_error =
     (Inl (case last_error of None \<Rightarrow> Resolver ''All retries failed'' | Some e \<Rightarrow> e), [])"
| "resolve_loop get r node_id attempt (Suc todo) last_error =
     (case resolve_attempt get r node_id attempt of
        Inr res \<Rightarrow> (res, [Sent_Get (resolve_url r node_id)])
      | Inl e \<Rightarrow>
          (let pause = (if attempt < 2 then [Slept (from_millis (100 * (attempt + 1)))] else []);
               (res, evs) = resolve_loop get r node_id (attempt + 1) todo (Some e)
           in (res, Sent_Get (resolve_url r node_id) # pause @ evs)))"

definition resolve :: "http_get \<Rightarrow> RzPointResolver \<Rightarrow> string \<Rightarrow> string rz_result \<times> http_event list" where
  "resolve get r node_id = resolve_loop get r node_id 0 3 None"

section \<open>Specification and lemmas\<close>

text \<open>The attempts after which \<^verbatim>\<open>resolve\<close> tries again: the request failed, or the status is neither a success nor 404.\<close>

fun try_again :: "string + http_response \<Rightarrow> bool" where
  "try_again (Inl e) \<longleftrightarrow> True"
| "try_again (Inr resp) \<longleftrightarrow> (status resp < 200 \<or> 300 \<le> status resp) \<and> status resp \<noteq> 404"

text \<open>What a caller is told about an attempt.\<close>

fun verdict :: "string \<Rightarrow> string + http_response \<Rightarrow> string rz_result" where
  "verdict node_id (Inl e) = Inl (Resolver (''Request failed: '' @ e))"
| "verdict node_id (Inr resp) =
     (if status resp = 404 then Inl (Resolver (''Node '' @ node_id @ '' not found''))
      else if status resp < 200 \<or> 300 \<le> status resp then Inl (Resolver (''HTTP status: '' @ status_text resp))
      else case body resp of Inl e \<Rightarrow> Inl (Resolver (''Failed to read response: '' @ e)) | Inr t \<Rightarrow> Inr (trim t))"

lemma attempt_decides:
  "\<not> try_again (get (resolve_url r n) k) \<Longrightarrow> resolve_attempt get r n k = Inr (verdict n (get (resolve_url r n) k))"
  by (cases "get (resolve_url r n) k") (auto simp: resolve_attempt_def is_success_def)

lemma attempt_retries:
  "try_again (get (resolve_url r n) k) \<Longrightarrow> \<exists>e. resolve_attempt get r n k = Inl e \<and> verdict n (get (resolve_url r n) k) = Inl e"
  by (cases "get (resolve_url r n) k") (auto simp: resolve_attempt_def is_success_def)

text \<open>The requests and pauses of the attempts \<open>k\<close>, \<dots>, \<open>m\<close>.\<close>

definition attempts_made :: "string \<Rightarrow> nat \<Rightarrow> nat \<Rightarrow> http_event list" where
  "attempts_made u k m = concat (map (\<lambda>j. [Sent_Get u, Slept (from_millis (100 * (j + 1)))]) [k..<m]) @ [Sent_Get u]"

lemma attempts_made_rec: "k < m \<Longrightarrow> attempts_made u k m = Sent_Get u # Slept (from_millis (100 * (k + 1))) # attempts_made u (Suc k) m"
  by (simp add: attempts_made_def upt_conv_Cons)

lemma resolve_loop_decided:
  assumes "k \<le> m" and "m < 3" and "\<forall>j. k \<le> j \<and> j < m \<longrightarrow> try_again (get (resolve_url r n) j)"
    and "\<not> try_again (get (resolve_url r n) m)"
  shows "resolve_loop get r n k (3 - k) l = (verdict n (get (resolve_url r n) m), attempts_made (resolve_url r n) k m)"
  using assms
proof (induction "m - k" arbitrary: k l)
  case 0
  then have "k = m" "3 - k = Suc (2 - m)" by simp_all
  then show ?case using attempt_decides [of get r n m] 0 by (simp add: attempts_made_def)
next
  case (Suc d)
  then have k: "k < m" "3 - k = Suc (3 - Suc k)" by simp_all
  obtain e where "resolve_attempt get r n k = Inl e" using attempt_retries Suc.prems(3) k(1) by blast
  moreover have "resolve_loop get r n (Suc k) (3 - Suc k) l' = (verdict n (get (resolve_url r n) m), attempts_made (resolve_url r n) (Suc k) m)" for l'
    by (rule Suc.hyps(1)) (use Suc.hyps(2) Suc.prems k in auto)
  ultimately show ?case using k Suc.prems(2) by (simp add: k(2) attempts_made_rec)
qed

lemma resolve_loop_exhausted:
  assumes "k < 3" and "\<forall>j. k \<le> j \<and> j < 3 \<longrightarrow> try_again (get (resolve_url r n) j)"
  shows "resolve_loop get r n k (3 - k) l = (verdict n (get (resolve_url r n) 2), attempts_made (resolve_url r n) k 2)"
  using assms
proof (induction "2 - k" arbitrary: k l)
  case 0
  then have "k = 2" by simp
  moreover obtain e where "resolve_attempt get r n 2 = Inl e" "verdict n (get (resolve_url r n) 2) = Inl e"
    using attempt_retries [of get r n 2] 0 by auto
  ultimately show ?case by (simp add: attempts_made_def)
next
  case (Suc d)
  then have k: "k < 2" "3 - k = Suc (3 - Suc k)" by simp_all
  obtain e where "resolve_attempt get r n k = Inl e" using attempt_retries Suc.prems(2) k(1) by fastforce
  moreover have "resolve_loop get r n (Suc k) (3 - Suc k) l' = (verdict n (get (resolve_url r n) 2), attempts_made (resolve_url r n) (Suc k) 2)" for l'
    by (rule Suc.hyps(1)) (use Suc.hyps(2) Suc.prems k in auto)
  ultimately show ?case using k by (simp add: k(2) attempts_made_rec)
qed

section \<open>Properties\<close>

text \<open>C34: \<^verbatim>\<open>resolve\<close> sends at most three GET requests for the node's URL. It stops at the first answer that is a success or a 404,
  and otherwise at the third, pausing 100 ms after the first request and 200 ms after the second; an error of the connection and
  every other status is tried again. The caller gets the verdict on the last answer: the trimmed body of a success (status 200 to 299),
  or an error that says that the node was not found (404), that the body could not be read, which other status came, or that the
  request failed.\<close>
theorem resolve_first_decisive:
  assumes "url = rp_base_url r @ ''/shards/'' @ rp_shard_id r @ ''/nodes/'' @ node_id"
    and "m < 3" and "\<forall>j < m. try_again (get url j)" and "m < 2 \<longrightarrow> \<not> try_again (get url m)"
  shows "resolve get r node_id = (verdict node_id (get url m),
      take (2 * m + 1) [Sent_Get url, Slept (from_millis 100), Sent_Get url, Slept (from_millis 200), Sent_Get url])"
proof -
  have u: "resolve_url r node_id = url" using assms(1) by (simp add: resolve_url_def)
  have "resolve get r node_id = (verdict node_id (get url m), attempts_made url 0 m)"
  proof (cases "try_again (get url m)")
    case True
    then have "m = 2" using assms(2,4) by linarith
    moreover have "\<forall>j. 0 \<le> j \<and> j < 3 \<longrightarrow> try_again (get (resolve_url r node_id) j)"
      using assms(3) True \<open>m = 2\<close> u by (auto simp: less_Suc_eq numeral_3_eq_3 numeral_2_eq_2)
    ultimately show ?thesis using resolve_loop_exhausted [of 0] u by (simp add: resolve_def)
  next
    case False
    then show ?thesis using resolve_loop_decided [of 0 m] assms(2,3) u by (simp add: resolve_def)
  qed
  moreover have "m \<in> {0, 1, 2}" using assms(2) by auto
  then have "attempts_made url 0 m =
      take (2 * m + 1) [Sent_Get url, Slept (from_millis 100), Sent_Get url, Slept (from_millis 200), Sent_Get url]"
    by (elim insertE emptyE) (simp_all add: attempts_made_def upt_rec numeral_2_eq_2)
  ultimately show ?thesis by simp
qed

lemma resolve_first_decisive_witness:
  "resolve (\<lambda>u k. if k = 0 then Inl ''reset'' else if k = 1 then Inr \<lparr>status = 503, status_text = ''503'', body = Inr []\<rparr>
        else Inr \<lparr>status = 200, status_text = ''200 OK'', body = Inr ''host-a''\<rparr>)
      \<lparr>rp_base_url = ''http://p'', rp_shard_id = ''s1''\<rparr> ''n7'' =
    (Inr ''host-a'', [Sent_Get ''http://p/shards/s1/nodes/n7'', Slept 100000000, Sent_Get ''http://p/shards/s1/nodes/n7'',
      Slept 200000000, Sent_Get ''http://p/shards/s1/nodes/n7''])"
proof -
  let ?get = "\<lambda>(u :: string) (k :: nat). if k = 0 then Inl ''reset'' else if k = 1 then Inr \<lparr>status = 503, status_text = ''503'', body = Inr []\<rparr>
        else Inr \<lparr>status = 200, status_text = ''200 OK'', body = Inr ''host-a''\<rparr>"
  have "resolve ?get \<lparr>rp_base_url = ''http://p'', rp_shard_id = ''s1''\<rparr> ''n7'' =
      (verdict ''n7'' (?get ''http://p/shards/s1/nodes/n7'' 2),
       take (2 * 2 + 1) [Sent_Get ''http://p/shards/s1/nodes/n7'', Slept (from_millis 100), Sent_Get ''http://p/shards/s1/nodes/n7'',
      Slept (from_millis 200), Sent_Get ''http://p/shards/s1/nodes/n7''])"
    by (rule resolve_first_decisive) (auto simp: less_Suc_eq numeral_2_eq_2)
  moreover have "trim ''host-a'' = ''host-a''" by (rule trim_graph) (simp_all add: graph_char_def)
  ultimately show ?thesis by (simp add: from_millis_def)
qed

end
