(* ===== verification/Rz_Rzid.thy ===== *)
theory Rz_Rzid
  imports Rz_Http
begin

text \<open>
  \<^verbatim>\<open>src/rzid.rs\<close>: the RZID client. The body of the registration request is the record
  \<open>RegisterRequest\<close> (its JSON text is \<^verbatim>\<open>serde\<close>'s). \<open>run_heartbeat_task\<close> is the heartbeat loop
  on the sequence of events its \<^verbatim>\<open>select!\<close> sees: a tick of the interval, with the answer to the
  heartbeat it sends, or the cancellation.
\<close>

record RegisterRequest =
  rr_kind :: string
  rr_id :: string
  rr_zone :: string
  rr_shard :: "string option"

record RzidClient =
  rz_base_url :: string
  rz_bridge_id :: string
  rz_shard_id :: string
  rz_zone_id :: string

definition RzidClient_new :: "string + unit \<Rightarrow> string \<Rightarrow> string \<Rightarrow> string \<Rightarrow> string \<Rightarrow> RzidClient rz_result" where
  "RzidClient_new built addr bridge shard zone =
     (case built of
        Inl e \<Rightarrow> Inl (System (''Failed to build RZID client: '' @ e))
      | Inr _ \<Rightarrow> Inr \<lparr>rz_base_url = base_url addr, rz_bridge_id = bridge, rz_shard_id = shard,
          rz_zone_id = zone\<rparr>)"

definition heartbeat_request :: "RzidClient \<Rightarrow> string \<times> RegisterRequest" where
  "heartbeat_request c =
     (rz_base_url c @ ''/register'',
      \<lparr>rr_kind = ''bridge'', rr_id = rz_bridge_id c, rr_zone = rz_zone_id c, rr_shard = Some (rz_shard_id c)\<rparr>)"

definition send_heartbeat :: "(string \<times> RegisterRequest \<Rightarrow> string + http_response) \<Rightarrow> RzidClient \<Rightarrow> unit rz_result" where
  "send_heartbeat post c =
     (case post (heartbeat_request c) of
        Inr resp \<Rightarrow>
          (if is_success (status resp) then Inr ()
           else Inl (Http (''RZID heartbeat returned '' @ status_text resp @ '': '' @ body_or_default (body resp))))
      | Inl e \<Rightarrow> Inl (Http (''Failed to send heartbeat to RZID: '' @ e)))"

text \<open>\<open>json\<close> decodes a \<^verbatim>\<open>NodesResponse\<close>.\<close>

definition fetch_shard_nodes :: "(string \<Rightarrow> string + string list) \<Rightarrow> http_get \<Rightarrow> RzidClient \<Rightarrow> string list rz_result" where
  "fetch_shard_nodes json get c =
     (case get (rz_base_url c @ ''/shards/'' @ rz_shard_id c @ ''/nodes'') 0 of
        Inr resp \<Rightarrow>
          (if is_success (status resp) then
             (case decode_json json (body resp) of
                Inl e \<Rightarrow> Inl (Http (''Failed to parse nodes response: '' @ e))
              | Inr nodes \<Rightarrow> Inr nodes)
           else Inl (Http (''RZID nodes query returned '' @ status_text resp @ '': '' @ body_or_default (body resp))))
      | Inl e \<Rightarrow> Inl (Http (''Failed to fetch shard nodes from RZID: '' @ e)))"

section \<open>The heartbeat task\<close>

datatype heartbeat_event = Tick "string + http_response" | Cancel

datatype heartbeat_action = Posted string RegisterRequest | Logged_Error string

fun heartbeat_loop :: "RzidClient \<Rightarrow> heartbeat_event list \<Rightarrow> heartbeat_action list \<times> unit rz_result task" where
  "heartbeat_loop c [] = ([], Task_Running)"
| "heartbeat_loop c (Cancel # evs) = ([], Task_Ended (Inr ()))"
| "heartbeat_loop c (Tick answer # evs) =
     (let sent = (case heartbeat_request c of (u, req) \<Rightarrow> Posted u req);
          logged = (case send_heartbeat (\<lambda>_. answer) c of
              Inl e \<Rightarrow> [Logged_Error (''Failed to send heartbeat to RZID: '' @ display_error e)]
            | Inr _ \<Rightarrow> []);
          (rest, res) = heartbeat_loop c evs
      in (sent # logged @ rest, res))"

definition run_heartbeat_task :: "RzidClient \<Rightarrow> nat \<Rightarrow> heartbeat_event list \<Rightarrow>
    heartbeat_action list \<times> unit rz_result task" where
  "run_heartbeat_task c interval_secs evs =
     (case interval (from_secs interval_secs) of
        None \<Rightarrow> ([], Task_Panicked)
      | Some _ \<Rightarrow> heartbeat_loop c evs)"

definition spawn_heartbeat_task :: "string + unit \<Rightarrow> string \<Rightarrow> string \<Rightarrow> string \<Rightarrow> string \<Rightarrow> nat \<Rightarrow>
    heartbeat_event list \<Rightarrow> heartbeat_action list \<times> unit task" where
  "spawn_heartbeat_task built addr bridge shard zone interval_secs evs =
     (case RzidClient_new built addr bridge shard zone of
        Inl e \<Rightarrow> ([Logged_Error (''Failed to create RZID client: '' @ display_error e)], Task_Ended ())
      | Inr c \<Rightarrow>
          (case run_heartbeat_task c interval_secs evs of
             (acts, Task_Running) \<Rightarrow> (acts, Task_Running)
           | (acts, Task_Panicked) \<Rightarrow> (acts, Task_Panicked)
           | (acts, Task_Ended (Inl e)) \<Rightarrow>
               (acts @ [Logged_Error (''RZID heartbeat task failed: '' @ display_error e)], Task_Ended ())
           | (acts, Task_Ended (Inr _)) \<Rightarrow> (acts, Task_Ended ())))"

section \<open>Properties\<close>

definition is_post :: "heartbeat_action \<Rightarrow> bool" where
  "is_post a = (case a of Posted _ _ \<Rightarrow> True | Logged_Error _ \<Rightarrow> False)"

lemma heartbeat_loop_posts:
  assumes "\<forall>e \<in> set ticks. e \<noteq> Cancel"
  shows "filter is_post (fst (heartbeat_loop c (ticks @ rest))) =
      replicate (length ticks) (case heartbeat_request c of (u, req) \<Rightarrow> Posted u req)
        @ filter is_post (fst (heartbeat_loop c rest))
    \<and> snd (heartbeat_loop c (ticks @ rest)) = snd (heartbeat_loop c rest)"
  using assms
proof (induction ticks)
  case (Cons e ticks)
  then obtain a where "e = Tick a" by (cases e) auto
  with Cons show ?case
    by (auto simp: Let_def is_post_def heartbeat_request_def split: prod.splits sum.splits)
qed simp

text \<open>C35: The heartbeat task posts exactly one registration per tick, always to the configured
  RZID with the bridge's identity, whatever RZID answers; it runs on until it is cancelled and
  then ends. With an interval of zero seconds it panics before the first registration.\<close>
theorem heartbeat_until_cancelled:
  assumes "\<forall>e \<in> set ticks. e \<noteq> Cancel" and "0 < secs"
  shows "filter is_post (fst (spawn_heartbeat_task (Inr ()) addr bridge shard zone secs (ticks @ Cancel # rest))) =
      replicate (length ticks) (Posted (base_url addr @ ''/register'')
        \<lparr>rr_kind = ''bridge'', rr_id = bridge, rr_zone = zone, rr_shard = Some shard\<rparr>)
    \<and> snd (spawn_heartbeat_task (Inr ()) addr bridge shard zone secs (ticks @ Cancel # rest)) = Task_Ended ()
    \<and> snd (spawn_heartbeat_task (Inr ()) addr bridge shard zone secs ticks) = Task_Running
    \<and> spawn_heartbeat_task (Inr ()) addr bridge shard zone 0 ticks = ([], Task_Panicked)"
proof -
  let ?c = "\<lparr>rz_base_url = base_url addr, rz_bridge_id = bridge, rz_shard_id = shard, rz_zone_id = zone\<rparr>"
  show ?thesis
    using heartbeat_loop_posts [OF assms(1), of ?c "Cancel # rest"] heartbeat_loop_posts [OF assms(1), of ?c "[]"] assms(2)
    by (auto simp: spawn_heartbeat_task_def run_heartbeat_task_def RzidClient_new_def heartbeat_request_def
        interval_def from_secs_def split: prod.splits task.splits sum.splits)
qed

lemma heartbeat_until_cancelled_witness:
  "filter is_post (fst (spawn_heartbeat_task (Inr ()) ''rzid'' ''b1'' ''s1'' ''z1'' 10 [Tick (Inl ''down''), Cancel])) =
     [Posted (base_url ''rzid'' @ ''/register'')
        \<lparr>rr_kind = ''bridge'', rr_id = ''b1'', rr_zone = ''z1'', rr_shard = Some ''s1''\<rparr>]"
  using heartbeat_until_cancelled [of "[Tick (Inl ''down'')]" 10 "''rzid''" "''b1''" "''s1''" "''z1''" "[]"]
  by simp

end
