(* ===== verification/Rz_Topology.thy ===== *)
theory Rz_Topology
  imports Rz_Resolver Rz_Rzid
begin

text \<open>
  \<^verbatim>\<open>src/topology.rs\<close>: one attempt to discover the cluster. Probe tasks run concurrently
  under \<^verbatim>\<open>join_all\<close>, so the network is a function that gives each task its own GET answers; the
  results come back in task order. Hash maps and sets are association lists and lists; where the
  code iterates over one, the order is given by the record \<open>topo_order\<close>, of which
  \<open>valid_topo_order\<close> says that it permutes.
\<close>

section \<open>The node client\<close>

record NodeInfo =
  node_id :: string
  ni_zone_id :: string
  ni_shard_id :: string
  ni_leader_id :: string

record NodeClient =
  api_port :: u16
  nc_timeout :: duration

definition NodeClient_new :: "string + unit \<Rightarrow> u16 \<Rightarrow> nat \<Rightarrow> NodeClient rz_result" where
  "NodeClient_new built port http_timeout =
     (case built of
        Inl e \<Rightarrow> Inl (System (''Failed to build NodeClient: '' @ e))
      | Inr _ \<Rightarrow> Inr \<lparr>api_port = port, nc_timeout = from_secs http_timeout\<rparr>)"

definition node_addr :: "NodeClient \<Rightarrow> string \<Rightarrow> string" where
  "node_addr nc hostname = hostname @ '':'' @ show_nat (unat (api_port nc))"

definition node_http_get :: "(string \<Rightarrow> string + 'a) \<Rightarrow> http_get \<Rightarrow> NodeClient \<Rightarrow> string \<Rightarrow> string \<Rightarrow> 'a rz_result" where
  "node_http_get json get nc hostname path =
     (case get (''http://'' @ node_addr nc hostname @ path) 0 of
        Inl e \<Rightarrow> Inl (Request e)
      | Inr resp \<Rightarrow>
          (if \<not> is_success (status resp) then Inl (Http (status_text resp))
           else case decode_json json (body resp) of Inl e \<Rightarrow> Inl (Request e) | Inr v \<Rightarrow> Inr v))"

definition node_health :: "http_get \<Rightarrow> NodeClient \<Rightarrow> string \<Rightarrow> string rz_result" where
  "node_health get nc hostname =
     (case get (''http://'' @ node_addr nc hostname @ ''/healthz'') 0 of
        Inl e \<Rightarrow> Inl (Request e)
      | Inr resp \<Rightarrow>
          (if status resp \<noteq> 200 then Inl (Http (status_text resp))
           else case body resp of Inl e \<Rightarrow> Inl (Request e) | Inr t \<Rightarrow> Inr (trim t)))"

text \<open>The decoders \<^verbatim>\<open>serde\<close> derives are parameters.\<close>

record json_env =
  json_nodes :: "string \<Rightarrow> string + string list"
  json_info :: "string \<Rightarrow> string + NodeInfo"
  json_peers :: "string \<Rightarrow> string + string list"

definition node_info :: "json_env \<Rightarrow> http_get \<Rightarrow> NodeClient \<Rightarrow> string \<Rightarrow> NodeInfo rz_result" where
  "node_info js get nc hostname = node_http_get (json_info js) get nc hostname ''/node-info''"

definition node_peers :: "json_env \<Rightarrow> http_get \<Rightarrow> NodeClient \<Rightarrow> string \<Rightarrow> string list rz_result" where
  "node_peers js get nc hostname = node_http_get (json_peers js) get nc hostname ''/peers''"

section \<open>Probing\<close>

record ClusterTopology =
  topo_leader :: string
  topo_followers :: "string list"

record NodeData =
  nd_host :: string
  nd_health :: string
  nd_leader_id :: string

record TopologyDiscovery =
  td_rzid :: RzidClient
  td_resolver :: RzPointResolver
  td_node_client :: NodeClient
  known_node_ids :: "string list"

definition TopologyDiscovery_new :: "RzidClient \<Rightarrow> RzPointResolver \<Rightarrow> NodeClient \<Rightarrow> string list \<Rightarrow> TopologyDiscovery" where
  "TopologyDiscovery_new rzid rslv client initial_seed_ids =
     \<lparr>td_rzid = rzid, td_resolver = rslv, td_node_client = client, known_node_ids = initial_seed_ids\<rparr>"

type_synonym probe = "string \<times> string \<times> NodeData \<times> string list"

definition probe_node :: "json_env \<Rightarrow> TopologyDiscovery \<Rightarrow> http_get \<Rightarrow> string \<Rightarrow> probe option" where
  "probe_node js td get nid =
     (case fst (resolve get (td_resolver td) nid) of
        Inl _ \<Rightarrow> None
      | Inr hostname \<Rightarrow>
          (case node_health get (td_node_client td) hostname of
             Inl _ \<Rightarrow> None
           | Inr health \<Rightarrow>
               (if health = ''unavailable'' then None
                else case node_info js get (td_node_client td) hostname of
                    Inl _ \<Rightarrow> None
                  | Inr info \<Rightarrow>
                      (let peers = (case node_peers js get (td_node_client td) hostname of Inl _ \<Rightarrow> [] | Inr ps \<Rightarrow> ps)
                       in Some (nid, hostname,
                            \<lparr>nd_host = hostname, nd_health = health, nd_leader_id = ni_leader_id info\<rparr>, peers)))))"

text \<open>\<^verbatim>\<open>join_all(...).flatten()\<close>: task number \<open>i\<close> sees the network \<open>net i\<close>.\<close>

definition probe_nodes :: "json_env \<Rightarrow> TopologyDiscovery \<Rightarrow> (nat \<Rightarrow> http_get) \<Rightarrow> string list \<Rightarrow> probe list" where
  "probe_nodes js td net ids =
     concat (map (\<lambda>(i, nid). case probe_node js td (net i) nid of None \<Rightarrow> [] | Some p \<Rightarrow> [p])
       (enumerate 0 ids))"

section \<open>Discovery from a list of node ids\<close>

record topo_order =
  ord_peers :: "string list \<Rightarrow> string list"
  ord_nodes :: "(string \<times> NodeData) list \<Rightarrow> (string \<times> NodeData) list"
  ord_votes :: "(string \<times> nat) list \<Rightarrow> (string \<times> nat) list"

definition valid_topo_order :: "topo_order \<Rightarrow> bool" where
  "valid_topo_order o1 \<longleftrightarrow> (\<forall>xs. mset (ord_peers o1 xs) = mset xs)
     \<and> (\<forall>xs. mset (ord_nodes o1 xs) = mset xs) \<and> (\<forall>xs. mset (ord_votes o1 xs) = mset xs)"

text \<open>The peers of the probed seeds that are not seeds themselves, each once.\<close>

definition discovered_peers :: "string list \<Rightarrow> probe list \<Rightarrow> string list" where
  "discovered_peers seed_ids results =
     fold (\<lambda>(_, _, _, peers) acc. fold (\<lambda>peer acc. if peer \<in> set seed_ids then acc else List.insert peer acc) peers acc)
       results []"

definition insert_results :: "probe list \<Rightarrow> (string \<times> NodeData) list \<Rightarrow> (string \<times> NodeData) list" where
  "insert_results results nodes = fold (\<lambda>(_, host, data, _) ns. AList.update host data ns) results nodes"

definition count_votes :: "NodeData list \<Rightarrow> (string \<times> nat) list" where
  "count_votes nodes =
     fold (\<lambda>node votes.
         if nd_leader_id node = [] then votes
         else AList.update (nd_leader_id node)
           ((case map_of votes (nd_leader_id node) of None \<Rightarrow> 0 | Some k \<Rightarrow> k) + 1) votes)
       nodes []"

text \<open>\<^verbatim>\<open>max_by_key\<close> returns the last of the maximal elements.\<close>

fun max_by_count :: "(string \<times> nat) list \<Rightarrow> (string \<times> nat) option" where
  "max_by_count [] = None"
| "max_by_count (x # xs) =
     (case max_by_count xs of
        None \<Rightarrow> Some x
      | Some y \<Rightarrow> if snd y < snd x then Some x else Some y)"

text \<open>The last loop over the nodes: the leader's host and the followers.\<close>

definition classify_nodes :: "string \<Rightarrow> NodeData list \<Rightarrow> string option \<times> string list" where
  "classify_nodes leader nodes =
     fold (\<lambda>node (leader_host, followers).
         if nd_leader_id node = leader then
           (if nd_health node = ''active_leader'' then (Some (nd_host node), followers)
            else if nd_health node = ''active_follower'' then (leader_host, followers @ [nd_host node])
            else (leader_host, followers))
         else (leader_host, followers))
       nodes (None, [])"

definition probed_nodes :: "json_env \<Rightarrow> topo_order \<Rightarrow> TopologyDiscovery \<Rightarrow> (nat \<Rightarrow> nat \<Rightarrow> http_get) \<Rightarrow> string list \<Rightarrow>
    (string \<times> NodeData) list \<times> string list" where
  "probed_nodes js o1 td net seed_ids =
     (let seed_results = probe_nodes js td (net 0) seed_ids;
          peers = discovered_peers seed_ids seed_results;
          peer_results = (if peers = [] then [] else probe_nodes js td (net 1) (ord_peers o1 peers))
      in (insert_results peer_results (insert_results seed_results []),
          map fst seed_results @ map fst peer_results))"

definition elect :: "topo_order \<Rightarrow> (string \<times> NodeData) list \<Rightarrow> ClusterTopology rz_result" where
  "elect o1 nodes =
     (if nodes = [] then Inl NoLeaderAvailable
      else let vals = map snd (ord_nodes o1 nodes) in
        case max_by_count (ord_votes o1 (count_votes vals)) of
          None \<Rightarrow> Inl NoLeaderAvailable
        | Some (leader_id, _) \<Rightarrow>
            (case classify_nodes leader_id vals of
               (None, _) \<Rightarrow> Inl NoLeaderAvailable
             | (Some leader, followers) \<Rightarrow> Inr \<lparr>topo_leader = leader, topo_followers = followers\<rparr>))"

definition discover_from_seeds :: "json_env \<Rightarrow> topo_order \<Rightarrow> TopologyDiscovery \<Rightarrow> (nat \<Rightarrow> nat \<Rightarrow> http_get) \<Rightarrow> string list \<Rightarrow>
    (ClusterTopology \<times> string list) rz_result" where
  "discover_from_seeds js o1 td net seed_ids =
     (if seed_ids = [] then Inl (Validation ''roomzin seed node list is empty'')
      else let (nodes, observed_ids) = probed_nodes js o1 td net seed_ids in
        case elect o1 nodes of Inl e \<Rightarrow> Inl e | Inr topo \<Rightarrow> Inr (topo, observed_ids))"

section \<open>The discovery attempt\<close>

definition remember :: "string list \<Rightarrow> TopologyDiscovery \<Rightarrow> TopologyDiscovery" where
  "remember observed_ids td = (if observed_ids = [] then td else td\<lparr>known_node_ids := observed_ids\<rparr>)"

text \<open>What one attempt sees of the network: the probes from the known seeds, the query to RZID, and
  the probes from RZID's seeds.\<close>

record discovery_net =
  net_known :: "nat \<Rightarrow> nat \<Rightarrow> http_get"
  net_rzid :: http_get
  net_fresh :: "nat \<Rightarrow> nat \<Rightarrow> http_get"

definition discover_fallback :: "json_env \<Rightarrow> topo_order \<Rightarrow> discovery_net \<Rightarrow> TopologyDiscovery \<Rightarrow>
    ClusterTopology rz_result \<times> TopologyDiscovery" where
  "discover_fallback js o1 net td =
     (case fetch_shard_nodes (json_nodes js) (net_rzid net) (td_rzid td) of
        Inl e \<Rightarrow> (Inl e, td)
      | Inr seed_ids \<Rightarrow>
          (if seed_ids = [] then (Inl (Validation ''roomzin seed node list is empty''), td)
           else case discover_from_seeds js o1 td (net_fresh net) seed_ids of
               Inl e \<Rightarrow> (Inl e, td)
             | Inr (topo, observed_ids) \<Rightarrow> (Inr topo, remember observed_ids td)))"

definition discover :: "json_env \<Rightarrow> topo_order \<Rightarrow> discovery_net \<Rightarrow> TopologyDiscovery \<Rightarrow>
    ClusterTopology rz_result \<times> TopologyDiscovery" where
  "discover js o1 net td =
     (let seeds = known_node_ids td in
      if seeds = [] then discover_fallback js o1 net td
      else case discover_from_seeds js o1 td (net_known net) seeds of
          Inr (topo, observed_ids) \<Rightarrow> (Inr topo, remember observed_ids td)
        | Inl e \<Rightarrow> discover_fallback js o1 net td)"

section \<open>What the specification counts\<close>

definition votes_for :: "string \<Rightarrow> (string \<times> NodeData) list \<Rightarrow> nat" where
  "votes_for w nodes = length (filter (\<lambda>(_, n). nd_leader_id n = w) nodes)"

definition hosts_with :: "string \<Rightarrow> string \<Rightarrow> (string \<times> NodeData) list \<Rightarrow> string list" where
  "hosts_with health w nodes =
     map (\<lambda>(_, n). nd_host n) (filter (\<lambda>(_, n). nd_leader_id n = w \<and> nd_health n = health) nodes)"

text \<open>A cluster of two nodes.\<close>

definition sample_get :: http_get where
  "sample_get url attempt =
     (let answer = (\<lambda>t. Inr \<lparr>status = 200, status_text = ''200 OK'', body = Inr t\<rparr>) in
      if url = ''http://rzpoint/shards/s1/nodes/a'' then answer ''h1''
      else if url = ''http://rzpoint/shards/s1/nodes/b'' then answer ''h2''
      else if url = ''http://h1:8080/healthz'' then answer ''active_leader''
      else if url = ''http://h2:8080/healthz'' then answer ''active_follower''
      else if url = ''http://h1:8080/node-info'' then answer ''a''
      else if url = ''http://h2:8080/node-info'' then answer ''a''
      else if url = ''http://h1:8080/peers'' then answer ''b''
      else Inl ''unreachable'')"

definition sample_json :: json_env where
  "sample_json = \<lparr>json_nodes = (\<lambda>t. Inr [t]),
     json_info = (\<lambda>t. Inr \<lparr>node_id = ''n'', ni_zone_id = ''z'', ni_shard_id = ''s1'', ni_leader_id = t\<rparr>),
     json_peers = (\<lambda>t. Inr [t])\<rparr>"

definition sample_order :: topo_order where
  "sample_order = \<lparr>ord_peers = rev, ord_nodes = rev, ord_votes = (\<lambda>xs. xs)\<rparr>"

definition sample_discovery :: TopologyDiscovery where
  "sample_discovery = TopologyDiscovery_new
     \<lparr>rz_base_url = ''http://rzid'', rz_bridge_id = ''b1'', rz_shard_id = ''s1'', rz_zone_id = ''z1''\<rparr>
     \<lparr>rp_base_url = ''http://rzpoint'', rp_shard_id = ''s1''\<rparr> \<lparr>api_port = 8080, nc_timeout = 0\<rparr> [''a'']"

definition sample_probed :: "(string \<times> NodeData) list" where
  "sample_probed = [(''h1'', \<lparr>nd_host = ''h1'', nd_health = ''active_leader'', nd_leader_id = ''a''\<rparr>),
     (''h2'', \<lparr>nd_host = ''h2'', nd_health = ''active_follower'', nd_leader_id = ''a''\<rparr>)]"

section \<open>Lemmas\<close>

lemma mset_filter_length: "mset xs = mset ys \<Longrightarrow> length (filter P xs) = length (filter P ys)"
  by (metis mset_filter size_mset)

lemma votes_for_perm: "mset xs = mset ys \<Longrightarrow> votes_for w xs = votes_for w ys"
  unfolding votes_for_def by (rule mset_filter_length)

lemma hosts_with_perm: "mset xs = mset ys \<Longrightarrow> mset (hosts_with h w xs) = mset (hosts_with h w ys)"
  unfolding hosts_with_def by (simp add: mset_filter)

lemma count_votes_step:
  "distinct (map fst m) \<Longrightarrow>
   distinct (map fst (fold (\<lambda>node votes.
         if nd_leader_id node = [] then votes
         else AList.update (nd_leader_id node)
           ((case map_of votes (nd_leader_id node) of None \<Rightarrow> 0 | Some k \<Rightarrow> k) + 1) votes) nodes m)) \<and>
   map_of (fold (\<lambda>node votes.
         if nd_leader_id node = [] then votes
         else AList.update (nd_leader_id node)
           ((case map_of votes (nd_leader_id node) of None \<Rightarrow> 0 | Some k \<Rightarrow> k) + 1) votes) nodes m) w =
   (let c = length (filter (\<lambda>n. nd_leader_id n = w) nodes)
    in if w = [] \<or> c = 0 then map_of m w else Some ((case map_of m w of None \<Rightarrow> 0 | Some k \<Rightarrow> k) + c))"
proof (induction nodes arbitrary: m)
  case Nil
  then show ?case by simp
next
  case (Cons n ns)
  let ?m = "AList.update (nd_leader_id n) ((case map_of m (nd_leader_id n) of None \<Rightarrow> 0 | Some k \<Rightarrow> k) + 1) m"
  have "distinct (map fst ?m)" using Cons.prems by (simp add: distinct_update)
  from Cons.IH [OF this] Cons.IH [OF Cons.prems] show ?case
    by (auto simp: Let_def update_conv' split: if_splits option.splits)
qed

lemma count_votes:
  "distinct (map fst (count_votes nodes))"
  "map_of (count_votes nodes) w =
   (let c = length (filter (\<lambda>n. nd_leader_id n = w) nodes) in if w = [] \<or> c = 0 then None else Some c)"
  using count_votes_step [of "[]" nodes w] by (simp_all add: count_votes_def Let_def)

lemma max_by_count_None: "max_by_count xs = None \<longleftrightarrow> xs = []"
  by (cases xs) (auto split: option.splits)

lemma max_by_count_Some: "max_by_count xs = Some y \<Longrightarrow> y \<in> set xs \<and> (\<forall>x \<in> set xs. snd x \<le> snd y)"
proof (induction xs arbitrary: y)
  case (Cons x xs)
  show ?case
  proof (cases "max_by_count xs")
    case None
    with Cons.prems show ?thesis by (simp add: max_by_count_None)
  next
    case (Some z)
    with Cons.prems Cons.IH [OF Some] show ?thesis by (fastforce split: if_splits)
  qed
qed simp

lemma classify_step:
  "fold (\<lambda>node (leader_host, followers).
         if nd_leader_id node = w then
           (if nd_health node = ''active_leader'' then (Some (nd_host node), followers)
            else if nd_health node = ''active_follower'' then (leader_host, followers @ [nd_host node])
            else (leader_host, followers))
         else (leader_host, followers)) (map snd nodes) (l, fs) =
   ((case hosts_with ''active_leader'' w nodes of [] \<Rightarrow> l | hs \<Rightarrow> Some (last hs)),
    fs @ hosts_with ''active_follower'' w nodes)"
proof (induction nodes arbitrary: l fs)
  case Nil
  then show ?case by (simp add: hosts_with_def)
next
  case (Cons n nodes)
  then show ?case by (cases n) (auto simp: hosts_with_def split: list.splits)
qed

lemma classify_nodes_eq:
  "classify_nodes w (map snd nodes) =
   ((case hosts_with ''active_leader'' w nodes of [] \<Rightarrow> None | hs \<Rightarrow> Some (last hs)),
    hosts_with ''active_follower'' w nodes)"
  unfolding classify_nodes_def classify_step by simp

lemma votes_map_snd: "length (filter (\<lambda>n. nd_leader_id n = w) (map snd nodes)) = votes_for w nodes"
  by (induction nodes) (auto simp: votes_for_def)

lemma tally:
  "map_of (count_votes (map snd nodes)) w =
   (if w = [] \<or> votes_for w nodes = 0 then None else Some (votes_for w nodes))"
  unfolding count_votes(2) votes_map_snd Let_def ..

lemma elected:
  assumes v: "valid_topo_order o1" and m: "max_by_count (ord_votes o1 (count_votes (map snd (ord_nodes o1 nodes)))) = Some (w, c)"
  shows "w \<noteq> []" and "c = votes_for w nodes" and "0 < c" and "v' \<noteq> [] \<Longrightarrow> votes_for v' nodes \<le> c"
proof -
  let ?ns = "ord_nodes o1 nodes" and ?cv = "count_votes (map snd (ord_nodes o1 nodes))"
  have ns: "votes_for x ?ns = votes_for x nodes" for x
    using v by (intro votes_for_perm) (simp add: valid_topo_order_def)
  have st: "set (ord_votes o1 ?cv) = set ?cv"
    using v by (metis valid_topo_order_def set_mset_mset)
  have mo: "map_of ?cv x = (if x = [] \<or> votes_for x nodes = 0 then None else Some (votes_for x nodes))" for x
    unfolding tally ns ..
  have mem: "(x, k) \<in> set ?cv \<longleftrightarrow> map_of ?cv x = Some k" for x k
    using count_votes(1) by (metis map_of_eq_Some_iff)
  note mx = max_by_count_Some [OF m]
  from mx st mem [of w c] mo [of w] show "w \<noteq> []" "c = votes_for w nodes" "0 < c"
    by (auto split: if_splits)
  assume "v' \<noteq> []"
  then show "votes_for v' nodes \<le> c"
    using mx st mem [of v' "votes_for v' nodes"] mo [of v'] by (cases "votes_for v' nodes = 0") fastforce+
qed

lemma elect_InrD:
  assumes v: "valid_topo_order o1" and "elect o1 nodes = Inr topo"
  obtains w where "w \<noteq> []" and "0 < votes_for w nodes" and "\<forall>v. v \<noteq> [] \<longrightarrow> votes_for v nodes \<le> votes_for w nodes"
    and "topo_leader topo \<in> set (hosts_with ''active_leader'' w nodes)"
    and "mset (topo_followers topo) = mset (hosts_with ''active_follower'' w nodes)"
proof -
  from assms(2) obtain w c where m: "max_by_count (ord_votes o1 (count_votes (map snd (ord_nodes o1 nodes)))) = Some (w, c)"
    and cl: "classify_nodes w (map snd (ord_nodes o1 nodes)) = (Some (topo_leader topo), topo_followers topo)"
    by (auto simp: elect_def Let_def split: option.splits prod.splits if_splits)
  have p: "mset (hosts_with h w (ord_nodes o1 nodes)) = mset (hosts_with h w nodes)" for h
    using v by (intro hosts_with_perm) (simp add: valid_topo_order_def)
  from cl have "topo_leader topo \<in> set (hosts_with ''active_leader'' w (ord_nodes o1 nodes))"
    by (cases "hosts_with ''active_leader'' w (ord_nodes o1 nodes)")
      (auto simp: classify_nodes_eq split: if_splits dest: last_in_set)
  then have "topo_leader topo \<in> set (hosts_with ''active_leader'' w nodes)" using p by (metis set_mset_mset)
  moreover have "mset (topo_followers topo) = mset (hosts_with ''active_follower'' w nodes)"
    using cl p [of "''active_follower''"] by (simp add: classify_nodes_eq)
  moreover have "w \<noteq> []" "0 < votes_for w nodes" using elected(1-3) [OF v m] by simp_all
  moreover have "\<forall>v'. v' \<noteq> [] \<longrightarrow> votes_for v' nodes \<le> votes_for w nodes"
    using elected(4) [OF v m] elected(2) [OF v m] by simp
  ultimately show thesis by (intro that)
qed

lemma elect_unique:
  assumes v: "valid_topo_order o1" and w: "w \<noteq> []" "0 < votes_for w nodes" "\<forall>v. v \<noteq> [] \<longrightarrow> v \<noteq> w \<longrightarrow> votes_for v nodes < votes_for w nodes"
    and l: "hosts_with ''active_leader'' w nodes = [h]"
  shows "\<exists>topo. elect o1 nodes = Inr topo \<and> topo_leader topo = h
    \<and> mset (topo_followers topo) = mset (hosts_with ''active_follower'' w nodes)"
proof -
  have p: "mset (hosts_with x w (ord_nodes o1 nodes)) = mset (hosts_with x w nodes)" for x
    using v by (intro hosts_with_perm) (simp add: valid_topo_order_def)
  have l': "hosts_with ''active_leader'' w (ord_nodes o1 nodes) = [h]"
    using p [of "''active_leader''"] l by simp
  have "nodes \<noteq> []" using l by (auto simp: hosts_with_def)
  let ?cv = "count_votes (map snd (ord_nodes o1 nodes))"
  have ns: "votes_for x (ord_nodes o1 nodes) = votes_for x nodes" for x
    using v by (intro votes_for_perm) (simp add: valid_topo_order_def)
  have "map_of ?cv w \<noteq> None" using w unfolding tally ns by simp
  then have "?cv \<noteq> []" by auto
  then have "ord_votes o1 ?cv \<noteq> []" using v by (metis valid_topo_order_def mset_zero_iff)
  then obtain x c where m: "max_by_count (ord_votes o1 ?cv) = Some (x, c)"
    using max_by_count_None by (metis option.exhaust surj_pair)
  have "x = w" using elected [OF v m] w by (metis leD)
  with m \<open>nodes \<noteq> []\<close> l' p [of "''active_follower''"] show ?thesis
    by (simp add: elect_def Let_def classify_nodes_eq)
qed


lemma probe_node_data:
  "probe_node js td get nid = Some (n, host, d, ps) \<Longrightarrow> n = nid \<and> nd_host d = host \<and> nd_health d \<noteq> ''unavailable''"
  by (auto simp: probe_node_def Let_def split: sum.splits if_splits)

lemma probe_nodes_mem:
  "(n, host, d, ps) \<in> set (probe_nodes js td net ids) \<Longrightarrow>
   n \<in> set ids \<and> nd_host d = host \<and> nd_health d \<noteq> ''unavailable''"
  by (auto simp: probe_nodes_def in_set_enumerate_eq dest!: probe_node_data [OF sym] split: option.splits)

lemma probe_nodes_ids: "subseq (map fst (probe_nodes js td net ids)) ids"
proof -
  have "subseq (map fst (concat (map (\<lambda>(i, nid). case probe_node js td (net i) nid of None \<Rightarrow> [] | Some p \<Rightarrow> [p])
       (enumerate k ids)))) ids" for k
  proof (induction ids arbitrary: k)
    case (Cons nid ids)
    from Cons.IH [of "Suc k"] show ?case
      by (auto split: option.splits dest: probe_node_data)
  qed simp
  then show ?thesis by (simp add: probe_nodes_def)
qed

lemma discovered_peers_props:
  "distinct (discovered_peers seeds rs) \<and> set (discovered_peers seeds rs) =
     (\<Union>(_, _, _, ps) \<in> set rs. set ps) - set seeds"
proof -
  have inner: "distinct acc \<Longrightarrow> distinct (fold (\<lambda>peer acc. if peer \<in> set seeds then acc else List.insert peer acc) ps acc)
      \<and> set (fold (\<lambda>peer acc. if peer \<in> set seeds then acc else List.insert peer acc) ps acc) = set acc \<union> (set ps - set seeds)"
    for ps acc by (induction ps arbitrary: acc) auto
  have "distinct acc \<Longrightarrow>
      distinct (fold (\<lambda>(_, _, _, peers) acc. fold (\<lambda>peer acc. if peer \<in> set seeds then acc else List.insert peer acc) peers acc) rs acc)
      \<and> set (fold (\<lambda>(_, _, _, peers) acc. fold (\<lambda>peer acc. if peer \<in> set seeds then acc else List.insert peer acc) peers acc) rs acc) =
        set acc \<union> ((\<Union>(_, _, _, ps) \<in> set rs. set ps) - set seeds)" for acc
  proof (induction rs arbitrary: acc)
    case (Cons r rs)
    obtain a b c ps where r: "r = (a, b, c, ps)" by (cases r)
    from inner [OF Cons.prems, of ps] Cons.IH show ?case unfolding r by auto
  qed simp
  from this [of "[]"] show ?thesis by (simp add: discovered_peers_def)
qed

lemma insert_results_inv:
  assumes "\<forall>(n, host, d, ps) \<in> set rs. nd_host d = host \<and> nd_health d \<noteq> ''unavailable''"
    and "\<forall>(host, d) \<in> set ns. nd_host d = host \<and> nd_health d \<noteq> ''unavailable''" and "distinct (map fst ns)"
  shows "(\<forall>(host, d) \<in> set (insert_results rs ns). nd_host d = host \<and> nd_health d \<noteq> ''unavailable'')
    \<and> distinct (map fst (insert_results rs ns)) \<and> (insert_results rs ns = [] \<longrightarrow> rs = [] \<and> ns = [])"
  using assms unfolding insert_results_def
proof (induction rs arbitrary: ns)
  case (Cons r rs)
  obtain n host d ps where r: "r = (n, host, d, ps)" by (cases r)
  have "set (AList.update host d ns) \<subseteq> insert (host, d) (set ns)"
    by (induction ns) auto
  then have i: "\<forall>(host, d) \<in> set (AList.update host d ns). nd_host d = host \<and> nd_health d \<noteq> ''unavailable''"
    using Cons.prems r by fastforce
  have "distinct (map fst (AList.update host d ns))" using Cons.prems by (simp add: distinct_update)
  moreover have "AList.update host d ns \<noteq> []" by (cases ns) (auto split: if_splits)
  ultimately show ?case
    using Cons.IH [of "AList.update host d ns"] Cons.prems i unfolding r by auto
qed simp

lemma probed_nodes_props:
  assumes v: "valid_topo_order o1" and "probed_nodes js o1 td net seeds = (nodes, obs)"
  shows "(\<forall>(host, d) \<in> set nodes. nd_host d = host \<and> nd_health d \<noteq> ''unavailable'') \<and> distinct (map fst nodes)"
    and "obs = [] \<Longrightarrow> nodes = []" and "distinct seeds \<Longrightarrow> distinct obs"
proof -
  define r0 where "r0 = probe_nodes js td (net 0) seeds"
  define ps where "ps = discovered_peers seeds r0"
  define r1 where "r1 = (if ps = [] then [] else probe_nodes js td (net 1) (ord_peers o1 ps))"
  have e: "nodes = insert_results r1 (insert_results r0 [])" "obs = map fst r0 @ map fst r1"
    using assms(2) by (auto simp: probed_nodes_def Let_def r0_def ps_def r1_def)
  have w0: "\<forall>(n, host, d, ps) \<in> set r0. nd_host d = host \<and> nd_health d \<noteq> ''unavailable''"
    unfolding r0_def using probe_nodes_mem by blast
  have w1: "\<forall>(n, host, d, ps) \<in> set r1. nd_host d = host \<and> nd_health d \<noteq> ''unavailable''"
    unfolding r1_def using probe_nodes_mem by (auto split: if_splits)
  note i0 = insert_results_inv [OF w0, of "[]"]
  from i0 insert_results_inv [OF w1, of "insert_results r0 []"]
  show "(\<forall>(host, d) \<in> set nodes. nd_host d = host \<and> nd_health d \<noteq> ''unavailable'') \<and> distinct (map fst nodes)"
    by (simp add: e)
  show "nodes = []" if "obs = []" using that by (simp add: e insert_results_def)
  assume ds: "distinct seeds"
  have dp: "distinct (ord_peers o1 ps)" "set (ord_peers o1 ps) \<inter> set seeds = {}"
    using v discovered_peers_props [of seeds r0] mset_eq_imp_distinct_iff [of "ord_peers o1 ps" ps]
      mset_eq_setD [of "ord_peers o1 ps" ps] by (auto simp: valid_topo_order_def ps_def)
  have "distinct (map fst r0)" using subseq_distinct [OF probe_nodes_ids ds] by (simp add: r0_def)
  moreover have "distinct (map fst r1)"
    using subseq_distinct [OF probe_nodes_ids dp(1), of js td "net 1"] by (simp add: r1_def)
  moreover have "set (map fst r0) \<inter> set (map fst r1) = {}"
    using probe_nodes_mem dp(2) by (fastforce simp: r0_def r1_def split: if_splits)
  ultimately show "distinct obs" by (simp add: e)
qed


section \<open>Properties\<close>

text \<open>C18: Discovery from seeds that succeeds names a topology the probed nodes agree on: for some
  leader id that no other reported id outvotes, the leader is a probed host that reports this id
  and \<open>active_leader\<close>, and the followers are exactly the probed hosts that report this id and
  \<open>active_follower\<close>, each once and none of them the leader, whatever the iteration order of the
  hash maps.\<close>
theorem discovered_topology_sound:
  assumes v: "valid_topo_order o1"
    and d: "discover_from_seeds js o1 td net seed_ids = Inr (topo, observed)"
    and n: "nodes = fst (probed_nodes js o1 td net seed_ids)"
  shows "\<exists>w. w \<noteq> [] \<and> (\<forall>v. v \<noteq> [] \<longrightarrow> votes_for v nodes \<le> votes_for w nodes)
    \<and> (\<exists>d. map_of nodes (topo_leader topo) = Some d \<and> nd_leader_id d = w \<and> nd_health d = ''active_leader'')
    \<and> set (topo_followers topo) = {h. \<exists>d. map_of nodes h = Some d \<and> nd_leader_id d = w \<and> nd_health d = ''active_follower''}
    \<and> distinct (topo_leader topo # topo_followers topo)"
proof -
  obtain obs where pn: "probed_nodes js o1 td net seed_ids = (nodes, obs)"
    using n by (cases "probed_nodes js o1 td net seed_ids") auto
  have el: "elect o1 nodes = Inr topo"
    using d pn by (auto simp: discover_from_seeds_def split: if_splits sum.splits)
  have dn: "distinct (map fst nodes)" and hosts: "\<And>h d. (h, d) \<in> set nodes \<Longrightarrow> nd_host d = h"
    using probed_nodes_props(1) [OF v pn] by auto
  have mem: "h \<in> set (hosts_with x w nodes) \<longleftrightarrow> (\<exists>d. map_of nodes h = Some d \<and> nd_leader_id d = w \<and> nd_health d = x)" for h x w
    using dn hosts by (fastforce simp: hosts_with_def)
  have dist: "distinct (hosts_with x w nodes)" for x w
    using dn hosts unfolding hosts_with_def
    by (auto simp: distinct_map inj_on_def intro!: distinct_filter)
  from elect_InrD [OF v el] obtain w where w: "w \<noteq> []" "\<forall>v. v \<noteq> [] \<longrightarrow> votes_for v nodes \<le> votes_for w nodes"
    "topo_leader topo \<in> set (hosts_with ''active_leader'' w nodes)"
    "mset (topo_followers topo) = mset (hosts_with ''active_follower'' w nodes)" by metis
  have f: "set (topo_followers topo) = set (hosts_with ''active_follower'' w nodes)"
    "distinct (topo_followers topo)"
    using w(4) dist by (metis set_mset_mset, metis mset_eq_imp_distinct_iff)
  have "topo_leader topo \<notin> set (topo_followers topo)" using w(3) unfolding f(1) mem by auto
  then show ?thesis using w(1,2,3) f mem by auto
qed

text \<open>Election does not depend on the iteration order of the hash maps when it is clear: if one
  leader id is reported strictly more often than every other and exactly one host that reports it
  is an \<open>active_leader\<close>, then that host is elected and its followers are found.\<close>
lemma clear_election_is_deterministic:
  assumes "valid_topo_order o1" and "w \<noteq> []" and "0 < votes_for w nodes"
    and "\<forall>v. v \<noteq> [] \<longrightarrow> v \<noteq> w \<longrightarrow> votes_for v nodes < votes_for w nodes"
    and "hosts_with ''active_leader'' w nodes = [h]"
  shows "\<exists>topo. elect o1 nodes = Inr topo \<and> topo_leader topo = h
    \<and> mset (topo_followers topo) = mset (hosts_with ''active_follower'' w nodes)"
  using assms by (rule elect_unique)

lemma remember_known: "obs \<noteq> [] \<Longrightarrow> known_node_ids (remember obs td) = obs"
  by (simp add: remember_def)

lemma discover_from_seeds_observed:
  assumes v: "valid_topo_order o1" and d: "discover_from_seeds js o1 td net seeds = Inr (topo, obs)"
  shows "obs \<noteq> []" and "distinct seeds \<Longrightarrow> distinct obs"
proof -
  obtain nodes where pn: "probed_nodes js o1 td net seeds = (nodes, obs)" and el: "elect o1 nodes = Inr topo"
    using d by (auto simp: discover_from_seeds_def split: if_splits sum.splits prod.splits)
  from el have "nodes \<noteq> []" by (auto simp: elect_def)
  with probed_nodes_props [OF v pn] show "obs \<noteq> []" "distinct seeds \<Longrightarrow> distinct obs" by auto
qed



lemma sample_order_valid: "valid_topo_order sample_order"
  by (simp add: valid_topo_order_def sample_order_def)



lemma sample_port: "show_nat 8080 = ''8080''"
proof -
  have "char_of (56 :: nat) = CHR ''8''" "char_of (48 :: nat) = CHR ''0''" by code_simp+
  then show ?thesis by (simp add: show_nat.simps digit_char_def)
qed

lemma sample_trim: "trim ''h1'' = ''h1''" "trim ''h2'' = ''h2''" 
  "trim ''active_leader'' = ''active_leader''" "trim ''active_follower'' = ''active_follower''"
  by (rule trim_graph; simp add: graph_char_def)+

lemma sample_resolve:
  "fst (resolve sample_get (td_resolver sample_discovery) ''a'') = Inr ''h1''"
  "fst (resolve sample_get (td_resolver sample_discovery) ''b'') = Inr ''h2''"
  by (simp_all add: resolve_def numeral_3_eq_3 resolve_attempt_def sample_discovery_def TopologyDiscovery_new_def
      resolve_url_def sample_get_def is_success_def sample_trim)

lemma sample_probe:
  "probe_node sample_json sample_discovery sample_get ''a'' =
     Some (''a'', ''h1'', \<lparr>nd_host = ''h1'', nd_health = ''active_leader'', nd_leader_id = ''a''\<rparr>, [''b''])"
  "probe_node sample_json sample_discovery sample_get ''b'' =
     Some (''b'', ''h2'', \<lparr>nd_host = ''h2'', nd_health = ''active_follower'', nd_leader_id = ''a''\<rparr>, [])"
  unfolding probe_node_def sample_resolve
  by (simp_all add: node_health_def node_info_def node_peers_def node_http_get_def node_addr_def sample_json_def
    sample_discovery_def TopologyDiscovery_new_def sample_get_def is_success_def sample_trim sample_port)

lemma sample_probed_eq:
  "probed_nodes sample_json sample_order sample_discovery (\<lambda>_ _. sample_get) [''a''] = (sample_probed, [''a'', ''b''])"
  by (simp add: probed_nodes_def probe_nodes_def sample_probe discovered_peers_def insert_results_def
      sample_order_def sample_probed_def)

lemma sample_discovered:
  "discover_from_seeds sample_json sample_order sample_discovery (\<lambda>_ _. sample_get) [''a''] =
     Inr (\<lparr>topo_leader = ''h1'', topo_followers = [''h2'']\<rparr>, [''a'', ''b''])"
  by (simp add: discover_from_seeds_def sample_probed_eq)
     (simp add: elect_def sample_probed_def sample_order_def count_votes_def classify_nodes_def)

lemma discovered_topology_sound_witness:
  "\<exists>w. w \<noteq> [] \<and> (\<forall>v. v \<noteq> [] \<longrightarrow> votes_for v sample_probed \<le> votes_for w sample_probed)
    \<and> (\<exists>d. map_of sample_probed ''h1'' = Some d \<and> nd_leader_id d = w \<and> nd_health d = ''active_leader'')
    \<and> set [''h2''] = {h. \<exists>d. map_of sample_probed h = Some d \<and> nd_leader_id d = w \<and> nd_health d = ''active_follower''}"
  using discovered_topology_sound [OF sample_order_valid sample_discovered sample_probed_eq [THEN arg_cong, of fst, simplified, symmetric]]
  by simp


end
