(* ===== verification/Rz_Cluster.thy ===== *)
theory Rz_Cluster
  imports Rz_Connection Rz_Topology
begin

text \<open>
  \<^verbatim>\<open>src/cluster_handler.rs\<close> without \<^verbatim>\<open>execute\<close> (theory \<open>Rz_Execute\<close>): the pool of connections
  to the leader and the followers, its synchronisation with the discovered topology and the
  round-robin choice of a connection. A \<^verbatim>\<open>Connection\<close> is a shared reference, so the handler
  stores indices into \<open>heap\<close>, the list of all connections made so far; \<open>dials\<close> counts the
  calls of \<^verbatim>\<open>Connection::connect\<close>, whose outcomes are a parameter. \<^verbatim>\<open>u32\<close> indices are natural
  numbers with the casts and wrap-around written out by \<open>as_u32\<close>. Hash maps are association lists;
  the order of an iteration over one is given by \<open>hash_order\<close>. \<open>None\<close> is a panic.
\<close>

section \<open>State\<close>

type_synonym conn_ref = nat
type_synonym follower_key = "string \<times> nat \<times> nat"
type_synonym dialer = "nat \<Rightarrow> string \<Rightarrow> string + unit"

record load_balancer =
  follower_history :: "((string \<times> nat) \<times> nat) list"
  last_node_id :: nat
  last_leader_id :: nat

record cluster =
  cl_cfg :: Config
  discovery :: TopologyDiscovery
  leader_conns :: "conn_ref option list"
  leader_host :: "string option"
  followers :: "(follower_key \<times> conn_ref) list"
  lb :: load_balancer
  syncing :: bool
  heap :: "conn list"
  dials :: nat

record hash_order =
  ord_followers :: "(follower_key \<times> conn_ref) list \<Rightarrow> (follower_key \<times> conn_ref) list"
  ord_history :: "((string \<times> nat) \<times> nat) list \<Rightarrow> ((string \<times> nat) \<times> nat) list"
  ord_required :: "(string \<times> nat) list \<Rightarrow> (string \<times> nat) list"
  ord_new :: "(string \<times> conn_ref option list) list \<Rightarrow> (string \<times> conn_ref option list) list"

definition valid_hash_order :: "hash_order \<Rightarrow> bool" where
  "valid_hash_order ho \<longleftrightarrow> (\<forall>xs. mset (ord_followers ho xs) = mset xs) \<and> (\<forall>xs. mset (ord_history ho xs) = mset xs)
     \<and> (\<forall>xs. mset (ord_required ho xs) = mset xs) \<and> (\<forall>xs. mset (ord_new ho xs) = mset xs)"

abbreviation per_node :: "cluster \<Rightarrow> nat" where
  "per_node s \<equiv> conn_per_roomzin_node (cl_cfg s)"

definition ClusterHandler_new :: "Config \<Rightarrow> TopologyDiscovery \<Rightarrow> cluster" where
  "ClusterHandler_new cfg td =
     \<lparr>cl_cfg = cfg, discovery = td, leader_conns = replicate (conn_per_roomzin_node cfg) None,
      leader_host = None, followers = [],
      lb = \<lparr>follower_history = [], last_node_id = 0, last_leader_id = 0\<rparr>,
      syncing = False, heap = [], dials = 0\<rparr>"

definition conn_closed :: "cluster \<Rightarrow> conn_ref \<Rightarrow> bool" where
  "conn_closed s r = is_closed (heap s ! r)"

text \<open>\<^verbatim>\<open>Connection::connect(host, &cfg, DemuxMap::new())\<close>\<close>

definition open_conn :: "dialer \<Rightarrow> string \<Rightarrow> cluster \<Rightarrow> conn_ref rz_result \<times> cluster" where
  "open_conn dial host s =
     (case connect host (cl_cfg s) demux_new (dial (dials s) host) of
        Inl e \<Rightarrow> (Inl e, s\<lparr>dials := dials s + 1\<rparr>)
      | Inr c \<Rightarrow> (Inr (length (heap s)), s\<lparr>dials := dials s + 1, heap := heap s @ [c]\<rparr>))"

text \<open>\<^verbatim>\<open>c.inner.demux.cleanup(Duration::from_secs(timeout_sec * 2))\<close>\<close>

definition cleanup_conn :: "instant \<Rightarrow> conn_ref \<Rightarrow> cluster \<Rightarrow> cluster \<times> (tx \<times> bytes) list" where
  "cleanup_conn now r s =
     (case demux_cleanup now (from_secs (timeout_sec (cl_cfg s) * 2)) (entries (heap s ! r)) of
        (m, sends) \<Rightarrow> (s\<lparr>heap := (heap s)[r := (heap s ! r)\<lparr>entries := m\<rparr>]\<rparr>, sends))"

section \<open>Synchronising the leader's connections\<close>

definition reset_leader :: "string \<Rightarrow> cluster \<Rightarrow> cluster" where
  "reset_leader host s =
     (if leader_host s = Some host then s
      else s\<lparr>leader_conns := map (\<lambda>_. None) (leader_conns s), leader_host := Some host\<rparr>)"

definition required_slots :: "cluster \<Rightarrow> nat list" where
  "required_slots s =
     map fst (filter (\<lambda>(_, x). case x of Some r \<Rightarrow> conn_closed s r | None \<Rightarrow> True)
       (enumerate 0 (leader_conns s)))"

definition fill_slot :: "dialer \<Rightarrow> string \<Rightarrow> nat \<Rightarrow> cluster \<Rightarrow> cluster option" where
  "fill_slot dial host i s =
     (case open_conn dial host s of
        (Inl _, s1) \<Rightarrow> Some s1
      | (Inr r, s1) \<Rightarrow>
          (if i < length (leader_conns s1)
           then Some (s1\<lparr>leader_conns := (leader_conns s1)[i := Some r], leader_host := Some host\<rparr>)
           else None))"

fun fill_slots :: "dialer \<Rightarrow> string \<Rightarrow> nat list \<Rightarrow> cluster \<Rightarrow> cluster option" where
  "fill_slots dial host [] s = Some s"
| "fill_slots dial host (i # is) s = fill_slot dial host i s \<bind> fill_slots dial host is"

definition sync_leader :: "dialer \<Rightarrow> string \<Rightarrow> cluster \<Rightarrow> cluster option" where
  "sync_leader dial host s =
     (let s1 = reset_leader host s in fill_slots dial host (required_slots s1) s1)"

section \<open>Synchronising the followers' connections\<close>

text \<open>First part: which nodes need how many connections.\<close>

definition current_node_ids :: "hash_order \<Rightarrow> cluster \<Rightarrow> (string \<times> nat) list" where
  "current_node_ids ho s = map (\<lambda>((name, i, _), _). (name, i)) (ord_followers ho (followers s))"

fun require_known :: "nat \<Rightarrow> (string \<times> nat) list \<Rightarrow> (string \<times> nat) list \<Rightarrow> (string \<times> nat) list \<Rightarrow> (string \<times> nat) list option" where
  "require_known n cur [] req = Some req"
| "require_known n cur ((name, _) # ids) req = do {
     required \<leftarrow> checked_sub n (length (filter (\<lambda>(x, _). x = name) cur));
     require_known n cur ids (if required > 0 then AList.update name (as_u32 required) req else req)
   }"

definition required_conns :: "hash_order \<Rightarrow> string list \<Rightarrow> cluster \<Rightarrow> (string \<times> nat) list option" where
  "required_conns ho names s =
     (let cur = current_node_ids ho s;
          fresh = fold (\<lambda>name req. if name \<in> fst ` set cur then req else AList.update name (as_u32 (per_node s)) req) names []
      in require_known (per_node s) cur cur fresh)"

text \<open>Second part: open them. No lock is held here.\<close>

definition dial_one :: "dialer \<Rightarrow> string \<Rightarrow> (string \<times> conn_ref option list) list \<Rightarrow> cluster \<Rightarrow>
    (string \<times> conn_ref option list) list \<times> cluster" where
  "dial_one dial host new s =
     (case open_conn dial host s of
        (Inl _, s1) \<Rightarrow> (new, s1)
      | (Inr r, s1) \<Rightarrow>
          (AList.update host ((case map_of new host of None \<Rightarrow> [] | Some v \<Rightarrow> v) @ [Some r]) new, s1))"

fun dial_node :: "dialer \<Rightarrow> string \<Rightarrow> nat \<Rightarrow> (string \<times> conn_ref option list) list \<Rightarrow> cluster \<Rightarrow>
    (string \<times> conn_ref option list) list \<times> cluster" where
  "dial_node dial host 0 new s = (new, s)"
| "dial_node dial host (Suc k) new s =
     (case dial_one dial host new s of (new1, s1) \<Rightarrow> dial_node dial host k new1 s1)"

fun dial_all :: "dialer \<Rightarrow> (string \<times> nat) list \<Rightarrow> (string \<times> conn_ref option list) list \<Rightarrow> cluster \<Rightarrow>
    (string \<times> conn_ref option list) list \<times> cluster" where
  "dial_all dial [] new s = (new, s)"
| "dial_all dial ((host, cnt) # req) new s =
     (case dial_node dial host cnt new s of (new1, s1) \<Rightarrow> dial_all dial req new1 s1)"

text \<open>Third part: store them under the write lock of the followers' map.\<close>

definition free_node_ids :: "nat list \<Rightarrow> nat \<Rightarrow> nat list" where
  "free_node_ids cur len =
     fold (\<lambda>i free. if i \<notin> set cur \<and> i \<notin> set free then free @ [i] else free) [0..<as_u32 len] []"

definition assigned_node_ids :: "((string \<times> nat) \<times> nat) list \<Rightarrow> (string \<times> nat) list" where
  "assigned_node_ids history = fold (\<lambda>((name, i), _) m. AList.update name i m) history []"

definition free_conn_ids :: "hash_order \<Rightarrow> string \<Rightarrow> cluster \<Rightarrow> nat list" where
  "free_conn_ids ho name s =
     (let cur = map (\<lambda>((_, _, i), _). i)
            (filter (\<lambda>((n, _, _), c). name = n \<and> \<not> conn_closed s c) (ord_followers ho (followers s)))
      in filter (\<lambda>i. i \<notin> set cur) [0..<as_u32 (per_node s)])"

text \<open>The choice of a node index; \<open>None\<close> is the \<^verbatim>\<open>continue\<close> when none is free. \<^verbatim>\<open>Vec::pop\<close> takes the last element.\<close>

definition choose_node_id :: "hash_order \<Rightarrow> string \<Rightarrow> nat list \<Rightarrow> (string \<times> nat) list \<Rightarrow> cluster \<Rightarrow>
    (nat \<times> nat list \<times> (string \<times> nat) list) option" where
  "choose_node_id ho name free asg s =
     (let nidx = (case find (\<lambda>((n, _, _), _). name = n) (ord_followers ho (followers s)) of
            None \<Rightarrow> 0 | Some ((_, i, _), _) \<Rightarrow> i)
      in if nidx \<noteq> 0 then Some (nidx, free, asg)
         else case map_of asg name of
             Some i \<Rightarrow> Some (i, free, asg)
           | None \<Rightarrow>
               (if free = [] then None
                else Some (last free, butlast free, AList.update name (last free) asg)))"

text \<open>\<^verbatim>\<open>entry(key).or_insert(v)\<close>\<close>

definition or_insert :: "'k \<Rightarrow> 'v \<Rightarrow> ('k \<times> 'v) list \<Rightarrow> ('k \<times> 'v) list" where
  "or_insert k v m = (case map_of m k of None \<Rightarrow> AList.update k v m | Some _ \<Rightarrow> m)"

fun store_conns :: "string \<Rightarrow> nat \<Rightarrow> nat list \<Rightarrow> nat \<Rightarrow> conn_ref option list \<Rightarrow> cluster \<Rightarrow> cluster option" where
  "store_conns name nidx free i [] s = Some s"
| "store_conns name nidx free i (None # conns) s = store_conns name nidx free (Suc i) conns s"
| "store_conns name nidx free i (Some c # conns) s = do {
     cid \<leftarrow> idx free i;
     store_conns name nidx free (Suc i) conns
       (s\<lparr>followers := AList.update (name, nidx, cid) c (followers s),
          lb := (lb s)\<lparr>follower_history := or_insert (name, nidx) cid (follower_history (lb s))\<rparr>\<rparr>)
   }"

fun commit_nodes :: "hash_order \<Rightarrow> (string \<times> conn_ref option list) list \<Rightarrow> nat list \<Rightarrow> (string \<times> nat) list \<Rightarrow> cluster \<Rightarrow> cluster option" where
  "commit_nodes ho [] free asg s = Some s"
| "commit_nodes ho ((name, conns) # new) free asg s =
     (case choose_node_id ho name free asg s of
        None \<Rightarrow> commit_nodes ho new free asg s
      | Some (nidx, free1, asg1) \<Rightarrow>
          store_conns name nidx (free_conn_ids ho name s) 0 conns s \<bind> commit_nodes ho new free1 asg1)"

definition commit_followers :: "hash_order \<Rightarrow> string list \<Rightarrow> (string \<times> conn_ref option list) list \<Rightarrow> cluster \<Rightarrow> cluster option" where
  "commit_followers ho names new s =
     commit_nodes ho (ord_new ho new)
       (free_node_ids (map (\<lambda>((_, i, _), _). i) (ord_followers ho (followers s))) (length names))
       (assigned_node_ids (ord_history ho (follower_history (lb s)))) s"

definition sync_followers :: "hash_order \<Rightarrow> dialer \<Rightarrow> string list \<Rightarrow> cluster \<Rightarrow> cluster option" where
  "sync_followers ho dial names s = do {
     req \<leftarrow> required_conns ho names s;
     let (new, s1) = dial_all dial (ord_required ho req) [] s;
     commit_followers ho names new s1
   }"

section \<open>Choosing a connection\<close>

fun try_conns :: "instant \<Rightarrow> string \<Rightarrow> nat \<Rightarrow> nat \<Rightarrow> nat \<Rightarrow> cluster \<Rightarrow>
    conn_ref option \<times> cluster \<times> (tx \<times> bytes) list" where
  "try_conns now name nidx 0 cid s = (None, s, [])"
| "try_conns now name nidx (Suc left) cid s =
     (let key = (name, nidx, cid); n = as_u32 (per_node s);
          next_cid = (if as_u32 (cid + 1) \<ge> n then 0 else as_u32 (cid + 1))
      in case map_of (followers s) key of
           None \<Rightarrow> try_conns now name nidx left next_cid s
         | Some c \<Rightarrow>
             (if conn_closed s c then
                (let (s1, sends) = cleanup_conn now c s;
                     (res, s2, sends2) =
                       try_conns now name nidx left next_cid (s1\<lparr>followers := AList.delete key (followers s1)\<rparr>)
                 in (res, s2, sends @ sends2))
              else
                (Some c,
                 s\<lparr>lb := (lb s)\<lparr>last_node_id := nidx,
                   follower_history :=
                     (case map_of (follower_history (lb s)) (name, nidx) of
                        Some _ \<Rightarrow> AList.update (name, nidx) (as_u32 (cid + 1) mod n) (follower_history (lb s))
                      | None \<Rightarrow> AList.update (name, nidx) 1 (follower_history (lb s)))\<rparr>\<rparr>,
                 [])))"

text \<open>The node index a turn of the outer loop looks at.\<close>

definition next_node :: "cluster \<Rightarrow> nat" where
  "next_node s =
     (let next0 = as_u32 (last_node_id (lb s) + 1)
      in if next0 \<ge> length (follower_history (lb s)) then 0 else next0)"

text \<open>One turn of the outer loop, done under the load balancer's lock.\<close>

definition follower_round :: "hash_order \<Rightarrow> instant \<Rightarrow> cluster \<Rightarrow> conn_ref option \<times> cluster \<times> (tx \<times> bytes) list" where
  "follower_round ho now s =
     (let history = follower_history (lb s);
          next = next_node s;
          s1 = s\<lparr>lb := (lb s)\<lparr>last_node_id := as_u32 next\<rparr>\<rparr>
      in case find (\<lambda>((_, nidx), _). nidx = as_u32 next) (ord_history ho history) of
           None \<Rightarrow> (None, s1, [])
         | Some ((name, nidx), v) \<Rightarrow>
             try_conns now name nidx (per_node s) (if v \<ge> as_u32 (per_node s) then 0 else v) s1)"

fun follower_rounds :: "hash_order \<Rightarrow> instant \<Rightarrow> nat \<Rightarrow> cluster \<Rightarrow> conn_ref option \<times> cluster \<times> (tx \<times> bytes) list" where
  "follower_rounds ho now 0 s = (None, s, [])"
| "follower_rounds ho now (Suc k) s =
     (case follower_round ho now s of
        (Some c, s1, sends) \<Rightarrow> (Some c, s1, sends)
      | (None, s1, sends) \<Rightarrow>
          (let (res, s2, sends2) = follower_rounds ho now k s1 in (res, s2, sends @ sends2)))"

definition next_follower_conn :: "hash_order \<Rightarrow> instant \<Rightarrow> cluster \<Rightarrow> conn_ref option \<times> cluster \<times> (tx \<times> bytes) list" where
  "next_follower_conn ho now s = follower_rounds ho now (length (follower_history (lb s))) s"

text \<open>The search for a leader connection; \<^verbatim>\<open>ld_vec.get(next).take()\<close> takes from a temporary and
  changes nothing.\<close>

fun try_leaders :: "instant \<Rightarrow> nat \<Rightarrow> nat \<Rightarrow> cluster \<Rightarrow> conn_ref option \<times> cluster \<times> (tx \<times> bytes) list" where
  "try_leaders now 0 nxt s = (None, s, [])"
| "try_leaders now (Suc left) nxt s =
     (let nxt' = (if nxt + 1 \<ge> per_node s then 0 else nxt + 1)
      in case (if nxt < length (leader_conns s) then leader_conns s ! nxt else None) of
           None \<Rightarrow> try_leaders now left nxt' s
         | Some c \<Rightarrow>
             (if conn_closed s c then
                (let (s1, sends) = cleanup_conn now c s; (res, s2, sends2) = try_leaders now left nxt' s1
                 in (res, s2, sends @ sends2))
              else (Some c, s\<lparr>lb := (lb s)\<lparr>last_leader_id := as_u32 nxt\<rparr>\<rparr>, [])))"

definition next_leader_conn :: "instant \<Rightarrow> cluster \<Rightarrow> conn_ref option \<times> cluster \<times> (tx \<times> bytes) list" where
  "next_leader_conn now s =
     (let next0 = as_u32 (last_leader_id (lb s) + 1);
          nxt = (if next0 \<ge> per_node s then 0 else next0)
      in if leader_conns s = [] \<or> (\<forall>x \<in> set (leader_conns s). x = None) then (None, s, [])
         else try_leaders now (min (per_node s) (length (leader_conns s))) nxt s)"

section \<open>The synchronisation task\<close>

text \<open>\<^verbatim>\<open>sync_with_cluster\<close>; the discovery's network and JSON decoders are parameters.\<close>

definition apply_topology :: "hash_order \<Rightarrow> dialer \<Rightarrow> ClusterTopology \<Rightarrow> cluster \<Rightarrow> cluster option" where
  "apply_topology ho dial topo s =
     sync_leader dial (topo_leader topo) s \<bind> sync_followers ho dial (topo_followers topo)"

definition sync_with_cluster :: "json_env \<Rightarrow> topo_order \<Rightarrow> discovery_net \<Rightarrow> hash_order \<Rightarrow> dialer \<Rightarrow> cluster \<Rightarrow> cluster option" where
  "sync_with_cluster js o1 net ho dial s =
     (if syncing s then Some s
      else case discover js o1 net (discovery s) of
          (Inl _, td) \<Rightarrow> Some (s\<lparr>discovery := td, syncing := False\<rparr>)
        | (Inr topo, td) \<Rightarrow>
            map_option (\<lambda>s2. s2\<lparr>syncing := False\<rparr>)
              (apply_topology ho dial topo (s\<lparr>discovery := td, syncing := True\<rparr>)))"

definition any_leader_conn :: "cluster \<Rightarrow> bool" where
  "any_leader_conn s \<longleftrightarrow> (\<exists>x \<in> set (leader_conns s). case x of Some c \<Rightarrow> \<not> conn_closed s c | None \<Rightarrow> False)"

definition any_follower_conn :: "cluster \<Rightarrow> bool" where
  "any_follower_conn s \<longleftrightarrow> (\<exists>(_, c) \<in> set (followers s). \<not> conn_closed s c)"

datatype sync_event = Fast_Tick | Slow_Tick | Sync_Cancelled

text \<open>One turn of the loop of \<^verbatim>\<open>sync_task\<close>: \<open>None\<close> is a panic, \<open>Some (s, running)\<close> the state
  and whether the loop goes on.\<close>

definition sync_turn :: "json_env \<Rightarrow> topo_order \<Rightarrow> discovery_net \<Rightarrow> hash_order \<Rightarrow> dialer \<Rightarrow> sync_event \<Rightarrow> cluster \<Rightarrow> (cluster \<times> bool) option" where
  "sync_turn js o1 net ho dial e s =
     (case e of
        Sync_Cancelled \<Rightarrow> Some (s, False)
      | Fast_Tick \<Rightarrow>
          (if \<not> any_leader_conn s \<or> \<not> any_follower_conn s
           then map_option (\<lambda>s1. (s1, True)) (sync_with_cluster js o1 net ho dial s) else Some (s, True))
      | Slow_Tick \<Rightarrow> map_option (\<lambda>s1. (s1, True)) (sync_with_cluster js o1 net ho dial s))"

section \<open>Synchronisation interleaved with requests\<close>

text \<open>
  The synchronisation gives up its locks between its parts, and requests choose connections in
  between. \<open>sync_phase\<close> is the position of the one running synchronisation (\<^verbatim>\<open>syncing\<close> keeps a
  second one out), with its local variables. Between any two steps a connection's own tasks
  may change that connection in any way.
\<close>

datatype sync_phase =
    Sync_Idle
  | Sync_Reset string "string list"
  | Sync_Scan string "string list"
  | Sync_Fill string "nat list" "string list"
  | Sync_Plan "string list"
  | Sync_Dial "string list" "(string \<times> nat) list" "(string \<times> conn_ref option list) list"

inductive cluster_step :: "cluster \<times> sync_phase \<Rightarrow> cluster \<times> sync_phase \<Rightarrow> bool" where
  sync_start: "\<not> syncing s \<Longrightarrow> discover js o1 net (discovery s) = (Inr topo, td) \<Longrightarrow>
    cluster_step (s, Sync_Idle)
      (s\<lparr>discovery := td, syncing := True\<rparr>, Sync_Reset (topo_leader topo) (topo_followers topo))"
| sync_failed: "\<not> syncing s \<Longrightarrow> discover js o1 net (discovery s) = (Inl e, td) \<Longrightarrow>
    cluster_step (s, Sync_Idle) (s\<lparr>discovery := td\<rparr>, Sync_Idle)"
| sync_reset: "cluster_step (s, Sync_Reset host names) (reset_leader host s, Sync_Scan host names)"
| sync_scan: "cluster_step (s, Sync_Scan host names) (s, Sync_Fill host (required_slots s) names)"
| sync_fill: "fill_slot dial host i s = Some t \<Longrightarrow>
    cluster_step (s, Sync_Fill host (i # is) names) (t, Sync_Fill host is names)"
| sync_filled: "cluster_step (s, Sync_Fill host [] names) (s, Sync_Plan names)"
| sync_plan: "valid_hash_order ho \<Longrightarrow> required_conns ho names s = Some req \<Longrightarrow>
    cluster_step (s, Sync_Plan names) (s, Sync_Dial names (ord_required ho req) [])"
| sync_dial: "dial_one dial host new s = (new', t) \<Longrightarrow>
    cluster_step (s, Sync_Dial names ((host, Suc k) # req) new) (t, Sync_Dial names ((host, k) # req) new')"
| sync_dialed: "cluster_step (s, Sync_Dial names ((host, 0) # req) new) (s, Sync_Dial names req new)"
| sync_commit: "valid_hash_order ho \<Longrightarrow> commit_followers ho names new s = Some t \<Longrightarrow>
    cluster_step (s, Sync_Dial names [] new) (t\<lparr>syncing := False\<rparr>, Sync_Idle)"
| pick_follower: "valid_hash_order ho \<Longrightarrow> follower_round ho now s = (res, t, sends) \<Longrightarrow>
    cluster_step (s, p) (t, p)"
| pick_leader: "next_leader_conn now s = (res, t, sends) \<Longrightarrow> cluster_step (s, p) (t, p)"
| conn_activity: "r < length (heap s) \<Longrightarrow> cluster_step (s, p) (s\<lparr>heap := (heap s)[r := c]\<rparr>, p)"

inductive cluster_reachable :: "Config \<Rightarrow> TopologyDiscovery \<Rightarrow> cluster \<times> sync_phase \<Rightarrow> bool" for cfg td where
  cluster_start: "cluster_reachable cfg td (ClusterHandler_new cfg td, Sync_Idle)"
| cluster_more: "cluster_reachable cfg td x \<Longrightarrow> cluster_step x y \<Longrightarrow> cluster_reachable cfg td y"

text \<open>What the next operation of the synchronisation returns without a panic.\<close>

definition sync_safe :: "cluster \<Rightarrow> sync_phase \<Rightarrow> bool" where
  "sync_safe s p = (case p of
     Sync_Fill host (i # is) names \<Rightarrow> \<forall>dial. fill_slot dial host i s \<noteq> None
   | Sync_Plan names \<Rightarrow> \<forall>ho. valid_hash_order ho \<longrightarrow> required_conns ho names s \<noteq> None
   | Sync_Dial names [] new \<Rightarrow> \<forall>ho. valid_hash_order ho \<longrightarrow> commit_followers ho names new s \<noteq> None
   | _ \<Rightarrow> True)"

end
