(* ===== verification/Rz_Cluster_Inv.thy ===== *)
theory Rz_Cluster_Inv
  imports Rz_Cluster
begin

text \<open>
  The invariant of the connection pool (\<open>cluster_inv\<close>) and its preservation by every operation of
  theory \<open>Rz_Cluster\<close>: \<open>pool_inv\<close> speaks of the followers' map and the load balancer's
  history, \<open>pending_ok\<close> of a synchronisation that has planned and dialed but not yet committed,
  \<open>try_conns_spec\<close>, \<open>follower_round_spec\<close> and \<open>next_leader_spec\<close> say what the choice of a
  connection returns and keeps. The last part is the rule induction over the interleavings.
\<close>

section \<open>Definitions\<close>

definition pool_inv :: "nat \<Rightarrow> nat \<Rightarrow> (follower_key \<times> conn_ref) list \<Rightarrow> ((string \<times> nat) \<times> nat) list \<Rightarrow> bool" where
  "pool_inv n hl fo hi \<longleftrightarrow> distinct (map fst fo) \<and> distinct (map fst hi)
     \<and> (\<forall>nm i c r. map_of fo (nm, i, c) = Some r \<longrightarrow> c < n \<and> map_of hi (nm, i) \<noteq> None \<and> r < hl)
     \<and> (\<forall>nm i j. map_of hi (nm, i) \<noteq> None \<longrightarrow> map_of hi (nm, j) \<noteq> None \<longrightarrow> i = j)
     \<and> (\<forall>k v. map_of hi k = Some v \<longrightarrow> v < n)"

definition cluster_inv :: "cluster \<Rightarrow> bool" where
  "cluster_inv s \<longleftrightarrow> per_node s < 2 ^ 32 \<and> length (leader_conns s) = per_node s
     \<and> (\<forall>r. Some r \<in> set (leader_conns s) \<longrightarrow> r < length (heap s))
     \<and> pool_inv (per_node s) (length (heap s)) (followers s) (follower_history (lb s))"

definition conns_of :: "string \<Rightarrow> (follower_key \<times> conn_ref) list \<Rightarrow> nat" where
  "conns_of nm fo = length (filter (\<lambda>((x, _, _), _). x = nm) fo)"

text \<open>Opening connections.\<close>

definition same_pool :: "cluster \<Rightarrow> cluster \<Rightarrow> bool" where
  "same_pool s t \<longleftrightarrow> cl_cfg t = cl_cfg s \<and> followers t = followers s \<and> lb t = lb s
     \<and> length (heap s) \<le> length (heap t) \<and> take (length (heap s)) (heap t) = heap s \<and> syncing t = syncing s
     \<and> discovery t = discovery s"

definition new_len :: "string \<Rightarrow> (string \<times> conn_ref option list) list \<Rightarrow> nat" where
  "new_len nm new = (case map_of new nm of None \<Rightarrow> 0 | Some cs \<Rightarrow> length cs)"

definition todo :: "string \<Rightarrow> (string \<times> nat) list \<Rightarrow> nat" where
  "todo nm req = sum_list (map snd (filter (\<lambda>(x, _). x = nm) req))"

definition pending_ok :: "cluster \<Rightarrow> (string \<times> nat) list \<Rightarrow> (string \<times> conn_ref option list) list \<Rightarrow> bool" where
  "pending_ok s req new \<longleftrightarrow> distinct (map fst new)
     \<and> (\<forall>nm cs r. map_of new nm = Some cs \<longrightarrow> Some r \<in> set cs \<longrightarrow> r < length (heap s))
     \<and> (\<forall>nm. new_len nm new + todo nm req + conns_of nm (followers s) \<le> per_node s)"

text \<open>The plan never asks for more than a node may have.\<close>

definition plan_ok :: "nat \<Rightarrow> (follower_key \<times> conn_ref) list \<Rightarrow> (string \<times> nat) list \<Rightarrow> bool" where
  "plan_ok n fo req \<longleftrightarrow> distinct (map fst req) \<and> (\<forall>nm k. map_of req nm = Some k \<longrightarrow> k + conns_of nm fo \<le> n)"

text \<open>Committing the new connections.\<close>

definition asg_ok :: "(string \<times> nat) list \<Rightarrow> ((string \<times> nat) \<times> nat) list \<Rightarrow> bool" where
  "asg_ok asg hi \<longleftrightarrow> (\<forall>nm i. map_of hi (nm, i) \<noteq> None \<longrightarrow> map_of asg nm = Some i)"

definition same_rest :: "cluster \<Rightarrow> cluster \<Rightarrow> bool" where
  "same_rest s t \<longleftrightarrow> (\<exists>fo hi. t = s\<lparr>followers := fo, lb := (lb s)\<lparr>follower_history := hi\<rparr>\<rparr>)"

abbreviation pool :: "cluster \<Rightarrow> bool" where
  "pool s \<equiv> pool_inv (per_node s) (length (heap s)) (followers s) (follower_history (lb s))"

definition phase_ok :: "cluster \<Rightarrow> sync_phase \<Rightarrow> bool" where
  "phase_ok s p = (case p of
     Sync_Fill host is names \<Rightarrow> \<forall>i \<in> set is. i < length (leader_conns s)
   | Sync_Dial names req new \<Rightarrow> pending_ok s req new
   | _ \<Rightarrow> True)"

text \<open>The entry \<open>k\<close> was removed, and its connection was closed.\<close>

definition only_closed :: "cluster \<Rightarrow> cluster \<Rightarrow> follower_key \<Rightarrow> bool" where
  "only_closed s t k \<longleftrightarrow> map_of (followers t) k = None \<and> (\<exists>c. map_of (followers s) k = Some c \<and> conn_closed s c)"

text \<open>The parts of the state that choosing a connection keeps.\<close>

definition pick_keeps :: "cluster \<Rightarrow> cluster \<Rightarrow> bool" where
  "pick_keeps s t \<longleftrightarrow> cluster_inv t \<and> cl_cfg t = cl_cfg s \<and> length (heap t) = length (heap s) \<and> leader_conns t = leader_conns s
      \<and> (\<forall>x. conns_of x (followers t) \<le> conns_of x (followers s)) \<and> conn_closed t = conn_closed s
      \<and> (\<forall>k. map_of (followers t) k = map_of (followers s) k \<or> only_closed s t k)"

text \<open>The history's indices are dense: one node for every index below their number.\<close>

definition dense_history :: "cluster \<Rightarrow> bool" where
  "dense_history s \<longleftrightarrow> distinct (map (\<lambda>((_, i), _). i) (follower_history (lb s)))
     \<and> (\<forall>((_, i), _) \<in> set (follower_history (lb s)). i < length (follower_history (lb s)))
     \<and> length (follower_history (lb s)) < 2 ^ 32"

definition open_slot :: "cluster \<Rightarrow> nat \<Rightarrow> bool" where
  "open_slot s i \<longleftrightarrow> i < length (leader_conns s) \<and> (\<exists>c. leader_conns s ! i = Some c \<and> \<not> conn_closed s c)"

definition leader_keeps :: "cluster \<Rightarrow> cluster \<Rightarrow> bool" where
  "leader_keeps s t \<longleftrightarrow> cl_cfg t = cl_cfg s \<and> length (heap t) = length (heap s) \<and> leader_conns t = leader_conns s
     \<and> followers t = followers s \<and> follower_history (lb t) = follower_history (lb s) \<and> last_node_id (lb t) = last_node_id (lb s)
     \<and> conn_closed t = conn_closed s"

text \<open>Where the search for a leader connection starts.\<close>

definition leader_start :: "cluster \<Rightarrow> nat" where
  "leader_start s = (if as_u32 (last_leader_id (lb s) + 1) \<ge> per_node s then 0 else as_u32 (last_leader_id (lb s) + 1))"

section \<open>Lemmas\<close>

lemma map_of_update [simp]: "map_of (AList.update k v m) = (map_of m)(k \<mapsto> v)"
  by (rule update_conv')

lemma map_of_deleted [simp]: "map_of (AList.delete k m) = (map_of m)(k := None)"
  by (rule delete_conv')

lemma map_of_or_insert: "map_of (or_insert k v m) = (if map_of m k = None then (map_of m)(k \<mapsto> v) else map_of m)"
  by (auto simp: or_insert_def split: option.splits)

lemma distinct_or_insert: "distinct (map fst m) \<Longrightarrow> distinct (map fst (or_insert k v m))"
  by (auto simp: or_insert_def distinct_update split: option.splits)

lemma pool_inv_insert:
  assumes p: "pool_inv n hl fo hi" and "cid < n" and "r < hl" and i: "\<And>j. map_of hi (nm, j) \<noteq> None \<Longrightarrow> j = i"
  shows "pool_inv n hl (AList.update (nm, i, cid) r fo) (or_insert (nm, i) cid hi)"
proof -
  have h: "map_of (or_insert (nm, i) cid hi) k = (if k = (nm, i) \<and> map_of hi k = None then Some cid else map_of hi k)" for k
    by (cases "map_of hi (nm, i)") (auto simp: map_of_or_insert)
  show ?thesis
    unfolding pool_inv_def map_of_update h
  proof (intro conjI allI impI)
    show "distinct (map fst (AList.update (nm, i, cid) r fo))" "distinct (map fst (or_insert (nm, i) cid hi))"
      using p by (simp_all add: pool_inv_def distinct_update distinct_or_insert)
  next
    fix nm' i' c r'
    assume "((map_of fo)((nm, i, cid) \<mapsto> r)) (nm', i', c) = Some r'"
    with p assms(2,3) show "c < n" and "r' < hl" and
      "(if (nm', i') = (nm, i) \<and> map_of hi (nm', i') = None then Some cid else map_of hi (nm', i')) \<noteq> None"
      unfolding pool_inv_def by (fastforce split: if_splits simp del: map_of_eq_Some_iff)+
  next
    fix nm' i' j
    assume "(if (nm', i') = (nm, i) \<and> map_of hi (nm', i') = None then Some cid else map_of hi (nm', i')) \<noteq> None"
      and "(if (nm', j) = (nm, i) \<and> map_of hi (nm', j) = None then Some cid else map_of hi (nm', j)) \<noteq> None"
    moreover have "map_of hi (nm', i') \<noteq> None \<Longrightarrow> map_of hi (nm', j) \<noteq> None \<Longrightarrow> i' = j"
      using p unfolding pool_inv_def by blast
    ultimately show "i' = j" using i [of i'] i [of j]
      by (metis (no_types, lifting) Pair_inject)
  next
    fix k v
    assume "(if k = (nm, i) \<and> map_of hi k = None then Some cid else map_of hi k) = Some v"
    with p assms(2) show "v < n" unfolding pool_inv_def by (cases k) (auto split: if_splits simp del: map_of_eq_Some_iff)
  qed
qed

lemma pool_inv_delete:
  "pool_inv n hl fo hi \<Longrightarrow> pool_inv n hl (AList.delete k fo) hi"
  unfolding pool_inv_def by (auto simp: distinct_delete simp del: map_of_eq_Some_iff split: if_splits)

lemma pool_inv_history:
  "pool_inv n hl fo hi \<Longrightarrow> map_of hi k \<noteq> None \<Longrightarrow> v < n \<Longrightarrow> pool_inv n hl fo (AList.update k v hi)"
  unfolding pool_inv_def
  by (auto simp: distinct_update simp del: map_of_eq_Some_iff split: if_splits) blast

lemma pool_inv_heap: "pool_inv n hl fo hi \<Longrightarrow> hl \<le> hl' \<Longrightarrow> pool_inv n hl' fo hi"
  unfolding pool_inv_def by (meson order_less_le_trans)

lemma pool_conn_ids:
  assumes p: "pool_inv n hl fo hi"
  shows "distinct (map (\<lambda>((_, _, c), _). c) (filter (\<lambda>((x, _, _), _). x = nm) fo))"
    and "\<forall>c \<in> set (map (\<lambda>((_, _, c), _). c) (filter (\<lambda>((x, _, _), _). x = nm) fo)). c < n"
proof -
  let ?l = "filter (\<lambda>((x, _, _), _). x = nm) fo"
  have d: "distinct (map fst fo)" using p by (simp add: pool_inv_def)
  have mem: "map_of fo k = Some r" if "(k, r) \<in> set fo" for k r using that d by simp
  have same: "i = j" if "((nm, i, c), r) \<in> set fo" "((nm, j, c'), r') \<in> set fo" for i j c c' r r'
    using p mem [OF that(1)] mem [OF that(2)] unfolding pool_inv_def by metis
  have "distinct fo" using d by (simp add: distinct_map)
  moreover have "inj_on (\<lambda>((_, _, c), _). c) (set ?l)"
  proof (rule inj_onI)
    fix x y
    assume xy: "x \<in> set ?l" "y \<in> set ?l" and e: "(\<lambda>((_, _, c), _). c) x = (\<lambda>((_, _, c), _). c) y"
    obtain i r where x: "x = ((nm, i, (\<lambda>((_, _, c), _). c) x), r)" "x \<in> set fo" using xy(1) by auto
    obtain j q where y: "y = ((nm, j, (\<lambda>((_, _, c), _). c) x), q)" "y \<in> set fo" using xy(2) e by auto
    have ij: "i = j" using same x y by metis
    then have "map_of fo (fst x) = Some r" "map_of fo (fst x) = Some q" using mem x y by (metis fst_conv)+
    with x y ij show "x = y" by simp
  qed
  ultimately show "distinct (map (\<lambda>((_, _, c), _). c) ?l)" by (simp add: distinct_map)
  show "\<forall>c \<in> set (map (\<lambda>((_, _, c), _). c) ?l). c < n"
    using p mem unfolding pool_inv_def by fastforce
qed

lemma distinct_bounded_length: "distinct xs \<Longrightarrow> \<forall>x \<in> set xs. x < n \<Longrightarrow> length xs \<le> n"
  using card_mono [of "{..<n}" "set xs"] by (auto simp: distinct_card)

lemma conns_of_bound: "pool_inv n hl fo hi \<Longrightarrow> conns_of nm fo \<le> n"
  using distinct_bounded_length [OF pool_conn_ids] by (fastforce simp: conns_of_def)

lemma conns_of_delete: "conns_of nm (AList.delete k fo) \<le> conns_of nm fo"
  unfolding conns_of_def AList.delete_eq by (induction fo) auto

lemma conns_of_update_other: "nm \<noteq> fst k \<Longrightarrow> conns_of nm (AList.update k r fo) = conns_of nm fo"
  unfolding conns_of_def by (induction fo) auto

lemma conns_of_perm: "mset fo = mset fo' \<Longrightarrow> conns_of nm fo = conns_of nm fo'"
  unfolding conns_of_def by (metis mset_filter size_mset)

lemma same_pool_refl [simp]: "same_pool s s"
  by (simp add: same_pool_def)

lemma same_pool_trans: "same_pool s t \<Longrightarrow> same_pool t u \<Longrightarrow> same_pool s u"
  unfolding same_pool_def by (metis (no_types) order_trans min.absorb1 take_take)

lemma open_conn_same:
  "open_conn dial host s = (res, t) \<Longrightarrow> same_pool s t \<and> leader_conns t = leader_conns s \<and> leader_host t = leader_host s"
  by (auto simp: open_conn_def same_pool_def split: sum.splits)

lemma open_conn_Inr:
  "open_conn dial host s = (Inr r, t) \<Longrightarrow>
   r = length (heap s) \<and> length (heap t) = Suc r \<and> \<not> closed (heap t ! r) \<and> conn_addr (heap t ! r) = host"
  by (auto simp: open_conn_def connect_def split: sum.splits)

lemma pending_okD:
  assumes "pending_ok s req new"
  shows "distinct (map fst new)" and "map_of new nm = Some cs \<Longrightarrow> Some r \<in> set cs \<Longrightarrow> r < length (heap s)"
    and "new_len nm new + todo nm req + conns_of nm (followers s) \<le> per_node s"
  using assms unfolding pending_ok_def by blast+

lemma todo_Cons [simp]: "todo nm ((host, k) # req) = (if host = nm then k else 0) + todo nm req"
  by (simp add: todo_def)

lemma pending_ok_mono:
  assumes p: "pending_ok s req new" and "cl_cfg t = cl_cfg s" and "length (heap s) \<le> length (heap t)"
    and "\<And>nm. conns_of nm (followers t) \<le> conns_of nm (followers s)"
  shows "pending_ok t req new"
  unfolding pending_ok_def
proof (intro conjI allI impI)
  show "distinct (map fst new)" by (rule pending_okD [OF p])
  show "r < length (heap t)" if "map_of new nm = Some cs" "Some r \<in> set cs" for nm cs r
    using pending_okD(2) [OF p that] assms(3) by simp
  show "new_len nm new + todo nm req + conns_of nm (followers t) \<le> per_node t" for nm
    using pending_okD(3) [OF p, of nm] assms(2) assms(4) [of nm] by simp
qed

lemma dial_one_ok:
  assumes p: "pending_ok s ((host, Suc k) # req) new" and d: "dial_one dial host new s = (new', t)"
  shows "same_pool s t \<and> leader_conns t = leader_conns s \<and> leader_host t = leader_host s \<and> pending_ok t ((host, k) # req) new'"
proof -
  obtain res where oc: "open_conn dial host s = (res, t)"
    using d by (auto simp: dial_one_def split: prod.splits sum.splits)
  note sm = open_conn_same [OF oc]
  have le: "new_len nm new + (if host = nm then Suc k else 0) + todo nm req + conns_of nm (followers s) \<le> per_node s" for nm
    using pending_okD(3) [OF p, of nm] by (simp add: algebra_simps)
  have old: "r < length (heap t)" if "map_of new nm = Some cs" "Some r \<in> set cs" for nm cs r
    using pending_okD(2) [OF p that] sm by (simp add: same_pool_def)
  have "pending_ok t ((host, k) # req) new'"
  proof (cases res)
    case (Inl e)
    with d oc have "new' = new" by (simp add: dial_one_def)
    moreover have "new_len nm new + todo nm ((host, k) # req) + conns_of nm (followers t) \<le> per_node t" for nm
      using le [of nm] sm by (auto simp: same_pool_def split: if_splits)
    ultimately show ?thesis using old pending_okD(1) [OF p] unfolding pending_ok_def by blast
  next
    case (Inr r)
    let ?v = "(case map_of new host of None \<Rightarrow> [] | Some v \<Rightarrow> v) @ [Some r]"
    have new': "new' = AList.update host ?v new" using d oc Inr by (simp add: dial_one_def)
    note r = open_conn_Inr [OF oc [unfolded Inr]]
    have "q < length (heap t)" if "map_of new' nm = Some cs" "Some q \<in> set cs" for nm cs q
      using that old r by (auto simp: new' split: if_splits option.splits)
    moreover have "new_len nm new' = new_len nm new + (if host = nm then 1 else 0)" for nm
      by (auto simp: new' new_len_def split: option.splits)
    then have "new_len nm new' + todo nm ((host, k) # req) + conns_of nm (followers t) \<le> per_node t" for nm
      using le [of nm] sm by (auto simp: same_pool_def split: if_splits)
    moreover have "distinct (map fst new')" using pending_okD(1) [OF p] by (simp add: new' distinct_update)
    ultimately show ?thesis unfolding pending_ok_def by blast
  qed
  with sm show ?thesis by blast
qed

lemma dial_node_ok:
  "pending_ok s ((host, k) # req) new \<Longrightarrow> dial_node dial host k new s = (new', t) \<Longrightarrow>
   same_pool s t \<and> leader_conns t = leader_conns s \<and> leader_host t = leader_host s \<and> pending_ok t req new'"
proof (induction k arbitrary: s new)
  case 0
  then show ?case by (auto simp: pending_ok_def)
next
  case (Suc k)
  obtain new1 s1 where d: "dial_one dial host new s = (new1, s1)" by (cases "dial_one dial host new s")
  note one = dial_one_ok [OF Suc.prems(1) d]
  from Suc.prems(2) d have "dial_node dial host k new1 s1 = (new', t)" by simp
  from Suc.IH [OF _ this] one show ?case by (auto intro: same_pool_trans)
qed

lemma dial_all_ok:
  "pending_ok s req new \<Longrightarrow> dial_all dial req new s = (new', t) \<Longrightarrow>
   same_pool s t \<and> leader_conns t = leader_conns s \<and> leader_host t = leader_host s \<and> pending_ok t [] new'"
proof (induction req arbitrary: s new)
  case (Cons x req)
  obtain host k where x: "x = (host, k)" by (cases x)
  obtain new1 s1 where d: "dial_node dial host k new s = (new1, s1)" by (cases "dial_node dial host k new s")
  note one = dial_node_ok [OF Cons.prems(1) [unfolded x] d]
  from Cons.prems(2) d x have "dial_all dial req new1 s1 = (new', t)" by simp
  from Cons.IH [OF _ this] one show ?case by (auto intro: same_pool_trans)
qed auto

lemma plan_ok_update:
  "plan_ok n fo req \<Longrightarrow> k + conns_of nm fo \<le> n \<Longrightarrow> plan_ok n fo (AList.update nm k req)"
  unfolding plan_ok_def by (auto simp: distinct_update split: if_splits simp del: map_of_eq_Some_iff)

lemma require_known_ok:
  assumes "\<And>nm. length (filter (\<lambda>(x, _). x = nm) cur) = conns_of nm fo" and "\<And>nm. conns_of nm fo \<le> n" and "plan_ok n fo req"
  shows "\<exists>req'. require_known n cur ids req = Some req' \<and> plan_ok n fo req'"
  using assms(3)
proof (induction ids arbitrary: req)
  case (Cons x ids)
  obtain nm i where x: "x = (nm, i)" by (cases x)
  have c: "checked_sub n (conns_of nm fo) = Some (n - conns_of nm fo)"
    using assms(2) by (simp add: checked_sub_def)
  have "plan_ok n fo (if n - conns_of nm fo > 0 then AList.update nm (as_u32 (n - conns_of nm fo)) req else req)"
    using Cons.prems plan_ok_update [OF Cons.prems, of "as_u32 (n - conns_of nm fo)" nm] as_u32_le [of "n - conns_of nm fo"]
      assms(2) [of nm] by (auto simp: le_diff_conv2)
  from Cons.IH [OF this] show ?case by (simp add: x assms(1) c)
qed simp

lemma current_ids_count:
  assumes "valid_hash_order ho"
  shows "length (filter (\<lambda>(x, _). x = nm) (current_node_ids ho s)) = conns_of nm (followers s)"
proof -
  have "conns_of nm (ord_followers ho (followers s)) = conns_of nm (followers s)"
    using assms by (intro conns_of_perm) (simp add: valid_hash_order_def)
  moreover have "length (filter (\<lambda>(x, _). x = nm) (map (\<lambda>((name, i, _), _). (name, i)) fo)) = conns_of nm fo" for fo :: "(follower_key \<times> conn_ref) list"
    by (induction fo) (auto simp: conns_of_def)
  ultimately show ?thesis by (simp add: current_node_ids_def)
qed

lemma required_conns_ok:
  assumes ho: "valid_hash_order ho" and inv: "cluster_inv s"
  shows "\<exists>req. required_conns ho names s = Some req \<and> plan_ok (per_node s) (followers s) req"
proof -
  let ?cur = "current_node_ids ho s"
  have le: "conns_of nm (followers s) \<le> per_node s" for nm
    using inv conns_of_bound unfolding cluster_inv_def by blast
  have z: "conns_of nm (followers s) = 0" if "nm \<notin> fst ` set ?cur" for nm
  proof -
    have "filter (\<lambda>(x, _). x = nm) ?cur = []" using that by (auto simp: filter_empty_conv image_iff)
    then show ?thesis using current_ids_count [OF ho, of nm s] by simp
  qed
  have "plan_ok (per_node s) (followers s) acc \<Longrightarrow> plan_ok (per_node s) (followers s)
     (fold (\<lambda>name req. if name \<in> fst ` set ?cur then req else AList.update name (as_u32 (per_node s)) req) names acc)" for acc
  proof (induction names arbitrary: acc)
    case (Cons nm names)
    have "plan_ok (per_node s) (followers s) (if nm \<in> fst ` set ?cur then acc else AList.update nm (as_u32 (per_node s)) acc)"
      using Cons.prems plan_ok_update [OF Cons.prems, of "as_u32 (per_node s)" nm] z [of nm] as_u32_le [of "per_node s"] by auto
    from Cons.IH [OF this] show ?case by simp
  qed simp
  from this [of "[]"] require_known_ok [OF current_ids_count [OF ho] le] show ?thesis
    by (simp add: required_conns_def Let_def plan_ok_def)
qed

lemma plan_pending:
  assumes "plan_ok (per_node s) (followers s) req" and ho: "valid_hash_order ho" and inv: "cluster_inv s"
  shows "pending_ok s (ord_required ho req) []"
proof -
  have "mset (ord_required ho req) = mset req" using ho by (simp add: valid_hash_order_def)
  then have t: "todo nm (ord_required ho req) = todo nm req" for nm
    unfolding todo_def sum_mset_sum_list [symmetric] mset_map mset_filter by simp
  have d: "distinct (map fst req)" using assms(1) by (simp add: plan_ok_def)
  then have todo: "todo nm req = (case map_of req nm of None \<Rightarrow> 0 | Some k \<Rightarrow> k)" for nm
  proof (induction req)
    case (Cons x req)
    then show ?case by (cases x) (auto split: option.splits dest: weak_map_of_SomeI map_of_SomeD simp: image_iff)
  qed (simp add: todo_def)
  have "conns_of nm (followers s) \<le> per_node s" for nm
    using inv conns_of_bound unfolding cluster_inv_def by blast
  then show ?thesis using assms(1)
    by (auto simp: pending_ok_def new_len_def t todo plan_ok_def split: option.splits simp del: map_of_eq_Some_iff)
qed

lemma same_restD:
  "same_rest s t \<Longrightarrow> cl_cfg t = cl_cfg s \<and> leader_conns t = leader_conns s \<and> heap t = heap s \<and> leader_host t = leader_host s
     \<and> syncing t = syncing s \<and> last_leader_id (lb t) = last_leader_id (lb s) \<and> discovery t = discovery s"
  by (auto simp: same_rest_def)

lemma same_rest_refl [simp]: "same_rest s s"
proof -
  have "s = s\<lparr>followers := followers s, lb := (lb s)\<lparr>follower_history := follower_history (lb s)\<rparr>\<rparr>" by simp
  then show ?thesis unfolding same_rest_def by blast
qed

lemma same_rest_trans: "same_rest s t \<Longrightarrow> same_rest t u \<Longrightarrow> same_rest s u"
proof -
  assume "same_rest s t" "same_rest t u"
  then obtain fo hi fo' hi' where "t = s\<lparr>followers := fo, lb := (lb s)\<lparr>follower_history := hi\<rparr>\<rparr>"
    "u = t\<lparr>followers := fo', lb := (lb t)\<lparr>follower_history := hi'\<rparr>\<rparr>" unfolding same_rest_def by blast
  then have "u = s\<lparr>followers := fo', lb := (lb s)\<lparr>follower_history := hi'\<rparr>\<rparr>" by simp
  then show ?thesis unfolding same_rest_def by blast
qed

lemma store_conns_ok:
  assumes "pool s" and "asg_ok asg (follower_history (lb s))" and "map_of asg name = Some nidx"
    and "\<forall>c \<in> set free. c < per_node s" and "i + length conns \<le> length free"
    and "\<forall>r. Some r \<in> set conns \<longrightarrow> r < length (heap s)"
  shows "\<exists>t. store_conns name nidx free i conns s = Some t \<and> same_rest s t \<and> pool t
    \<and> asg_ok asg (follower_history (lb t)) \<and> (\<forall>nm. nm \<noteq> name \<longrightarrow> conns_of nm (followers t) = conns_of nm (followers s))"
  using assms
proof (induction name nidx free i conns s rule: store_conns.induct)
  case (3 name nidx free i c conns s)
  define cid where "cid = free ! i"
  have x: "idx free i = Some cid" using "3.prems"(5) by (simp add: cid_def)
  define t where "t = s\<lparr>followers := AList.update (name, nidx, cid) c (followers s),
          lb := (lb s)\<lparr>follower_history := or_insert (name, nidx) cid (follower_history (lb s))\<rparr>\<rparr>"
  have n: "\<And>j. map_of (follower_history (lb s)) (name, j) \<noteq> None \<Longrightarrow> j = nidx"
    using "3.prems"(2,3) unfolding asg_ok_def by (metis option.inject)
  have "cid < per_node s" using "3.prems"(4,5) by (simp add: cid_def)
  moreover have "c < length (heap s)" using "3.prems"(6) by simp
  ultimately have pt: "pool t" using pool_inv_insert [OF "3.prems"(1) _ _ n, of cid c] by (simp add: t_def)
  have at: "asg_ok asg (follower_history (lb t))"
    using "3.prems"(2,3) unfolding asg_ok_def by (auto simp: t_def map_of_or_insert split: if_splits)
  have rt: "same_rest s t" unfolding same_rest_def t_def by blast
  have ct: "conns_of nm (followers t) = conns_of nm (followers s)" if "nm \<noteq> name" for nm
    using that by (simp add: t_def conns_of_update_other)
  obtain u where u: "store_conns name nidx free (Suc i) conns t = Some u" "same_rest t u" "pool u"
    "asg_ok asg (follower_history (lb u))" "\<forall>nm. nm \<noteq> name \<longrightarrow> conns_of nm (followers u) = conns_of nm (followers t)"
    using "3.IH" [OF x, folded t_def] pt at "3.prems"(3-6) same_restD [OF rt] by auto
  have "store_conns name nidx free i (Some c # conns) s = Some u" using u(1) x by (simp add: t_def)
  with u(3-5) same_rest_trans [OF rt u(2)] ct show ?case by auto
qed (simp_all)

lemma free_conn_ids_length:
  assumes ho: "valid_hash_order ho" and n: "per_node s < 2 ^ 32"
  shows "per_node s \<le> length (free_conn_ids ho name s) + conns_of name (followers s)"
    and "\<forall>c \<in> set (free_conn_ids ho name s). c < per_node s"
proof -
  let ?xs = "filter (\<lambda>((x, _, _), c). name = x \<and> \<not> conn_closed s c) (ord_followers ho (followers s))"
  define cur where "cur = map (\<lambda>((_, _, i), _). i) ?xs"
  have e: "free_conn_ids ho name s = filter (\<lambda>i. i \<notin> set cur) [0..<per_node s]"
    using n by (simp add: free_conn_ids_def cur_def Let_def)
  have "length (filter (\<lambda>((x, _, _), c). name = x \<and> \<not> conn_closed s c) xs) \<le> conns_of name xs" for xs
    unfolding conns_of_def by (induction xs) auto
  then have "length cur \<le> conns_of name (ord_followers ho (followers s))" by (simp add: cur_def)
  also have "\<dots> = conns_of name (followers s)"
    using ho by (intro conns_of_perm) (simp add: valid_hash_order_def)
  finally have l: "length cur \<le> conns_of name (followers s)" .
  have "card ({..<per_node s} - set cur) = length (free_conn_ids ho name s)"
    unfolding e by (subst distinct_card [symmetric]) (auto intro: arg_cong [of _ _ card])
  moreover have "per_node s - card (set cur) \<le> card ({..<per_node s} - set cur)"
    using diff_card_le_card_Diff [of "set cur" "{..<per_node s}"] by simp
  ultimately show "per_node s \<le> length (free_conn_ids ho name s) + conns_of name (followers s)"
    using l card_length [of cur] by linarith
  show "\<forall>c \<in> set (free_conn_ids ho name s). c < per_node s" by (auto simp: e)
qed

lemma choose_node_id_ok:
  assumes ho: "valid_hash_order ho" and p: "pool s" and a: "asg_ok asg (follower_history (lb s))"
    and c: "choose_node_id ho name free asg s = Some (nidx, free', asg')"
  shows "asg_ok asg' (follower_history (lb s)) \<and> map_of asg' name = Some nidx"
proof -
  let ?f = "find (\<lambda>((n, _, _), _). name = n) (ord_followers ho (followers s))"
  have st: "set (ord_followers ho (followers s)) = set (followers s)"
    using ho by (metis valid_hash_order_def set_mset_mset)
  have found: "map_of asg name = Some i" if f: "?f = Some ((n, i, cid), r)" for n i cid r
  proof -
    from f have "n = name" "((n, i, cid), r) \<in> set (followers s)"
      using st by (auto simp: find_Some_iff dest: nth_mem)
    then have "map_of (followers s) (name, i, cid) = Some r" using p by (simp add: pool_inv_def)
    then have "map_of (follower_history (lb s)) (name, i) \<noteq> None" using p unfolding pool_inv_def by blast
    then show ?thesis using a unfolding asg_ok_def by blast
  qed
  show ?thesis
  proof (cases "map_of asg name")
    case None
    then have "\<not> (\<exists>i. map_of (follower_history (lb s)) (name, i) \<noteq> None)" using a unfolding asg_ok_def by force
    moreover have "?f = None" using found None by (cases ?f) auto
    then have "asg' = AList.update name nidx asg"
      using c None by (auto simp: choose_node_id_def split: if_splits)
    ultimately show ?thesis using a unfolding asg_ok_def by (auto simp del: map_of_eq_Some_iff)
  next
    case (Some i)
    have "asg' = asg \<and> nidx = i"
      using c Some found by (auto simp: choose_node_id_def split: if_splits option.splits)
    with Some a show ?thesis by simp
  qed
qed

lemma commit_nodes_ok:
  assumes "valid_hash_order ho" and "per_node s < 2 ^ 32" and "pool s" and "asg_ok asg (follower_history (lb s))"
    and "distinct (map fst new)"
    and "\<forall>(nm, cs) \<in> set new. length cs + conns_of nm (followers s) \<le> per_node s \<and> (\<forall>r. Some r \<in> set cs \<longrightarrow> r < length (heap s))"
  shows "\<exists>t. commit_nodes ho new free asg s = Some t \<and> same_rest s t \<and> pool t"
  using assms
proof (induction ho new free asg s rule: commit_nodes.induct)
  case (2 ho name conns new free asg s)
  have rest: "\<forall>(nm, cs) \<in> set new. length cs + conns_of nm (followers s) \<le> per_node s \<and> (\<forall>r. Some r \<in> set cs \<longrightarrow> r < length (heap s))"
    using "2.prems"(6) by simp
  show ?case
  proof (cases "choose_node_id ho name free asg s")
    case None
    with "2.IH"(1) "2.prems" rest show ?thesis by simp
  next
    case (Some x)
    then obtain nidx free1 asg1 where c: "choose_node_id ho name free asg s = Some (nidx, free1, asg1)" by (cases x) auto
    note a = choose_node_id_ok [OF "2.prems"(1,3,4) c]
    note f = free_conn_ids_length [OF "2.prems"(1,2), of name]
    have "0 + length conns \<le> length (free_conn_ids ho name s)" "\<forall>r. Some r \<in> set conns \<longrightarrow> r < length (heap s)"
      using f(1) "2.prems"(6) by fastforce+
    from store_conns_ok [OF "2.prems"(3) a [THEN conjunct1] a [THEN conjunct2] f(2) this]
    obtain t where t: "store_conns name nidx (free_conn_ids ho name s) 0 conns s = Some t" "same_rest s t" "pool t"
      "asg_ok asg1 (follower_history (lb t))" "\<And>nm. nm \<noteq> name \<Longrightarrow> conns_of nm (followers t) = conns_of nm (followers s)"
      by blast
    note r = same_restD [OF t(2)]
    have "\<exists>u. commit_nodes ho new free1 asg1 t = Some u \<and> same_rest t u \<and> pool u"
    proof (rule "2.IH"(2) [OF c refl refl t(1)])
      show "\<forall>(nm, cs) \<in> set new. length cs + conns_of nm (followers t) \<le> per_node t \<and> (\<forall>r. Some r \<in> set cs \<longrightarrow> r < length (heap t))"
        using rest r t(5) "2.prems"(5) by (fastforce simp: image_iff)
    qed (use "2.prems" r t in auto)
    then show ?thesis using c t(1,2) by (auto intro: same_rest_trans)
  qed
qed simp

lemma assigned_ok:
  assumes ho: "valid_hash_order ho" and p: "pool_inv n hl fo hi"
  shows "asg_ok (assigned_node_ids (ord_history ho hi)) hi"
proof -
  have st: "set (ord_history ho hi) = set hi" using ho by (metis valid_hash_order_def set_mset_mset)
  have fn: "i = j" if "((nm, i), v) \<in> set (ord_history ho hi)" "((nm, j), w) \<in> set (ord_history ho hi)" for nm i j v w
    using that p unfolding st pool_inv_def by (metis weak_map_of_SomeI option.distinct(1))
  have "map_of (fold (\<lambda>((name, i), _) m. AList.update name i m) xs m) nm = Some i"
    if "\<And>nm i j v w. ((nm, i), v) \<in> set xs \<Longrightarrow> ((nm, j), w) \<in> set xs \<Longrightarrow> i = j"
      "(\<exists>v. ((nm, i), v) \<in> set xs) \<or> (map_of m nm = Some i \<and> (\<forall>j v. ((nm, j), v) \<notin> set xs))" for xs m nm i
    using that
  proof (induction xs arbitrary: m)
    case (Cons x xs)
    obtain nm' j w where x: "x = ((nm', j), w)" by (metis surj_pair)
    have "(\<exists>v. ((nm, i), v) \<in> set xs) \<or> (map_of (AList.update nm' j m) nm = Some i \<and> (\<forall>j v. ((nm, j), v) \<notin> set xs))"
      using Cons.prems unfolding x by (cases "\<exists>j v. ((nm, j), v) \<in> set xs") (auto, metis+)
    moreover have "\<And>nm i j v w. ((nm, i), v) \<in> set xs \<Longrightarrow> ((nm, j), w) \<in> set xs \<Longrightarrow> i = j"
      using Cons.prems(1) by (meson list.set_intros(2))
    ultimately show ?case using Cons.IH [of "AList.update nm' j m"] by (simp add: x)
  qed auto
  then show ?thesis unfolding asg_ok_def assigned_node_ids_def
    using fn st by (metis map_of_SomeD not_None_eq)
qed

lemma commit_followers_ok:
  assumes ho: "valid_hash_order ho" and inv: "cluster_inv s" and p: "pending_ok s [] new"
  shows "\<exists>t. commit_followers ho names new s = Some t \<and> same_rest s t \<and> cluster_inv t"
proof -
  have m: "mset (ord_new ho new) = mset new" using ho by (simp add: valid_hash_order_def)
  have d: "distinct (map fst (ord_new ho new))"
    using m pending_okD(1) [OF p] by (metis mset_eq_imp_distinct_iff mset_map)
  have st: "set (ord_new ho new) = set new" using m by (metis set_mset_mset)
  have w: "\<forall>(nm, cs) \<in> set (ord_new ho new). length cs + conns_of nm (followers s) \<le> per_node s \<and> (\<forall>r. Some r \<in> set cs \<longrightarrow> r < length (heap s))"
  proof (clarify, unfold st)
    fix nm cs assume "(nm, cs) \<in> set new"
    then have "map_of new nm = Some cs" using pending_okD(1) [OF p] by simp
    then show "length cs + conns_of nm (followers s) \<le> per_node s \<and> (\<forall>r. Some r \<in> set cs \<longrightarrow> r < length (heap s))"
      using pending_okD(2,3) [OF p, of nm] by (auto simp: new_len_def simp del: map_of_eq_Some_iff)
  qed
  have "per_node s < 2 ^ 32" "pool s" using inv by (simp_all add: cluster_inv_def)
  from commit_nodes_ok [OF ho this assigned_ok [OF ho this(2)] d w]
  obtain t where t: "commit_followers ho names new s = Some t" "same_rest s t" "pool t"
    unfolding commit_followers_def by blast
  moreover have "cluster_inv t" using inv t(3) same_restD [OF t(2)] by (simp add: cluster_inv_def)
  ultimately show ?thesis by blast
qed

text \<open>Leader connections.\<close>

lemma reset_leader_inv: "cluster_inv s \<Longrightarrow> cluster_inv (reset_leader host s)"
  by (auto simp: cluster_inv_def reset_leader_def)

lemma required_slots_less: "i \<in> set (required_slots s) \<Longrightarrow> i < length (leader_conns s)"
  by (auto simp: required_slots_def in_set_enumerate_eq)

lemma same_pool_inv:
  assumes "cluster_inv s" and "same_pool s t" and "leader_conns t = leader_conns s"
  shows "cluster_inv t"
  using assms pool_inv_heap by (auto simp: cluster_inv_def same_pool_def)

lemma fill_slot_ok:
  assumes inv: "cluster_inv s" and i: "i < length (leader_conns s)"
  shows "\<exists>t. fill_slot dial host i s = Some t \<and> cluster_inv t \<and> same_pool s t
    \<and> length (leader_conns t) = length (leader_conns s)"
proof -
  obtain res s1 where oc: "open_conn dial host s = (res, s1)" by (cases "open_conn dial host s")
  note sm = open_conn_same [OF oc]
  have i1: "cluster_inv s1" using same_pool_inv [OF inv] sm by simp
  show ?thesis
  proof (cases res)
    case (Inl e)
    then show ?thesis using oc sm i1 by (simp add: fill_slot_def)
  next
    case (Inr r)
    let ?t = "s1\<lparr>leader_conns := (leader_conns s1)[i := Some r], leader_host := Some host\<rparr>"
    have "r < length (heap s1)" using open_conn_Inr [OF oc [unfolded Inr]] by simp
    then have "cluster_inv ?t" using i1
      by (auto simp: cluster_inv_def dest!: set_update_subset_insert [THEN subsetD])
    moreover have "same_pool s ?t" using sm by (simp add: same_pool_def)
    ultimately show ?thesis using oc sm i Inr by (simp add: fill_slot_def)
  qed
qed

text \<open>Cleaning up a connection touches only its table.\<close>

lemma cleanup_conn_props:
  assumes "cleanup_conn now r s = (t, sends)"
  shows "conn_closed t q = conn_closed s q" and "length (heap t) = length (heap s)"
    and "followers t = followers s" and "leader_conns t = leader_conns s" and "lb t = lb s" and "cl_cfg t = cl_cfg s"
    and "leader_host t = leader_host s" and "syncing t = syncing s" and "discovery t = discovery s"
proof -
  obtain m where t: "t = s\<lparr>heap := (heap s)[r := (heap s ! r)\<lparr>entries := m\<rparr>]\<rparr>"
    using assms by (auto simp: cleanup_conn_def split: prod.splits)
  show "conn_closed t q = conn_closed s q"
    by (cases "r < length (heap s)"; cases "q = r") (simp_all add: t conn_closed_def is_closed_def list_update_beyond)
qed (use assms in \<open>auto simp: cleanup_conn_def split: prod.splits\<close>)

lemma next_cid_mod:
  "cid < n \<Longrightarrow> n < 2 ^ 32 \<Longrightarrow> (if as_u32 (cid + 1) \<ge> n then 0 else as_u32 (cid + 1)) = (cid + 1) mod n"
  by (cases "cid + 1 = n") auto

lemma try_conns_spec:
  assumes "try_conns now nm ni left cid s = (res, t, sends)" and "cluster_inv s" and "cid < per_node s"
    and "map_of (follower_history (lb s)) (nm, ni) \<noteq> None"
  shows "cluster_inv t \<and> cl_cfg t = cl_cfg s \<and> length (heap t) = length (heap s) \<and> leader_conns t = leader_conns s
      \<and> (\<forall>x. conns_of x (followers t) \<le> conns_of x (followers s)) \<and> conn_closed t = conn_closed s
      \<and> (\<forall>k. map_of (followers t) k = map_of (followers s) k \<or> only_closed s t k)
      \<and> (case res of
           None \<Rightarrow> lb t = lb s \<and> (\<forall>j < left. \<forall>c. map_of (followers s) (nm, ni, (cid + j) mod per_node s) = Some c \<longrightarrow> conn_closed s c)
         | Some r \<Rightarrow> \<not> conn_closed s r \<and> (\<exists>c. map_of (followers t) (nm, ni, c) = Some r))"
  using assms
proof (induction left arbitrary: cid s sends)
  case 0
  then show ?case by simp
next
  case (Suc left)
  let ?n = "per_node s" and ?key = "(nm, ni, cid)" and ?next = "(cid + 1) mod per_node s"
  have n: "?n < 2 ^ 32" using Suc.prems(2) by (simp add: cluster_inv_def)
  note nx = next_cid_mod [OF Suc.prems(3) n]
  have nl: "?next < ?n" using Suc.prems(3) by simp
  have split_j: "(\<forall>j < Suc left. P ((cid + j) mod ?n)) \<longleftrightarrow> P cid \<and> (\<forall>j < left. P ((?next + j) mod ?n))" for P
    using Suc.prems(3) unfolding All_less_Suc2 by (simp add: mod_simps)
  let ?Q = "\<lambda>k. \<forall>c. map_of (followers s) (nm, ni, k) = Some c \<longrightarrow> conn_closed s c"
  note sj = split_j [of ?Q]
  show ?case
  proof (cases "map_of (followers s) ?key")
    case None
    then have "try_conns now nm ni left ?next s = (res, t, sends)"
      using Suc.prems(1) n nx by (simp add: Let_def)
    note ih = Suc.IH [OF this Suc.prems(2) nl Suc.prems(4)]
    have "?Q cid" using None by simp
    then have "case res of
         None \<Rightarrow> lb t = lb s \<and> (\<forall>j < Suc left. ?Q ((cid + j) mod ?n))
       | Some r \<Rightarrow> \<not> conn_closed s r \<and> (\<exists>c. map_of (followers t) (nm, ni, c) = Some r)"
      unfolding sj using ih by (cases res) simp_all
    then show ?thesis using ih by blast
  next
    case (Some c)
    show ?thesis
    proof (cases "conn_closed s c")
      case True
      obtain s1 sends1 where cl: "cleanup_conn now c s = (s1, sends1)" by (cases "cleanup_conn now c s")
      note cp = cleanup_conn_props [OF cl]
      let ?s2 = "s1\<lparr>followers := AList.delete ?key (followers s1)\<rparr>"
      obtain res' t' sends2 where tc': "try_conns now nm ni left ?next ?s2 = (res', t', sends2)"
        by (rule prod_cases3)
      then have "res = res' \<and> t = t'"
        using Suc.prems(1) Some True cl n nx by (simp add: Let_def)
      with tc' have tc: "try_conns now nm ni left ?next ?s2 = (res, t, sends2)" by simp
      have cc: "conn_closed ?s2 = conn_closed s" using cp(1) by (auto simp: conn_closed_def fun_eq_iff)
      have inv2: "cluster_inv ?s2"
        using Suc.prems(2) pool_inv_delete cp by (simp add: cluster_inv_def)
      have "cluster_inv t \<and> cl_cfg t = cl_cfg ?s2 \<and> length (heap t) = length (heap ?s2) \<and> leader_conns t = leader_conns ?s2
        \<and> (\<forall>x. conns_of x (followers t) \<le> conns_of x (followers ?s2)) \<and> conn_closed t = conn_closed ?s2
        \<and> (\<forall>k. map_of (followers t) k = map_of (followers ?s2) k \<or> only_closed ?s2 t k)
        \<and> (case res of
           None \<Rightarrow> lb t = lb ?s2 \<and> (\<forall>j < left. \<forall>c. map_of (followers ?s2) (nm, ni, (?next + j) mod per_node ?s2) = Some c \<longrightarrow> conn_closed ?s2 c)
         | Some r \<Rightarrow> \<not> conn_closed ?s2 r \<and> (\<exists>c. map_of (followers t) (nm, ni, c) = Some r))"
        by (rule Suc.IH [OF tc inv2]) (use nl Suc.prems(4) cp in auto)
      note ih = this [unfolded cc]
      have fo2: "map_of (followers ?s2) = (map_of (followers s))(?key := None)" using cp by simp
      have less: "conns_of x (followers ?s2) \<le> conns_of x (followers s)" for x
        using conns_of_delete [of x ?key "followers s"] cp by simp
      have "\<forall>x. conns_of x (followers t) \<le> conns_of x (followers s)" using ih less order_trans by blast
      moreover have "map_of (followers t) k = map_of (followers s) k \<or> only_closed s t k" for k
      proof -
        have "map_of (followers t) k = map_of (followers ?s2) k \<or> only_closed ?s2 t k" using ih by blast
        then show ?thesis unfolding only_closed_def fo2 cc using Some True by (cases "k = ?key") auto
      qed
      moreover have "case res of
           None \<Rightarrow> lb t = lb s \<and> (\<forall>j < Suc left. ?Q ((cid + j) mod ?n))
         | Some r \<Rightarrow> \<not> conn_closed s r \<and> (\<exists>c. map_of (followers t) (nm, ni, c) = Some r)"
      proof (cases res)
        case None
        have q: "?Q ((?next + j) mod ?n)" if "j < left" for j
        proof (intro allI impI)
          fix c' assume c': "map_of (followers s) (nm, ni, (?next + j) mod ?n) = Some c'"
          show "conn_closed s c'"
          proof (cases "(?next + j) mod ?n = cid")
            case True
            with c' Some \<open>conn_closed s c\<close> show ?thesis by simp
          next
            case False
            with c' have "map_of (followers ?s2) (nm, ni, (?next + j) mod per_node ?s2) = Some c'"
              unfolding fo2 using cp by simp
            with ih None that show ?thesis by auto
          qed
        qed
        have "?Q cid" using Some True by simp
        with q have "\<forall>j < Suc left. ?Q ((cid + j) mod ?n)" unfolding sj by blast
        with None ih cp show ?thesis by simp
      qed (use ih in auto)
      ultimately show ?thesis using ih cp by simp
    next
      case False
      then have r: "res = Some c" and t: "t = s\<lparr>lb := (lb s)\<lparr>last_node_id := ni,
          follower_history := AList.update (nm, ni) ((cid + 1) mod ?n) (follower_history (lb s))\<rparr>\<rparr>"
        using Suc.prems(1,3,4) Some n by (auto simp: Let_def split: option.splits)
      have "pool_inv ?n (length (heap s)) (followers s) (AList.update (nm, ni) ((cid + 1) mod ?n) (follower_history (lb s)))"
        using Suc.prems(2,4) nl by (intro pool_inv_history) (simp_all add: cluster_inv_def)
      then have "cluster_inv t" using Suc.prems(2) by (simp add: t cluster_inv_def)
      with False Some show ?thesis by (auto simp: r t conn_closed_def)
    qed
  qed
qed

lemma pick_keeps_refl: "cluster_inv s \<Longrightarrow> pick_keeps s s"
  by (simp add: pick_keeps_def)

lemma pick_keeps_trans:
  assumes "pick_keeps s t" and "pick_keeps t u"
  shows "pick_keeps s u"
  unfolding pick_keeps_def
proof (intro conjI allI)
  show "conns_of x (followers u) \<le> conns_of x (followers s)" for x
    using assms unfolding pick_keeps_def by (meson order_trans)
  have cc: "conn_closed t = conn_closed s" using assms by (simp add: pick_keeps_def)
  show "map_of (followers u) k = map_of (followers s) k \<or> only_closed s u k" for k
    using assms unfolding pick_keeps_def only_closed_def cc by metis
qed (use assms in \<open>simp_all add: pick_keeps_def\<close>)

lemma next_node_u32: "as_u32 (next_node s) = next_node s"
  by (simp add: next_node_def Let_def as_u32_def)

lemma follower_round_spec:
  assumes ho: "valid_hash_order ho" and inv: "cluster_inv s" and r: "follower_round ho now s = (res, t, sends)"
  shows "pick_keeps s t \<and> (case res of
       None \<Rightarrow> follower_history (lb t) = follower_history (lb s) \<and> last_node_id (lb t) = next_node s
         \<and> (\<forall>nm. (\<forall>nm' v. map_of (follower_history (lb s)) (nm', next_node s) = Some v \<longrightarrow> nm' = nm) \<longrightarrow>
             (\<forall>c r. map_of (followers s) (nm, next_node s, c) = Some r \<longrightarrow> conn_closed s r))
     | Some r \<Rightarrow> \<not> conn_closed s r \<and> (\<exists>nm c. map_of (followers t) (nm, next_node s, c) = Some r))"
proof -
  let ?h = "follower_history (lb s)" and ?i = "next_node s" and ?n = "per_node s"
  let ?s1 = "s\<lparr>lb := (lb s)\<lparr>last_node_id := ?i\<rparr>\<rparr>"
  have st: "set (ord_history ho ?h) = set ?h" using ho by (metis valid_hash_order_def set_mset_mset)
  have inv1: "cluster_inv ?s1" using inv by (simp add: cluster_inv_def)
  have keeps1: "pick_keeps s u" if "pick_keeps ?s1 u" for u
    using that by (simp add: pick_keeps_def only_closed_def conn_closed_def fun_eq_iff)
  have eq: "follower_round ho now s = (case find (\<lambda>((_, nidx), _). nidx = ?i) (ord_history ho ?h) of
           None \<Rightarrow> (None, ?s1, [])
         | Some ((name, nidx), v) \<Rightarrow>
             try_conns now name nidx ?n (if v \<ge> as_u32 ?n then 0 else v) ?s1)"
    unfolding follower_round_def Let_def next_node_u32 ..
  show ?thesis
  proof (cases "find (\<lambda>((_, nidx), _). nidx = ?i) (ord_history ho ?h)")
    case None
    have "map_of (followers s) (nm, ?i, c) = None" for nm c
    proof (rule ccontr)
      assume "map_of (followers s) (nm, ?i, c) \<noteq> None"
      then have "map_of ?h (nm, ?i) \<noteq> None" using inv unfolding cluster_inv_def pool_inv_def by blast
      then obtain v where "((nm, ?i), v) \<in> set ?h" by (auto dest: map_of_SomeD)
      with None st show False by (auto simp: find_None_iff)
    qed
    moreover have "res = None" "t = ?s1" using r eq None by simp_all
    ultimately show ?thesis using keeps1 [OF pick_keeps_refl [OF inv1]] by simp
  next
    case (Some x)
    then obtain nm ni v where x: "find (\<lambda>((_, nidx), _). nidx = ?i) (ord_history ho ?h) = Some ((nm, ni), v)"
      by (metis surj_pair)
    then have ni: "ni = ?i" and mem: "((nm, ?i), v) \<in> set ?h"
      using st by (auto simp: find_Some_iff dest: nth_mem)
    then have mo: "map_of ?h (nm, ?i) = Some v" using inv by (simp add: cluster_inv_def pool_inv_def)
    then have v: "v < ?n" using inv unfolding cluster_inv_def pool_inv_def by blast
    moreover have "as_u32 ?n = ?n" using inv by (simp add: cluster_inv_def)
    ultimately have tc: "try_conns now nm ?i ?n v ?s1 = (res, t, sends)" using r eq x ni by simp
    have mo1: "map_of (follower_history (lb ?s1)) (nm, ?i) \<noteq> None" using mo by simp
    have v1: "v < per_node ?s1" using v by simp
    note sp = try_conns_spec [OF tc inv1 v1 mo1]
    have k: "pick_keeps s t" by (rule keeps1) (use sp in \<open>simp add: pick_keeps_def\<close>)
    show ?thesis
    proof (cases res)
      case None
      have "conn_closed s r'" if f: "map_of (followers s) (nm', ?i, c) = Some r'"
        and u: "\<forall>nm'' v. map_of ?h (nm'', ?i) = Some v \<longrightarrow> nm'' = nm'" for nm' c r'
      proof -
        have "nm' = nm" using u mo by blast
        have "c < ?n" using f inv unfolding cluster_inv_def pool_inv_def by blast
        then obtain j where j: "j < ?n" "(v + j) mod ?n = c"
        proof (cases "v \<le> c")
          case True
          with \<open>c < ?n\<close> show thesis by (intro that [of "c - v"]) auto
        next
          case False
          with \<open>c < ?n\<close> v show thesis by (intro that [of "c + ?n - v"]) (auto simp: algebra_simps)
        qed
        have "\<forall>j < ?n. \<forall>c. map_of (followers s) (nm, ?i, (v + j) mod ?n) = Some c \<longrightarrow> conn_closed s c"
          using sp None by (simp add: conn_closed_def)
        then show ?thesis using j f \<open>nm' = nm\<close> by blast
      qed
      with None sp k show ?thesis by simp
    next
      case (Some r')
      with sp k show ?thesis by (auto simp: conn_closed_def)
    qed
  qed
qed

lemma follower_rounds_keeps:
  assumes ho: "valid_hash_order ho"
  shows "cluster_inv s \<Longrightarrow> follower_rounds ho now k s = (res, t, sends) \<Longrightarrow>
    pick_keeps s t \<and> (\<forall>r. res = Some r \<longrightarrow> \<not> conn_closed s r \<and> (\<exists>k. map_of (followers t) k = Some r))"
proof (induction k arbitrary: s sends)
  case 0
  then show ?case by (simp add: pick_keeps_refl)
next
  case (Suc k)
  obtain res1 s1 sends1 where fr: "follower_round ho now s = (res1, s1, sends1)" by (rule prod_cases3)
  note sp = follower_round_spec [OF ho Suc.prems(1) fr]
  show ?case
  proof (cases res1)
    case (Some r)
    have "res = Some r" "t = s1" using Suc.prems(2) fr Some by simp_all
    with sp Some show ?thesis by auto
  next
    case None
    obtain res2 t2 sends2 where fs: "follower_rounds ho now k s1 = (res2, t2, sends2)" by (rule prod_cases3)
    have e: "res = res2" "t = t2" using Suc.prems(2) fr None fs by simp_all
    have k1: "pick_keeps s s1" using sp by simp
    then have "cluster_inv s1" by (simp add: pick_keeps_def)
    from Suc.IH [OF this fs [folded e]] k1 show ?thesis
      by (metis pick_keeps_trans pick_keeps_def)
  qed
qed

lemma next_node_less: "follower_history (lb s) \<noteq> [] \<Longrightarrow> next_node s < length (follower_history (lb s))"
  by (simp add: next_node_def Let_def)

text \<open>The search looks at the indices below the number of known nodes only.\<close>

lemma rounds_in_range:
  assumes ho: "valid_hash_order ho"
  shows "cluster_inv s \<Longrightarrow> follower_history (lb s) \<noteq> [] \<Longrightarrow> follower_rounds ho now k s = (Some r, t, sends) \<Longrightarrow>
    \<exists>nm i c. map_of (followers s) (nm, i, c) = Some r \<and> i < length (follower_history (lb s))"
proof (induction k arbitrary: s sends)
  case (Suc k)
  obtain res1 s1 sends1 where fr: "follower_round ho now s = (res1, s1, sends1)" by (rule prod_cases3)
  note sp = follower_round_spec [OF ho Suc.prems(1) fr]
  have k1: "pick_keeps s s1" using sp by simp
  then have sub: "map_of (followers s) k = Some x" if "map_of (followers s1) k = Some x" for k x
    using that unfolding pick_keeps_def only_closed_def by (metis option.distinct(1))
  show ?case
  proof (cases res1)
    case (Some r1)
    then have "r1 = r" using Suc.prems(3) fr by simp
    with sp Some obtain nm c where "map_of (followers s1) (nm, next_node s, c) = Some r" by auto
    from sub [OF this] show ?thesis using next_node_less [OF Suc.prems(2)] by blast
  next
    case None
    obtain sends2 where fs: "follower_rounds ho now k s1 = (Some r, t, sends2)"
      using Suc.prems(3) fr None by (auto split: prod.splits)
    have "follower_history (lb s1) = follower_history (lb s)" "cluster_inv s1" using sp None k1 by (simp_all add: pick_keeps_def)
    with Suc.IH [OF _ _ fs] Suc.prems(2) obtain nm i c where
      "map_of (followers s1) (nm, i, c) = Some r" "i < length (follower_history (lb s))" by auto
    with sub show ?thesis by blast
  qed
qed simp

lemma dense_unique:
  assumes "dense_history s" and "map_of (follower_history (lb s)) (a, i) = Some v" and "map_of (follower_history (lb s)) (b, i) = Some w"
  shows "a = b"
proof -
  have "((a, i), v) \<in> set (follower_history (lb s))" "((b, i), w) \<in> set (follower_history (lb s))"
    using assms by (auto dest: map_of_SomeD)
  moreover have "inj_on (\<lambda>((_, i), _). i) (set (follower_history (lb s)))"
    using assms(1) by (simp add: dense_history_def distinct_map)
  ultimately show ?thesis using inj_onD by fastforce
qed

lemma next_node_mod:
  assumes "last_node_id (lb s) < length (follower_history (lb s))" and "length (follower_history (lb s)) < 2 ^ 32"
  shows "next_node s = (last_node_id (lb s) + 1) mod length (follower_history (lb s))"
  using assms unfolding next_node_def Let_def
  by (cases "last_node_id (lb s) + 1 = length (follower_history (lb s))") auto

lemma rounds_none:
  assumes ho: "valid_hash_order ho"
  shows "cluster_inv s \<Longrightarrow> dense_history s \<Longrightarrow> follower_rounds ho now k s = (None, t, sends) \<Longrightarrow> j < k \<Longrightarrow>
    map_of (followers s) (nm, (next_node s + j) mod length (follower_history (lb s)), c) = Some r \<Longrightarrow> conn_closed s r"
proof (induction k arbitrary: s sends j)
  case (Suc k)
  let ?len = "length (follower_history (lb s))"
  obtain res1 s1 sends1 where fr: "follower_round ho now s = (res1, s1, sends1)" by (rule prod_cases3)
  note sp = follower_round_spec [OF ho Suc.prems(1) fr]
  have none: "res1 = None" using Suc.prems(3) fr by (cases res1) auto
  obtain sends2 where fs: "follower_rounds ho now k s1 = (None, t, sends2)"
    using Suc.prems(3) fr none by (auto split: prod.splits)
  have h: "follower_history (lb s1) = follower_history (lb s)" "last_node_id (lb s1) = next_node s"
    and k1: "pick_keeps s s1" using sp none by simp_all
  have "map_of (follower_history (lb s)) (nm, (next_node s + j) mod ?len) \<noteq> None"
    using Suc.prems(1,5) unfolding cluster_inv_def pool_inv_def by blast
  then have ne: "0 < ?len" by auto
  have nn: "next_node s < ?len" using ne by (simp add: next_node_def Let_def)
  show ?case
  proof (cases j)
    case 0
    then have f: "map_of (followers s) (nm, next_node s, c) = Some r" using Suc.prems(5) nn by simp
    then have "map_of (follower_history (lb s)) (nm, next_node s) \<noteq> None"
      using Suc.prems(1) unfolding cluster_inv_def pool_inv_def by blast
    then have "\<forall>nm' v. map_of (follower_history (lb s)) (nm', next_node s) = Some v \<longrightarrow> nm' = nm"
      using dense_unique [OF Suc.prems(2)] by auto
    with sp none f show ?thesis by auto
  next
    case (Suc j')
    have d1: "dense_history s1" using Suc.prems(2) by (simp add: dense_history_def h)
    have "next_node s1 = (next_node s + 1) mod ?len"
      using next_node_mod [of s1] nn Suc.prems(2) by (simp add: h dense_history_def)
    then have idx: "(next_node s1 + j') mod length (follower_history (lb s1)) = (next_node s + j) mod ?len"
      by (simp add: h Suc mod_simps)
    have "map_of (followers s1) (nm, (next_node s + j) mod ?len, c) = Some r \<or> conn_closed s r"
      using k1 Suc.prems(5) unfolding pick_keeps_def only_closed_def by (metis option.inject)
    moreover have "conn_closed s1 = conn_closed s" "cluster_inv s1" using k1 by (simp_all add: pick_keeps_def)
    ultimately show ?thesis
      using Suc.IH [OF _ d1 fs, of j'] Suc.prems(4) Suc idx by auto
  qed
qed simp

lemma next_follower_complete:
  assumes ho: "valid_hash_order ho" and inv: "cluster_inv s" and d: "dense_history s"
    and f: "map_of (followers s) (nm, i, c) = Some r" and o: "\<not> conn_closed s r"
  shows "fst (next_follower_conn ho now s) \<noteq> None"
proof
  let ?len = "length (follower_history (lb s))"
  assume "fst (next_follower_conn ho now s) = None"
  then obtain t sends where fr: "follower_rounds ho now ?len s = (None, t, sends)"
    unfolding next_follower_conn_def by (metis prod.collapse)
  have "map_of (follower_history (lb s)) (nm, i) \<noteq> None"
    using inv f unfolding cluster_inv_def pool_inv_def by blast
  then obtain v where "((nm, i), v) \<in> set (follower_history (lb s))" by (auto dest: map_of_SomeD)
  then have i: "i < ?len" using d by (auto simp: dense_history_def)
  have nn: "next_node s < ?len" using i by (auto simp: next_node_def Let_def)
  obtain j where "j < ?len" "(next_node s + j) mod ?len = i"
  proof (cases "next_node s \<le> i")
    case True
    with i show thesis by (intro that [of "i - next_node s"]) auto
  next
    case False
    with i nn show thesis by (intro that [of "i + ?len - next_node s"]) (auto simp: algebra_simps)
  qed
  then show False using rounds_none [OF ho inv d fr, of j nm c r] f o by simp
qed

lemma leader_keeps_refl [simp]: "leader_keeps s s"
  by (simp add: leader_keeps_def)

lemma cleanup_leader_keeps:
  assumes "cleanup_conn now c s = (t, sends)"
  shows "leader_keeps s t"
  using cleanup_conn_props [OF assms] by (simp add: leader_keeps_def fun_eq_iff)

lemma try_leaders_spec:
  assumes "try_leaders now left nxt s = (res, t, sends)" and "length (leader_conns s) = per_node s" and "nxt < per_node s"
  shows "leader_keeps s t \<and> (case res of
      None \<Rightarrow> lb t = lb s \<and> (\<forall>j < left. \<not> open_slot s ((nxt + j) mod per_node s))
    | Some c \<Rightarrow> \<exists>j < left. leader_conns s ! ((nxt + j) mod per_node s) = Some c \<and> \<not> conn_closed s c
        \<and> (\<forall>j' < j. \<not> open_slot s ((nxt + j') mod per_node s)) \<and> last_leader_id (lb t) = as_u32 ((nxt + j) mod per_node s))"
  using assms
proof (induction left arbitrary: nxt s sends)
  case 0
  then show ?case by simp
next
  case (Suc left)
  let ?n = "per_node s" and ?next = "(nxt + 1) mod per_node s"
  have nx: "(if nxt + 1 \<ge> ?n then 0 else nxt + 1) = ?next"
    using Suc.prems(3) by (cases "nxt + 1 = ?n") auto
  have nl: "?next < ?n" using Suc.prems(3) by simp
  have l: "nxt < length (leader_conns s)" using Suc.prems(2,3) by simp
  have shift: "(nxt + Suc j) mod ?n = (?next + j) mod ?n" for j by (simp add: mod_simps)
  have step: ?case if k: "leader_keeps s u" and lb: "lb u = lb s" and tl: "try_leaders now left ?next u = (res, t, sends')"
    and no: "\<not> open_slot s nxt" for u sends'
  proof -
    have cc: "conn_closed u = conn_closed s" "leader_conns u = leader_conns s" "per_node u = ?n" using k by (simp_all add: leader_keeps_def)
    have os: "open_slot u i = open_slot s i" for i by (simp add: open_slot_def cc)
    note ih = Suc.IH [OF tl, unfolded os cc lb, OF Suc.prems(2) nl]
    have lk: "leader_keeps s t" using ih k by (simp add: leader_keeps_def)
    show ?thesis
    proof (cases res)
      case None
      have "\<forall>j < Suc left. \<not> open_slot s ((nxt + j) mod ?n)"
        unfolding All_less_Suc2 shift using ih None no Suc.prems(3) by simp
      with None ih lk show ?thesis by simp
    next
      case (Some c)
      with ih obtain j where j: "j < left" "leader_conns s ! ((nxt + Suc j) mod ?n) = Some c" "\<not> conn_closed s c"
        "\<forall>j' < j. \<not> open_slot s ((nxt + Suc j') mod ?n)" "last_leader_id (lb t) = as_u32 ((nxt + Suc j) mod ?n)"
        unfolding shift by auto
      have "\<forall>j' < Suc j. \<not> open_slot s ((nxt + j') mod ?n)"
        unfolding All_less_Suc2 using j(4) no Suc.prems(3) by simp
      with j lk Some show ?thesis by (auto intro!: exI [of _ "Suc j"])
    qed
  qed
  show ?case
  proof (cases "leader_conns s ! nxt")
    case None
    then show ?thesis
      using Suc.prems(1) l nx by (intro step [of s sends]) (simp_all add: Let_def open_slot_def)
  next
    case (Some c)
    show ?thesis
    proof (cases "conn_closed s c")
      case True
      obtain s1 sends1 where cl: "cleanup_conn now c s = (s1, sends1)" by (cases "cleanup_conn now c s")
      obtain res' t' sends2 where tl: "try_leaders now left ?next s1 = (res', t', sends2)" by (rule prod_cases3)
      have "res = res'" "t = t'" using Suc.prems(1) l nx Some True cl tl by (simp_all add: Let_def)
      with tl show ?thesis
        using cleanup_leader_keeps [OF cl] cleanup_conn_props(5) [OF cl] Some True
        by (intro step [of s1 sends2]) (simp_all add: open_slot_def)
    next
      case False
      then have "res = Some c" "t = s\<lparr>lb := (lb s)\<lparr>last_leader_id := as_u32 nxt\<rparr>\<rparr>"
        using Suc.prems(1) l Some by (simp_all add: Let_def)
      with False Some Suc.prems(3) show ?thesis
        by (auto simp: leader_keeps_def conn_closed_def fun_eq_iff intro!: exI [of _ 0])
    qed
  qed
qed

lemma next_leader_spec:
  assumes inv: "cluster_inv s" and r: "next_leader_conn now s = (res, t, sends)"
  shows "leader_keeps s t \<and> (case res of
      None \<Rightarrow> \<forall>i. \<not> open_slot s i
    | Some c \<Rightarrow> \<exists>j < per_node s. leader_conns s ! ((leader_start s + j) mod per_node s) = Some c \<and> \<not> conn_closed s c
        \<and> (\<forall>j' < j. \<not> open_slot s ((leader_start s + j') mod per_node s))
        \<and> last_leader_id (lb t) = (leader_start s + j) mod per_node s)"
proof -
  let ?n = "per_node s"
  have len: "length (leader_conns s) = ?n" and n: "?n < 2 ^ 32" using inv by (simp_all add: cluster_inv_def)
  show ?thesis
  proof (cases "leader_conns s = [] \<or> (\<forall>x \<in> set (leader_conns s). x = None)")
    case True
    then have "res = None" "t = s" using r by (simp_all add: next_leader_conn_def Let_def)
    moreover have "\<not> open_slot s i" for i using True by (auto simp: open_slot_def) (metis nth_mem option.distinct(1))
    ultimately show ?thesis by simp
  next
    case False
    then have pos: "0 < ?n" using len by (metis length_greater_0_conv)
    then have st: "leader_start s < ?n" by (auto simp: leader_start_def)
    have "try_leaders now ?n (leader_start s) s = (res, t, sends)"
      using r unfolding next_leader_conn_def Let_def leader_start_def by (simp only: False len if_False min.idem)
    note sp = try_leaders_spec [OF this len st]
    have u: "as_u32 (x mod ?n) = x mod ?n" for x using pos n by (meson as_u32_small mod_less_divisor order_less_trans)
    show ?thesis
    proof (cases res)
      case None
      have "\<not> open_slot s i" for i
      proof
        assume os: "open_slot s i"
        then have i: "i < ?n" by (simp add: open_slot_def len)
        obtain j where "j < ?n" "(leader_start s + j) mod ?n = i"
        proof (cases "leader_start s \<le> i")
          case True
          with i show thesis by (intro that [of "i - leader_start s"]) auto
        next
          case False
          with i st show thesis by (intro that [of "i + ?n - leader_start s"]) (auto simp: algebra_simps)
        qed
        with sp None os show False by auto
      qed
      with sp None show ?thesis by simp
    next
      case (Some c)
      with sp u show ?thesis by simp
    qed
  qed
qed

lemma leader_keeps_inv: "cluster_inv s \<Longrightarrow> leader_keeps s t \<Longrightarrow> cluster_inv t"
  by (simp add: cluster_inv_def leader_keeps_def)

text \<open>Every step keeps the invariant.\<close>

lemma phase_ok_mono:
  assumes "phase_ok s p" and "cl_cfg t = cl_cfg s" and "length (heap s) \<le> length (heap t)"
    and "\<And>nm. conns_of nm (followers t) \<le> conns_of nm (followers s)" and "length (leader_conns t) = length (leader_conns s)"
  shows "phase_ok t p"
  using assms(1,5) pending_ok_mono [OF _ assms(2-4)] by (auto simp: phase_ok_def split: sync_phase.splits)

lemma cluster_step_inv:
  assumes "cluster_step x y" and "cluster_inv (fst x)" and "phase_ok (fst x) (snd x)"
  shows "cluster_inv (fst y) \<and> phase_ok (fst y) (snd y)"
  using assms
proof (cases rule: cluster_step.cases)
  case (sync_start s js o1 net topo td)
  with assms show ?thesis by (simp add: cluster_inv_def phase_ok_def)
next
  case (sync_failed s js o1 net e td)
  with assms show ?thesis by (simp add: cluster_inv_def phase_ok_def)
next
  case (sync_reset s host names)
  with assms show ?thesis by (simp add: reset_leader_inv phase_ok_def)
next
  case (sync_scan s host names)
  with assms show ?thesis by (auto simp: phase_ok_def dest: required_slots_less)
next
  case (sync_fill dial host i s t idxs names)
  with assms fill_slot_ok [of s i dial host] show ?thesis by (auto simp: phase_ok_def)
next
  case (sync_filled s host names)
  with assms show ?thesis by (simp add: phase_ok_def)
next
  case (sync_plan ho names s req)
  with assms required_conns_ok [of ho s names] plan_pending [of s req ho] show ?thesis by (auto simp: phase_ok_def)
next
  case (sync_dial dial host new s new' t names k req)
  with assms have p: "pending_ok s ((host, Suc k) # req) new" by (simp add: phase_ok_def)
  from dial_one_ok [OF p sync_dial(3)] sync_dial assms same_pool_inv [of s t] show ?thesis by (simp add: phase_ok_def)
next
  case (sync_dialed s names host req new)
  with assms show ?thesis by (auto simp: phase_ok_def pending_ok_def)
next
  case (sync_commit ho names new s t)
  with assms commit_followers_ok [of ho s new names] show ?thesis by (auto simp: phase_ok_def cluster_inv_def)
next
  case (pick_follower ho now s res t sends p)
  with assms have k: "pick_keeps s t" using follower_round_spec [of ho s now res t sends] by simp
  with pick_follower assms phase_ok_mono [of s p t] show ?thesis by (simp add: pick_keeps_def)
next
  case (pick_leader now s res t sends p)
  with assms have k: "leader_keeps s t" using next_leader_spec [of s now res t sends] by simp
  with pick_leader assms leader_keeps_inv [of s t] phase_ok_mono [of s p t] show ?thesis by (simp add: leader_keeps_def)
next
  case (conn_activity r s p c)
  with assms phase_ok_mono [of s p "s\<lparr>heap := (heap s)[r := c]\<rparr>"] show ?thesis by (simp add: cluster_inv_def)
qed

lemma cluster_new_inv: "conn_per_roomzin_node cfg < 2 ^ 32 \<Longrightarrow> cluster_inv (ClusterHandler_new cfg td)"
  by (simp add: cluster_inv_def ClusterHandler_new_def pool_inv_def)

lemma cluster_reachable_inv:
  "cluster_reachable cfg td x \<Longrightarrow> conn_per_roomzin_node cfg < 2 ^ 32 \<Longrightarrow> cluster_inv (fst x) \<and> phase_ok (fst x) (snd x)"
proof (induction rule: cluster_reachable.induct)
  case cluster_start
  then show ?case by (simp add: cluster_new_inv phase_ok_def)
next
  case (cluster_more x y)
  then show ?case using cluster_step_inv by blast
qed

end
