(* ===== verification/Rz_Cluster_Props.thy ===== *)
theory Rz_Cluster_Props
  imports Rz_Cluster_Inv
begin

text \<open>
  The properties of the connection pool. The locale \<open>conn_chooser\<close> is the contract of an operation
  that chooses a connection, as \<^verbatim>\<open>execute\<close> uses it: what it returns is open, and it keeps the
  invariant and what is open. It is interpreted on \<^verbatim>\<open>next_leader_conn\<close> and
  \<^verbatim>\<open>next_follower_conn\<close>.
\<close>

section \<open>Definitions\<close>

text \<open>Calling an operation that chooses a connection several times.\<close>

fun picks :: "('s \<Rightarrow> conn_ref option \<times> 's) \<Rightarrow> nat \<Rightarrow> 's \<Rightarrow> conn_ref option list \<times> 's" where
  "picks pick 0 s = ([], s)"
| "picks pick (Suc k) s =
     (let (r, s1) = pick s; (rs, s2) = picks pick k s1 in (r # rs, s2))"

definition pick_leader_conn :: "instant \<Rightarrow> cluster \<Rightarrow> conn_ref option \<times> cluster" where
  "pick_leader_conn now s = (case next_leader_conn now s of (r, t, _) \<Rightarrow> (r, t))"

definition pick_follower_conn :: "hash_order \<Rightarrow> instant \<Rightarrow> cluster \<Rightarrow> conn_ref option \<times> cluster" where
  "pick_follower_conn ho now s = (case next_follower_conn ho now s of (r, t, _) \<Rightarrow> (r, t))"

text \<open>The iteration order of lists themselves.\<close>

definition list_order :: hash_order where
  "list_order = \<lparr>ord_followers = (\<lambda>xs. xs), ord_history = (\<lambda>xs. xs), ord_required = (\<lambda>xs. xs), ord_new = (\<lambda>xs. xs)\<rparr>"

text \<open>When every dial succeeds; a host whose dials all succeed, and one whose dials all fail.\<close>

definition all_dials_succeed :: "dialer \<Rightarrow> bool" where
  "all_dials_succeed dial \<longleftrightarrow> (\<forall>k h. dial k h = Inr ())"

definition reaches :: "dialer \<Rightarrow> string \<Rightarrow> bool" where
  "reaches dial h \<longleftrightarrow> (\<forall>k. dial k h = Inr ())"

definition refuses :: "dialer \<Rightarrow> string \<Rightarrow> bool" where
  "refuses dial h \<longleftrightarrow> (\<forall>k. \<exists>e. dial k h = Inl e)"

definition history_ids :: "cluster \<Rightarrow> nat list" where
  "history_ids s = map (\<lambda>((_, i), _). i) (follower_history (lb s))"

definition full_node :: "cluster \<Rightarrow> string \<Rightarrow> bool" where
  "full_node s nm \<longleftrightarrow> (\<exists>i. \<forall>c < per_node s. \<exists>r. map_of (followers s) (nm, i, c) = Some r \<and> \<not> conn_closed s r)"

definition pool_config :: Config where
  "pool_config = default_config ''z1'' ''s1'' ''b1'' ''rzid'' ''rzpoint''"

definition fresh_handler :: cluster where
  "fresh_handler = ClusterHandler_new pool_config sample_discovery"

definition dial_ok :: dialer where
  "dial_ok k host = Inr ()"

definition dial_not_b :: dialer where
  "dial_not_b k host = (if host = ''b'' then Inl ''refused'' else Inr ())"

definition pool_sample :: cluster where
  "pool_sample = fresh_handler\<lparr>leader_conns := [Some 0], leader_host := Some ''h1'',
     followers := [((''h2'', 0, 0), 1)], lb := \<lparr>follower_history = [((''h2'', 0), 0)], last_node_id = 0, last_leader_id = 0\<rparr>,
     heap := [sample_conn, sample_conn]\<rparr>"

definition filling :: cluster where
  "filling = fresh_handler\<lparr>discovery := sample_discovery\<lparr>known_node_ids := [''a'', ''b'']\<rparr>, syncing := True, leader_host := Some ''h1''\<rparr>"

section \<open>Lemmas\<close>

locale conn_chooser =
  fixes pick :: "'s \<Rightarrow> conn_ref option \<times> 's"
    and ok :: "'s \<Rightarrow> bool"
    and is_open :: "'s \<Rightarrow> conn_ref \<Rightarrow> bool"
  assumes choose_ok: "ok s \<Longrightarrow> ok (snd (pick s))"
    and choose_open: "ok s \<Longrightarrow> fst (pick s) = Some c \<Longrightarrow> is_open s c"
    and choose_same: "ok s \<Longrightarrow> is_open (snd (pick s)) = is_open s"
begin

lemma picks_open:
  "ok s \<Longrightarrow> picks pick k s = (rs, t) \<Longrightarrow>
    ok t \<and> is_open t = is_open s \<and> length rs = k \<and> (\<forall>c. Some c \<in> set rs \<longrightarrow> is_open t c)"
proof (induction k arbitrary: s rs)
  case (Suc k)
  obtain r s1 where c: "pick s = (r, s1)" by (cases "pick s")
  obtain rs1 t1 where p: "picks pick k s1 = (rs1, t1)" by (cases "picks pick k s1")
  have e: "rs = r # rs1" "t = t1" using Suc.prems(2) c p by simp_all
  have "ok s1" "is_open s1 = is_open s" using choose_ok [OF Suc.prems(1)] choose_same [OF Suc.prems(1)] c by simp_all
  with Suc.IH [OF this(1)] p choose_open [OF Suc.prems(1)] c show ?case unfolding e by auto
qed simp

end

lemma leader_chooser: "conn_chooser (pick_leader_conn now) cluster_inv (\<lambda>s c. \<not> conn_closed s c)"
proof
  fix s c
  assume inv: "cluster_inv s"
  obtain r t sends where n: "next_leader_conn now s = (r, t, sends)" by (rule prod_cases3)
  note sp = next_leader_spec [OF inv n]
  have p: "pick_leader_conn now s = (r, t)" by (simp add: pick_leader_conn_def n)
  show "cluster_inv (snd (pick_leader_conn now s))" using leader_keeps_inv [OF inv] sp p by simp
  show "(\<lambda>c. \<not> conn_closed (snd (pick_leader_conn now s)) c) = (\<lambda>c. \<not> conn_closed s c)"
    using sp p by (simp add: leader_keeps_def)
  assume "fst (pick_leader_conn now s) = Some c"
  then show "\<not> conn_closed s c" using sp p by auto
qed

interpretation leaders: conn_chooser "pick_leader_conn now" cluster_inv "\<lambda>s c. \<not> conn_closed s c" for now
  by (rule leader_chooser)

lemma follower_chooser:
  assumes ho: "valid_hash_order ho"
  shows "conn_chooser (pick_follower_conn ho now) cluster_inv (\<lambda>s c. \<not> conn_closed s c)"
proof
  fix s c
  assume inv: "cluster_inv s"
  obtain r t sends where n: "next_follower_conn ho now s = (r, t, sends)" by (rule prod_cases3)
  note sp = follower_rounds_keeps [OF ho inv n [unfolded next_follower_conn_def]]
  have p: "pick_follower_conn ho now s = (r, t)" by (simp add: pick_follower_conn_def n)
  show "cluster_inv (snd (pick_follower_conn ho now s))" using sp p by (simp add: pick_keeps_def)
  show "(\<lambda>c. \<not> conn_closed (snd (pick_follower_conn ho now s)) c) = (\<lambda>c. \<not> conn_closed s c)"
    using sp p by (simp add: pick_keeps_def)
  assume "fst (pick_follower_conn ho now s) = Some c"
  then show "\<not> conn_closed s c" using sp p by auto
qed

lemma list_order_valid: "valid_hash_order list_order"
  by (simp add: valid_hash_order_def list_order_def)

interpretation follower_pool: conn_chooser "pick_follower_conn list_order now" cluster_inv "\<lambda>s c. \<not> conn_closed s c" for now
  by (rule follower_chooser [OF list_order_valid])

section \<open>Properties\<close>

text \<open>C7: In every interleaving of the synchronisation with requests and with changes of the
  connections, the next operation of the synchronisation does not panic: slot indices are in
  range, \<^verbatim>\<open>conn_per_roomzin_node - count\<close> does not underflow and \<^verbatim>\<open>free_conn_ids[i]\<close> is in range.
  The leader vector keeps its size, no node ever has more connections than configured, and every
  stored connection exists.\<close>
theorem sync_never_panics:
  assumes "cluster_reachable cfg td (s, p)" and "conn_per_roomzin_node cfg < 2 ^ 32"
  shows "sync_safe s p \<and> length (leader_conns s) = per_node s \<and> (\<forall>nm. conns_of nm (followers s) \<le> per_node s)
    \<and> (\<forall>k r. map_of (followers s) k = Some r \<longrightarrow> r < length (heap s))"
proof -
  have inv: "cluster_inv s" and ph: "phase_ok s p" using cluster_reachable_inv [OF assms] by simp_all
  have "sync_safe s p"
  proof (cases p)
    case (Sync_Fill host idxs names)
    then show ?thesis using ph fill_slot_ok [OF inv]
      by (fastforce simp: sync_safe_def phase_ok_def split: list.splits)
  next
    case (Sync_Plan names)
    then show ?thesis using required_conns_ok [OF _ inv] by (fastforce simp: sync_safe_def)
  next
    case (Sync_Dial names req new)
    then show ?thesis using ph commit_followers_ok [OF _ inv]
      by (fastforce simp: sync_safe_def phase_ok_def split: list.splits)
  qed (simp_all add: sync_safe_def)
  moreover have "\<forall>nm. conns_of nm (followers s) \<le> per_node s"
    using inv conns_of_bound unfolding cluster_inv_def by blast
  ultimately show ?thesis using inv by (auto simp: cluster_inv_def pool_inv_def simp del: map_of_eq_Some_iff)
qed

text \<open>C23: \<^verbatim>\<open>next_leader_conn\<close> returns a connection exactly when some slot holds an open one. It is
  the first open one in the cyclic order of the slots after the one used last, and it becomes the
  one used last.\<close>
theorem next_leader_round_robin:
  assumes "cluster_inv s" and "next_leader_conn now s = (res, t, sends)"
  shows "case res of
      None \<Rightarrow> \<forall>i. \<not> open_slot s i
    | Some c \<Rightarrow> \<exists>j < per_node s. leader_conns s ! ((leader_start s + j) mod per_node s) = Some c \<and> \<not> conn_closed s c
        \<and> (\<forall>j' < j. \<not> open_slot s ((leader_start s + j') mod per_node s))
        \<and> last_leader_id (lb t) = (leader_start s + j) mod per_node s"
  using next_leader_spec [OF assms] by blast

lemma leader_start_next:
  assumes "last_leader_id (lb t) = i" and "i < per_node t" and "per_node t < 2 ^ 32"
  shows "leader_start t = (i + 1) mod per_node t"
  using assms by (cases "i + 1 = per_node t") (auto simp: leader_start_def)

lemma picks_leaders:
  assumes "cluster_inv s" and "\<forall>i < per_node s. open_slot s i" and "0 < per_node s"
  shows "fst (picks (pick_leader_conn now) k s) =
    map (\<lambda>j. leader_conns s ! ((leader_start s + j) mod per_node s)) [0..<k]"
  using assms
proof (induction k arbitrary: s)
  case (Suc k)
  let ?n = "per_node s"
  obtain r t sends where n: "next_leader_conn now s = (r, t, sends)" by (rule prod_cases3)
  note sp = next_leader_spec [OF Suc.prems(1) n]
  have lk: "leader_keeps s t" using sp by simp
  have st: "leader_start s < ?n" using Suc.prems(3) by (simp add: leader_start_def)
  have "r \<noteq> None" using sp Suc.prems(2,3) by (auto split: option.splits)
  then obtain c j where r: "r = Some c" "leader_conns s ! ((leader_start s + j) mod ?n) = Some c"
    "\<forall>j' < j. \<not> open_slot s ((leader_start s + j') mod ?n)" "last_leader_id (lb t) = (leader_start s + j) mod ?n"
    using sp by auto
  have "j = 0" using r(3) Suc.prems(2) st by (metis gr0I mod_less add_0_right)
  with r st have c: "r = leader_conns s ! leader_start s" and ll: "last_leader_id (lb t) = leader_start s" by simp_all
  have nt: "per_node t = ?n" "leader_conns t = leader_conns s" "open_slot t = open_slot s"
    using lk by (simp_all add: leader_keeps_def open_slot_def fun_eq_iff)
  have "?n < 2 ^ 32" using Suc.prems(1) by (simp add: cluster_inv_def)
  then have lt: "leader_start t = (leader_start s + 1) mod ?n" using leader_start_next [OF ll] st nt by simp
  have "fst (picks (pick_leader_conn now) k t) = map (\<lambda>j. leader_conns t ! ((leader_start t + j) mod per_node t)) [0..<k]"
    using Suc.IH [of t] Suc.prems leader_keeps_inv [OF Suc.prems(1) lk] nt by simp
  then have p: "fst (picks (pick_leader_conn now) k t) = map (\<lambda>j. leader_conns s ! ((leader_start s + Suc j) mod ?n)) [0..<k]"
    by (simp add: nt lt mod_simps)
  have "fst (picks (pick_leader_conn now) (Suc k) s) = r # fst (picks (pick_leader_conn now) k t)"
    by (simp add: pick_leader_conn_def n Let_def split: prod.splits)
  also have "\<dots> = map (\<lambda>j. leader_conns s ! ((leader_start s + j) mod ?n)) (0 # map Suc [0..<k])"
    using p c st by simp
  also have "0 # map Suc [0..<k] = [0..<Suc k]" by (simp add: map_Suc_upt upt_conv_Cons del: upt_Suc)
  finally show ?case .
qed simp

text \<open>With every slot open, as many calls of \<^verbatim>\<open>next_leader_conn\<close> as there are slots return
  every leader connection exactly once.\<close>
lemma next_leader_fair:
  assumes "cluster_inv s" and "\<forall>i < per_node s. open_slot s i" and "0 < per_node s"
  shows "mset (fst (picks (pick_leader_conn now) (per_node s) s)) = mset (leader_conns s)"
proof -
  let ?n = "per_node s" and ?f = "\<lambda>j. (leader_start s + j) mod per_node s"
  have len: "length (leader_conns s) = ?n" using assms(1) by (simp add: cluster_inv_def)
  have inj: "inj_on ?f {0..<?n}"
  proof (rule inj_onI)
    fix i j assume ij: "i \<in> {0..<?n}" "j \<in> {0..<?n}" and e: "?f i = ?f j"
    have le: "x = y" if "x \<le> y" "y < ?n" "?f x = ?f y" for x y
    proof -
      have "?n dvd (leader_start s + y) - (leader_start s + x)"
        using that by (metis mod_eq_dvd_iff_nat add_le_cancel_left)
      then show ?thesis using that by (auto dest!: dvd_imp_le)
    qed
    show "i = j"
    proof (cases "i \<le> j")
      case True
      show ?thesis by (rule le [OF True _ e]) (use ij in simp)
    next
      case False
      then have "j \<le> i" by simp
      have "j = i" by (rule le [OF \<open>j \<le> i\<close> _ e [symmetric]]) (use ij in simp)
      then show ?thesis ..
    qed
  qed
  have "?f ` {0..<?n} \<subseteq> {0..<?n}" using assms(3) by auto
  then have "?f ` {0..<?n} = {0..<?n}" using inj by (simp add: endo_inj_surj)
  then have "image_mset ?f (mset_set {0..<?n}) = mset_set {0..<?n}" using inj by (simp add: image_mset_mset_set)
  then have "mset (map ?f [0..<?n]) = mset [0..<?n]" by (simp add: mset_upt)
  then have "mset (map (\<lambda>i. leader_conns s ! i) (map ?f [0..<?n])) = mset (map (\<lambda>i. leader_conns s ! i) [0..<?n])"
    by (simp only: mset_map)
  then show ?thesis unfolding picks_leaders [OF assms] using len by (simp add: comp_def map_nth [of "leader_conns s", unfolded len])
qed

text \<open>\<^verbatim>\<open>next_follower_conn\<close> only returns an open connection of the followers' map, removes only
  closed ones from it, and keeps the leader's connections.\<close>
lemma next_follower_sound:
  assumes "valid_hash_order ho" and "cluster_inv s" and "next_follower_conn ho now s = (res, t, sends)"
  shows "(\<forall>c. res = Some c \<longrightarrow> \<not> conn_closed s c \<and> (\<exists>k. map_of (followers t) k = Some c))
    \<and> (\<forall>k. map_of (followers t) k = map_of (followers s) k \<or> only_closed s t k) \<and> leader_conns t = leader_conns s \<and> cluster_inv t"
  using follower_rounds_keeps [OF assms(1,2) assms(3) [unfolded next_follower_conn_def]] by (auto simp: pick_keeps_def)

lemma any_followerE:
  assumes "cluster_inv s" and "any_follower_conn s"
  shows "\<exists>nm i c r. map_of (followers s) (nm, i, c) = Some r \<and> \<not> conn_closed s r"
proof -
  obtain k r where "(k, r) \<in> set (followers s)" "\<not> conn_closed s r" using assms(2) by (auto simp: any_follower_conn_def)
  moreover obtain nm i c where "k = (nm, i, c)" by (rule prod_cases3)
  ultimately have "map_of (followers s) (nm, i, c) = Some r" using assms(1) by (simp add: cluster_inv_def pool_inv_def)
  with \<open>\<not> conn_closed s r\<close> show ?thesis by blast
qed

text \<open>C22: When the node indices in use are exactly the numbers below the number of known nodes,
  \<^verbatim>\<open>next_follower_conn\<close> finds a connection whenever there is an open one.\<close>
theorem next_follower_finds_open:
  assumes "valid_hash_order ho" and "cluster_inv s" and "dense_history s" and "any_follower_conn s"
  shows "\<exists>c. fst (next_follower_conn ho now s) = Some c \<and> \<not> conn_closed s c"
proof -
  obtain nm i c r where "map_of (followers s) (nm, i, c) = Some r" "\<not> conn_closed s r"
    using any_followerE [OF assms(2,4)] by blast
  from next_follower_complete [OF assms(1-3) this, of now]
  obtain q where q: "fst (next_follower_conn ho now s) = Some q" by auto
  obtain t sends where "next_follower_conn ho now s = (Some q, t, sends)" using q by (metis prod.collapse)
  from follower_rounds_keeps [OF assms(1,2) this [unfolded next_follower_conn_def]] q show ?thesis by auto
qed

lemma reaches_all: "all_dials_succeed dial \<Longrightarrow> reaches dial h"
  by (simp add: all_dials_succeed_def reaches_def)

lemma open_conn_success:
  assumes "reaches dial host"
  shows "\<exists>t. open_conn dial host s = (Inr (length (heap s)), t) \<and> length (heap t) = Suc (length (heap s))
    \<and> \<not> closed (heap t ! length (heap s)) \<and> conn_addr (heap t ! length (heap s)) = host \<and> same_pool s t
    \<and> leader_conns t = leader_conns s \<and> leader_host t = leader_host s"
  using assms by (simp add: open_conn_def reaches_def connect_def same_pool_def)

lemma same_pool_nth: "same_pool s t \<Longrightarrow> r < length (heap s) \<Longrightarrow> heap t ! r = heap s ! r"
  unfolding same_pool_def by (metis nth_take)

lemma same_pool_closed: "same_pool s t \<Longrightarrow> r < length (heap s) \<Longrightarrow> conn_closed t r = conn_closed s r"
  by (simp add: conn_closed_def same_pool_nth)

lemma fill_slots_full:
  assumes d: "all_dials_succeed dial"
  shows "cluster_inv s \<Longrightarrow> \<forall>i \<in> set slots. i < length (leader_conns s) \<Longrightarrow>
    \<exists>t. fill_slots dial host slots s = Some t \<and> cluster_inv t \<and> same_pool s t \<and> length (leader_conns t) = length (leader_conns s)
      \<and> (leader_host s = Some host \<longrightarrow> leader_host t = Some host)
      \<and> (\<forall>i. i \<notin> set slots \<longrightarrow> leader_conns t ! i = leader_conns s ! i)
      \<and> (\<forall>i \<in> set slots. \<exists>c. leader_conns t ! i = Some c \<and> length (heap s) \<le> c \<and> c < length (heap t)
          \<and> \<not> closed (heap t ! c) \<and> conn_addr (heap t ! c) = host)"
proof (induction slots arbitrary: s)
  case (Cons i slots)
  from open_conn_success [OF reaches_all [OF d], of host s] obtain u where oc: "open_conn dial host s = (Inr (length (heap s)), u)"
    and u: "length (heap u) = Suc (length (heap s))" "\<not> closed (heap u ! length (heap s))"
      "conn_addr (heap u ! length (heap s)) = host" "same_pool s u" "leader_conns u = leader_conns s" "leader_host u = leader_host s"
    by blast
  let ?s1 = "u\<lparr>leader_conns := (leader_conns u)[i := Some (length (heap s))], leader_host := Some host\<rparr>"
  have il: "i < length (leader_conns s)" using Cons.prems(2) by simp
  have f: "fill_slot dial host i s = Some ?s1" using oc il u by (simp add: fill_slot_def)
  from fill_slot_ok [OF Cons.prems(1) il, of dial host] f have inv1: "cluster_inv ?s1" and sp1: "same_pool s ?s1" by simp_all
  have "\<forall>i \<in> set slots. i < length (leader_conns ?s1)" using Cons.prems(2) u by simp
  from Cons.IH [OF inv1 this] obtain t where t: "fill_slots dial host slots ?s1 = Some t" "cluster_inv t" "same_pool ?s1 t"
    "length (leader_conns t) = length (leader_conns ?s1)" "leader_host t = Some host"
    "\<And>j. j \<notin> set slots \<Longrightarrow> leader_conns t ! j = leader_conns ?s1 ! j"
    "\<And>j. j \<in> set slots \<Longrightarrow> \<exists>c. leader_conns t ! j = Some c \<and> length (heap ?s1) \<le> c \<and> c < length (heap t)
          \<and> \<not> closed (heap t ! c) \<and> conn_addr (heap t ! c) = host" by auto
  have ht: "heap t ! length (heap s) = heap u ! length (heap s)" "length (heap s) < length (heap t)"
    using same_pool_nth [OF t(3), of "length (heap s)"] t(3) u(1) by (simp_all add: same_pool_def)
  have new: "\<exists>c. leader_conns t ! j = Some c \<and> length (heap s) \<le> c \<and> c < length (heap t)
          \<and> \<not> closed (heap t ! c) \<and> conn_addr (heap t ! c) = host" if "j \<in> set (i # slots)" for j
  proof (cases "j \<in> set slots")
    case True
    with t(7) [of j] u(1) show ?thesis by fastforce
  next
    case False
    with that have "j = i" by simp
    with t(6) [OF False] il u(5) have "leader_conns t ! j = Some (length (heap s))" by simp
    with ht u show ?thesis by auto
  qed
  have "leader_conns t ! j = leader_conns s ! j" if "j \<notin> set (i # slots)" for j
    using that t(6) [of j] u(5) by simp
  with new t f sp1 u same_pool_trans [OF sp1 t(3)] show ?case by simp
qed simp

lemma open_slot_required: "i < length (leader_conns s) \<Longrightarrow> i \<in> set (required_slots s) \<longleftrightarrow> \<not> open_slot s i"
  by (force simp: required_slots_def open_slot_def in_set_enumerate_eq image_iff split: option.splits)

text \<open>C24: After \<^verbatim>\<open>sync_leader\<close> with a reachable leader every slot holds an open connection: the ones
  that were open are kept if the leader is the same as before, and all others are new connections to
  the leader. The stored leader is the one given.\<close>
theorem sync_leader_fills_slots:
  assumes d: "all_dials_succeed dial" and inv: "cluster_inv s"
  shows "\<exists>t. sync_leader dial host s = Some t \<and> cluster_inv t \<and> leader_host t = Some host
    \<and> (\<forall>i < per_node s. open_slot t i \<and>
        (if leader_host s = Some host \<and> open_slot s i then leader_conns t ! i = leader_conns s ! i
         else \<exists>c. leader_conns t ! i = Some c \<and> length (heap s) \<le> c \<and> conn_addr (heap t ! c) = host))
    \<and> followers t = followers s"
proof -
  let ?s1 = "reset_leader host s"
  have inv1: "cluster_inv ?s1" by (rule reset_leader_inv [OF inv])
  have e: "heap ?s1 = heap s" "followers ?s1 = followers s" "cl_cfg ?s1 = cl_cfg s" "leader_host ?s1 = Some host"
    by (simp_all add: reset_leader_def)
  have len: "length (leader_conns ?s1) = per_node s" using inv1 e by (simp add: cluster_inv_def)
  obtain t where t: "fill_slots dial host (required_slots ?s1) ?s1 = Some t" "cluster_inv t" "same_pool ?s1 t"
    "length (leader_conns t) = length (leader_conns ?s1)" "leader_host t = Some host"
    "\<And>i. i \<notin> set (required_slots ?s1) \<Longrightarrow> leader_conns t ! i = leader_conns ?s1 ! i"
    "\<And>i. i \<in> set (required_slots ?s1) \<Longrightarrow> \<exists>c. leader_conns t ! i = Some c \<and> length (heap s) \<le> c \<and> c < length (heap t)
          \<and> \<not> closed (heap t ! c) \<and> conn_addr (heap t ! c) = host"
    using fill_slots_full [OF d inv1, of "required_slots ?s1" host] required_slots_less e by auto
  have slot: "open_slot t i \<and>
        (if leader_host s = Some host \<and> open_slot s i then leader_conns t ! i = leader_conns s ! i
         else \<exists>c. leader_conns t ! i = Some c \<and> length (heap s) \<le> c \<and> conn_addr (heap t ! c) = host)" if i: "i < per_node s" for i
  proof (cases "i \<in> set (required_slots ?s1)")
    case True
    then have "\<not> open_slot ?s1 i" using open_slot_required [of i ?s1] i len by simp
    then have "\<not> (leader_host s = Some host \<and> open_slot s i)" by (auto simp: reset_leader_def)
    with t(7) [OF True] i len t(4) show ?thesis by (auto simp: open_slot_def conn_closed_def is_closed_def)
  next
    case False
    then have o: "open_slot ?s1 i" using open_slot_required [of i ?s1] i len by simp
    then have lh: "leader_host s = Some host" by (auto simp: reset_leader_def open_slot_def split: if_splits)
    then have s1: "?s1 = s" by (simp add: reset_leader_def)
    from o s1 obtain c where c: "leader_conns s ! i = Some c" "\<not> conn_closed s c" by (auto simp: open_slot_def)
    then have "Some c \<in> set (leader_conns s)" using i len s1 nth_mem [of i "leader_conns s"] by simp
    then have "c < length (heap s)" using inv unfolding cluster_inv_def by blast
    then have "\<not> conn_closed t c" using same_pool_closed [OF t(3)] c s1 by simp
    with t(6) [OF False] c o lh i len t(4) show ?thesis by (simp add: s1 open_slot_def)
  qed
  have "sync_leader dial host s = Some t" using t(1) by (simp add: sync_leader_def Let_def)
  moreover have "followers t = followers s" using t(3) e by (simp add: same_pool_def)
  ultimately show ?thesis using t(2,5) slot by blast
qed

lemma update_absent: "k \<notin> fst ` set m \<Longrightarrow> AList.update k v m = m @ [(k, v)]"
  by (induction m) auto

text \<open>Dialing when every dial succeeds: every node gets what was asked for.\<close>

lemma dial_node_full:
  assumes d: "reaches dial host"
  shows "dial_node dial host k new s = (new', t) \<Longrightarrow>
    map_of new' = (if k = 0 then map_of new else (map_of new)(host \<mapsto>
      (case map_of new host of None \<Rightarrow> [] | Some v \<Rightarrow> v) @ map Some [length (heap s)..<length (heap s) + k]))
    \<and> same_pool s t \<and> leader_conns t = leader_conns s \<and> length (heap t) = length (heap s) + k
    \<and> (\<forall>r. length (heap s) \<le> r \<longrightarrow> r < length (heap t) \<longrightarrow> \<not> conn_closed t r)"
proof (induction k arbitrary: new s)
  case 0
  then show ?case by simp
next
  case (Suc k)
  let ?hl = "length (heap s)"
  from open_conn_success [OF d, of s] obtain u where oc: "open_conn dial host s = (Inr ?hl, u)"
    and u: "length (heap u) = Suc ?hl" "\<not> closed (heap u ! ?hl)" "same_pool s u" "leader_conns u = leader_conns s" by blast
  let ?v = "(case map_of new host of None \<Rightarrow> [] | Some v \<Rightarrow> v) @ [Some ?hl]"
  have "dial_node dial host k (AList.update host ?v new) u = (new', t)"
    using Suc.prems oc by (simp add: dial_one_def)
  note ih = Suc.IH [OF this]
  have st: "same_pool u t" using ih by simp
  have c: "\<not> conn_closed t ?hl" using same_pool_closed [OF st, of ?hl] u by (simp add: conn_closed_def is_closed_def)
  have "\<not> conn_closed t r" if "?hl \<le> r" "r < length (heap t)" for r
    using that ih c u(1) by (cases "r = ?hl") auto
  moreover have "[?hl..<?hl + Suc k] = ?hl # [Suc ?hl..<Suc ?hl + k]" by (simp add: upt_conv_Cons)
  moreover have "same_pool s t" by (rule same_pool_trans [OF u(3) st])
  ultimately show ?case using ih u by (cases "k = 0") (auto simp: fun_eq_iff)
qed

lemma dial_node_refused:
  assumes d: "refuses dial host"
  shows "dial_node dial host k new s = (new', t) \<Longrightarrow> new' = new \<and> same_pool s t \<and> leader_conns t = leader_conns s \<and> heap t = heap s"
proof (induction k arbitrary: s)
  case (Suc k)
  obtain e where "dial (dials s) host = Inl e" using d unfolding refuses_def by blast
  then have "open_conn dial host s = (Inl (Io e), s\<lparr>dials := dials s + 1\<rparr>)" by (simp add: open_conn_def connect_def)
  then have "dial_node dial host k new (s\<lparr>dials := dials s + 1\<rparr>) = (new', t)" using Suc.prems by (simp add: dial_one_def)
  from Suc.IH [OF this] show ?case by (simp add: same_pool_def)
qed (simp add: same_pool_def)

lemma dial_all_full:
  assumes n: "0 < n"
  shows "dial_all dial req new s = (new', t) \<Longrightarrow> distinct (map fst req) \<Longrightarrow>
    \<forall>(h, k) \<in> set req. k = n \<and> map_of new h = None \<and> (reaches dial h \<or> refuses dial h) \<Longrightarrow>
    same_pool s t \<and> leader_conns t = leader_conns s
    \<and> (\<forall>nm. if nm \<in> fst ` set req \<and> reaches dial nm
         then \<exists>b. map_of new' nm = Some (map Some [b..<b + n]) \<and> length (heap s) \<le> b \<and> b + n \<le> length (heap t)
         else map_of new' nm = map_of new nm)
    \<and> (\<forall>r. length (heap s) \<le> r \<longrightarrow> r < length (heap t) \<longrightarrow> \<not> conn_closed t r)"
proof (induction req arbitrary: new s)
  case Nil
  then show ?case by simp
next
  case (Cons x req)
  obtain host where x: "x = (host, n)" and hn: "map_of new host = None" and hd: "reaches dial host \<or> refuses dial host"
    using Cons.prems(3) by (cases x) auto
  obtain new1 s1 where dn: "dial_node dial host n new s = (new1, s1)" by (cases "dial_node dial host n new s")
  let ?hl = "length (heap s)"
  have nr: "\<not> (reaches dial host \<and> refuses dial host)" unfolding reaches_def refuses_def by (metis Inr_not_Inl)
  have one: "same_pool s s1" "leader_conns s1 = leader_conns s" "\<And>r. ?hl \<le> r \<Longrightarrow> r < length (heap s1) \<Longrightarrow> \<not> conn_closed s1 r"
    and m1: "map_of new1 = (if reaches dial host then (map_of new)(host \<mapsto> map Some [?hl..<?hl + n]) else map_of new)"
    and l1: "length (heap s1) = (if reaches dial host then ?hl + n else ?hl)"
    using hd nr dial_node_full [OF _ dn] dial_node_refused [OF _ dn] hn n by auto
  have da: "dial_all dial req new1 s1 = (new', t)" using Cons.prems(1) x dn by simp
  have dr: "distinct (map fst req)" and hr: "host \<notin> fst ` set req" using Cons.prems(2) x by simp_all
  have "\<forall>(h, k) \<in> set req. k = n \<and> map_of new1 h = None \<and> (reaches dial h \<or> refuses dial h)"
    using Cons.prems(3) hr unfolding m1 by (force simp: image_iff)
  note ih = Cons.IH [OF da dr this]
  have st: "same_pool s1 t" using ih by simp
  have l: "?hl \<le> length (heap s1)" "length (heap s1) \<le> length (heap t)" using one(1) st by (simp_all add: same_pool_def)
  have "if nm \<in> fst ` set (x # req) \<and> reaches dial nm
         then \<exists>b. map_of new' nm = Some (map Some [b..<b + n]) \<and> ?hl \<le> b \<and> b + n \<le> length (heap t)
         else map_of new' nm = map_of new nm" for nm
  proof (cases "nm \<in> fst ` set req \<and> reaches dial nm")
    case True
    then obtain b where "map_of new' nm = Some (map Some [b..<b + n])" "length (heap s1) \<le> b" "b + n \<le> length (heap t)"
      using ih by meson
    with True l show ?thesis by (auto intro!: exI [of _ b])
  next
    case False
    then have "map_of new' nm = map_of new1 nm" using ih by simp
    with False l l1 show ?thesis by (auto simp: x m1)
  qed
  moreover have "\<not> conn_closed t r" if "?hl \<le> r" "r < length (heap t)" for r
  proof (cases "r < length (heap s1)")
    case True
    then show ?thesis using one(3) that same_pool_closed [OF st] by simp
  qed (use ih that in auto)
  ultimately show ?case using same_pool_trans [OF one(1) st] ih one by simp
qed

text \<open>Committing new nodes into a pool that does not know them.\<close>

lemma store_conns_fresh:
  "store_conns nm nidx free i (map Some rs) s = Some t \<Longrightarrow> map_of (follower_history (lb s)) (nm, nidx) \<noteq> None \<or> rs = [] \<Longrightarrow>
    follower_history (lb t) = follower_history (lb s)"
proof (induction rs arbitrary: i s)
  case (Cons r rs)
  then obtain cid where "idx free i = Some cid" by (cases "idx free i") auto
  with Cons show ?case by (auto simp: or_insert_def)
qed simp

lemma store_conns_new:
  assumes "store_conns nm nidx free 0 (map Some rs) s = Some t" and "rs \<noteq> []" and "map_of (follower_history (lb s)) (nm, nidx) = None"
  shows "\<exists>v. follower_history (lb t) = follower_history (lb s) @ [((nm, nidx), v)]"
proof -
  obtain r rs' where rs: "rs = r # rs'" using assms(2) by (cases rs) auto
  obtain cid where c: "idx free 0 = Some cid" using assms(1) rs by (cases "idx free 0") auto
  have h: "or_insert (nm, nidx) cid (follower_history (lb s)) = follower_history (lb s) @ [((nm, nidx), cid)]"
    using assms(3) update_absent [of "(nm, nidx)" "follower_history (lb s)" cid]
    by (simp add: or_insert_def map_of_eq_None_iff split: option.splits)
  show ?thesis
    using assms(1) store_conns_fresh [of nm nidx free 1 rs'] h unfolding rs by (fastforce simp: c)
qed

lemma store_conns_all:
  "store_conns nm nidx free i (map Some rs) s = Some t \<Longrightarrow> distinct free \<Longrightarrow> i + length rs \<le> length free \<Longrightarrow>
    (\<forall>l < length rs. map_of (followers t) (nm, nidx, free ! (i + l)) = Some (rs ! l))
    \<and> (\<forall>k. (\<forall>l < length rs. k \<noteq> (nm, nidx, free ! (i + l))) \<longrightarrow> map_of (followers t) k = map_of (followers s) k)"
proof (induction rs arbitrary: i s)
  case (Cons r rs)
  have x: "idx free i = Some (free ! i)" using Cons.prems(3) by simp
  define u where "u = s\<lparr>followers := AList.update (nm, nidx, free ! i) r (followers s),
          lb := (lb s)\<lparr>follower_history := or_insert (nm, nidx) (free ! i) (follower_history (lb s))\<rparr>\<rparr>"
  have "store_conns nm nidx free (Suc i) (map Some rs) u = Some t" using Cons.prems(1) x by (simp add: u_def)
  note ih = Cons.IH [OF this Cons.prems(2)]
  have fu: "map_of (followers u) = (map_of (followers s))((nm, nidx, free ! i) \<mapsto> r)" by (simp add: u_def)
  have ne: "free ! i \<noteq> free ! (Suc i + l)" if "l < length rs" for l
    using that Cons.prems(2,3) by (simp add: nth_eq_iff_index_eq)
  have ih': "\<forall>l < length rs. map_of (followers t) (nm, nidx, free ! (Suc i + l)) = Some (rs ! l)"
    "\<And>k. \<forall>l < length rs. k \<noteq> (nm, nidx, free ! (Suc i + l)) \<Longrightarrow> map_of (followers t) k = map_of (followers u) k"
    using ih Cons.prems(3) by auto
  have zero: "map_of (followers t) (nm, nidx, free ! i) = Some r"
    using ih'(2) [of "(nm, nidx, free ! i)"] ne by (simp add: fu)
  have "map_of (followers t) (nm, nidx, free ! (i + l)) = Some ((r # rs) ! l)" if "l < length (r # rs)" for l
    using that zero ih'(1) by (cases l) auto
  moreover have "map_of (followers t) k = map_of (followers s) k" if "\<forall>l < length (r # rs). k \<noteq> (nm, nidx, free ! (i + l))" for k
  proof -
    have "k \<noteq> (nm, nidx, free ! i)" "\<forall>l < length rs. k \<noteq> (nm, nidx, free ! (Suc i + l))"
      using that by (force, force)
    then show ?thesis using ih'(2) by (simp add: fu)
  qed
  ultimately show ?case by blast
qed simp

lemma conns_of_0: "conns_of nm fo = 0 \<longleftrightarrow> (\<forall>i c r. ((nm, i, c), r) \<notin> set fo)"
  by (auto simp: conns_of_def filter_empty_conv)

lemma fresh_free_conn_ids:
  assumes ho: "valid_hash_order ho" and "per_node s < 2 ^ 32" and "conns_of nm (followers s) = 0"
  shows "free_conn_ids ho nm s = [0..<per_node s]"
proof -
  have "set (ord_followers ho (followers s)) = set (followers s)" using ho by (metis valid_hash_order_def set_mset_mset)
  then have "filter (\<lambda>((x, _, _), c). nm = x \<and> \<not> conn_closed s c) (ord_followers ho (followers s)) = []"
    using assms(3) by (auto simp: conns_of_0 filter_empty_conv)
  then show ?thesis using assms(2) by (simp add: free_conn_ids_def)
qed

lemma fresh_choose:
  assumes ho: "valid_hash_order ho" and "conns_of nm (followers s) = 0" and "map_of asg nm = None" and "free \<noteq> []"
  shows "choose_node_id ho nm free asg s = Some (last free, butlast free, AList.update nm (last free) asg)"
proof -
  have "set (ord_followers ho (followers s)) = set (followers s)" using ho by (metis valid_hash_order_def set_mset_mset)
  then have "find (\<lambda>((n, _, _), _). nm = n) (ord_followers ho (followers s)) = None"
    using assms(2) by (auto simp: conns_of_0 find_None_iff)
  then show ?thesis using assms by (simp add: choose_node_id_def)
qed

lemma commit_fresh:
  assumes ho: "valid_hash_order ho"
  shows "per_node s < 2 ^ 32 \<Longrightarrow> 0 < per_node s \<Longrightarrow> pool s \<Longrightarrow> asg_ok asg (follower_history (lb s)) \<Longrightarrow> distinct (map fst new) \<Longrightarrow>
    \<forall>(nm, cs) \<in> set new. conns_of nm (followers s) = 0 \<and> map_of asg nm = None \<and>
      (\<exists>rs. cs = map Some rs \<and> length rs = per_node s \<and> (\<forall>r \<in> set rs. r < length (heap s) \<and> \<not> conn_closed s r)) \<Longrightarrow>
    length new \<le> length free \<Longrightarrow>
    \<exists>t. commit_nodes ho new free asg s = Some t \<and> same_rest s t \<and> pool t
      \<and> history_ids t = history_ids s @ take (length new) (rev free) \<and> (\<forall>nm \<in> fst ` set new. full_node t nm)
      \<and> (\<forall>k. fst k \<notin> fst ` set new \<longrightarrow> map_of (followers t) k = map_of (followers s) k)"
proof (induction new arbitrary: free asg s)
  case (Cons x new)
  let ?n = "per_node s"
  obtain nm cs where x: "x = (nm, cs)" by (cases x)
  then obtain rs where cs: "cs = map Some rs" "length rs = ?n" "\<forall>r \<in> set rs. r < length (heap s) \<and> \<not> conn_closed s r"
    and c0: "conns_of nm (followers s) = 0" and a0: "map_of asg nm = None" using Cons.prems(6) by auto
  have fne: "free \<noteq> []" using Cons.prems(7) by auto
  define i where "i = last free"
  define asg1 where "asg1 = AList.update nm i asg"
  have ch: "choose_node_id ho nm free asg s = Some (i, butlast free, asg1)"
    using fresh_choose [OF ho c0 a0 fne] by (simp add: i_def asg1_def)
  note a1 = choose_node_id_ok [OF ho Cons.prems(3,4) ch]
  note fi = fresh_free_conn_ids [OF ho Cons.prems(1) c0]
  have "\<forall>c \<in> set [0..<?n]. c < per_node s" "0 + length cs \<le> length [0..<?n]" "\<forall>r. Some r \<in> set cs \<longrightarrow> r < length (heap s)"
    using cs by auto
  from store_conns_ok [OF Cons.prems(3) a1 [THEN conjunct1] a1 [THEN conjunct2] this]
  obtain u where u: "store_conns nm i [0..<?n] 0 cs s = Some u" "same_rest s u" "pool u" "asg_ok asg1 (follower_history (lb u))"
    "\<And>m. m \<noteq> nm \<Longrightarrow> conns_of m (followers u) = conns_of m (followers s)" by blast
  note ru = same_restD [OF u(2)]
  have cc: "conn_closed u = conn_closed s" using ru by (simp add: conn_closed_def fun_eq_iff)
  have h0: "map_of (follower_history (lb s)) (nm, i) = None"
    using Cons.prems(4) a0 unfolding asg_ok_def by (metis option.distinct(1))
  have "rs \<noteq> []" using cs(2) Cons.prems(2) by auto
  from store_conns_new [OF u(1) [unfolded cs(1)] this h0] have hu: "history_ids u = history_ids s @ [i]"
    by (auto simp: history_ids_def)
  have sall: "\<forall>l < ?n. map_of (followers u) (nm, i, l) = Some (rs ! l)"
    "\<And>k. fst k \<noteq> nm \<Longrightarrow> map_of (followers u) k = map_of (followers s) k"
    using store_conns_all [OF u(1) [unfolded cs(1)]] cs(2) by auto
  define fr where "fr = butlast free"
  have bl: "free = fr @ [i]" using fne by (simp add: i_def fr_def)
  have nn: "nm \<notin> fst ` set new" and dn: "distinct (map fst new)" using Cons.prems(5) x by simp_all
  have "\<forall>(m, cs) \<in> set new. conns_of m (followers u) = 0 \<and> map_of asg1 m = None \<and>
      (\<exists>rs. cs = map Some rs \<and> length rs = per_node u \<and> (\<forall>r \<in> set rs. r < length (heap u) \<and> \<not> conn_closed u r))"
  proof clarify
    fix m cs' assume m: "(m, cs') \<in> set new"
    then have "m \<noteq> nm" using nn by force
    then show "conns_of m (followers u) = 0 \<and> map_of asg1 m = None \<and>
      (\<exists>rs. cs' = map Some rs \<and> length rs = per_node u \<and> (\<forall>r \<in> set rs. r < length (heap u) \<and> \<not> conn_closed u r))"
      using Cons.prems(6) m u(5) ru cc by (auto simp: asg1_def)
  qed
  from Cons.IH [OF _ _ u(3,4) dn this, of fr] obtain t where t: "commit_nodes ho new fr asg1 u = Some t" "same_rest u t" "pool t"
    "history_ids t = history_ids u @ take (length new) (rev fr)" "\<forall>nm \<in> fst ` set new. full_node t nm" "\<And>k. fst k \<notin> fst ` set new \<Longrightarrow> map_of (followers t) k = map_of (followers u) k"
    using Cons.prems(1,2,7) ru by (auto simp: bl)
  have "commit_nodes ho (x # new) free asg s = Some t" using ch u(1) t(1) fi by (simp add: x fr_def)
  moreover have "full_node t nm"
    unfolding full_node_def
  proof (rule exI [of _ i], intro allI impI)
    fix c assume "c < per_node t"
    then have c: "c < ?n" using same_restD [OF t(2)] ru by simp
    then have "map_of (followers t) (nm, i, c) = Some (rs ! c)" using t(6) [of "(nm, i, c)"] nn sall(1) by simp
    moreover have "\<not> conn_closed t (rs ! c)" using cs c same_restD [OF t(2)] ru by (simp add: conn_closed_def)
    ultimately show "\<exists>r. map_of (followers t) (nm, i, c) = Some r \<and> \<not> conn_closed t r" by blast
  qed
  moreover have "map_of (followers t) k = map_of (followers s) k" if "fst k \<notin> fst ` set (x # new)" for k
    using that t(6) [of k] sall(2) [of k] by (simp add: x)
  ultimately show ?case using t same_rest_trans [OF u(2) t(2)] by (simp add: x hu bl)
qed (auto simp: full_node_def)

lemma fold_update_fresh:
  "distinct names \<Longrightarrow> set names \<inter> fst ` set acc = {} \<Longrightarrow>
    fold (\<lambda>name req. AList.update name k req) names acc = acc @ map (\<lambda>nm. (nm, k)) names"
proof (induction names arbitrary: acc)
  case (Cons nm names)
  then have "AList.update nm k acc = acc @ [(nm, k)]" by (intro update_absent) auto
  with Cons show ?case by auto
qed simp

lemma first_required:
  assumes "valid_hash_order ho" and "followers s = []" and "distinct names" and "per_node s < 2 ^ 32"
  shows "required_conns ho names s = Some (map (\<lambda>nm. (nm, per_node s)) names)"
proof -
  have "mset (ord_followers ho []) = mset []" using assms(1) by (simp add: valid_hash_order_def)
  then have c: "current_node_ids ho s = []" using assms(2) by (simp add: current_node_ids_def)
  show ?thesis using assms fold_update_fresh [of names "[]" "per_node s"] by (simp add: required_conns_def c Let_def)
qed

lemma free_node_ids_all:
  assumes "L < 2 ^ 32"
  shows "free_node_ids [] L = [0..<L]"
proof -
  have "fold (\<lambda>i free. if i \<notin> set [] \<and> i \<notin> set free then free @ [i] else free) [0..<k] [] = [0..<k]" for k
    by (induction k) auto
  then show ?thesis using assms by (simp add: free_node_ids_def)
qed

lemma dense_if:
  assumes "distinct (history_ids t)" and "\<forall>i \<in> set (history_ids t). i < L" and "length (history_ids t) = L" and "L < 2 ^ 32"
  shows "dense_history t"
  using assms by (auto simp: dense_history_def history_ids_def)

text \<open>The first synchronisation when some of the followers cannot be reached.\<close>

lemma first_sync_reachable:
  assumes ho: "valid_hash_order ho" and d: "\<forall>nm \<in> set names. reaches dial nm \<or> refuses dial nm" and inv: "cluster_inv s"
    and f: "followers s = []" and h: "follower_history (lb s) = []" and n: "0 < per_node s"
    and names: "distinct names" "length names < 2 ^ 32"
  shows "\<exists>t. sync_followers ho dial names s = Some t \<and> cluster_inv t \<and> leader_conns t = leader_conns s
    \<and> (\<forall>nm \<in> set names. reaches dial nm \<longrightarrow> full_node t nm) \<and> per_node t = per_node s
    \<and> history_ids t = take (length (filter (reaches dial) names)) (rev [0..<length names])"
proof -
  let ?n = "per_node s" and ?req = "map (\<lambda>nm. (nm, per_node s)) names"
  have n32: "?n < 2 ^ 32" using inv by (simp add: cluster_inv_def)
  have req: "required_conns ho names s = Some ?req" by (rule first_required [OF ho f names(1) n32])
  have mr: "mset (ord_required ho ?req) = mset ?req" using ho by (simp add: valid_hash_order_def)
  then have sr: "set (ord_required ho ?req) = set ?req" by (metis set_mset_mset)
  have dr: "distinct (map fst (ord_required ho ?req))"
    by (rule distinct_map_perm [OF mr]) (simp add: comp_def names(1))
  obtain new u where da: "dial_all dial (ord_required ho ?req) [] s = (new, u)" by (cases "dial_all dial (ord_required ho ?req) [] s")
  have c0: "\<forall>(h, k) \<in> set (ord_required ho ?req). k = ?n \<and> map_of ([] :: (string \<times> conn_ref option list) list) h = None
      \<and> (reaches dial h \<or> refuses dial h)" using sr d by auto
  note full = dial_all_full [OF n da dr c0]
  let ?R = "filter (reaches dial) names"
  have keys: "fst ` set (ord_required ho ?req) = set names" using sr by force
  have pend: "pending_ok s (ord_required ho ?req) []"
    using required_conns_ok [OF ho inv, of names] req plan_pending [OF _ ho inv] by auto
  note ok = dial_all_ok [OF pend da]
  have su: "same_pool s u" "leader_conns u = leader_conns s" using ok by simp_all
  have invu: "cluster_inv u" by (rule same_pool_inv [OF inv su])
  have e: "per_node u = ?n" "followers u = []" "follower_history (lb u) = []" using su f h by (simp_all add: same_pool_def)
  have dn: "distinct (map fst new)" using ok pending_okD(1) by blast
  have dom: "fst ` set new = set ?R"
  proof -
    have "map_of new nm \<noteq> None \<longleftrightarrow> nm \<in> set names \<and> reaches dial nm" for nm
      using full keys by (metis map_of.simps(1) option.distinct(1))
    then show ?thesis by (auto simp: map_of_eq_None_iff)
  qed
  let ?new = "ord_new ho new"
  have mn: "mset ?new = mset new" using ho by (simp add: valid_hash_order_def)
  then have sn: "set ?new = set new" by (metis set_mset_mset)
  have dnn: "distinct (map fst ?new)"
    by (rule distinct_map_perm [OF mn dn])
  have "length ?new = card (set (map fst ?new))" using distinct_card [OF dnn] by simp
  then have ln: "length ?new = length ?R" using dom sn names(1) distinct_card [of ?R] by simp
  have entries: "\<forall>(nm, cs) \<in> set ?new. conns_of nm (followers u) = 0 \<and> map_of [] nm = (None :: nat option) \<and>
      (\<exists>rs. cs = map Some rs \<and> length rs = per_node u \<and> (\<forall>r \<in> set rs. r < length (heap u) \<and> \<not> conn_closed u r))"
  proof (unfold sn, clarify)
    fix nm cs assume m: "(nm, cs) \<in> set new"
    then have mo: "map_of new nm = Some cs" using dn by simp
    have "nm \<in> set names \<and> reaches dial nm" using m dom by force
    then obtain b where b: "map_of new nm = Some (map Some [b..<b + ?n])" "length (heap s) \<le> b" "b + ?n \<le> length (heap u)"
      using full keys by metis
    then have "cs = map Some [b..<b + ?n]" using mo by simp
    moreover have "\<forall>r \<in> set [b..<b + ?n]. r < length (heap u) \<and> \<not> conn_closed u r" using full b(2,3) by auto
    ultimately show "conns_of nm (followers u) = 0 \<and> map_of [] nm = (None :: nat option) \<and>
      (\<exists>rs. cs = map Some rs \<and> length rs = per_node u \<and> (\<forall>r \<in> set rs. r < length (heap u) \<and> \<not> conn_closed u r))"
      by (auto simp: conns_of_def e intro!: exI [of _ "[b..<b + ?n]"])
  qed
  have mt: "ord_followers ho [] = []" "ord_history ho [] = []"
    using ho by (simp_all add: valid_hash_order_def) (metis mset_zero_iff)+
  have cf: "commit_followers ho names new u = commit_nodes ho ?new [0..<length names] [] u"
    using free_node_ids_all [OF names(2)] by (simp add: commit_followers_def e mt assigned_node_ids_def)
  have pu: "pool u" and hid: "history_ids u = []" using invu e by (simp_all add: cluster_inv_def history_ids_def)
  obtain t where t: "commit_nodes ho ?new [0..<length names] [] u = Some t" "same_rest u t" "pool t"
    "history_ids t = take (length ?R) (rev [0..<length names])" "\<forall>nm \<in> set names. reaches dial nm \<longrightarrow> full_node t nm"
    using commit_fresh [OF ho _ _ pu _ dnn entries, of "[0..<length names]"] n n32 e hid ln dom sn
    by (auto simp: asg_ok_def)
  have sf: "sync_followers ho dial names s = Some t" using req da cf t(1) by (simp add: sync_followers_def)
  have invt: "cluster_inv t" using invu t(3) same_restD [OF t(2)] by (simp add: cluster_inv_def)
  with sf t(4,5) su e same_restD [OF t(2)] show ?thesis by auto
qed

text \<open>C25: The first synchronisation with reachable followers gives every follower its full number of
  open connections and gives the nodes the indices below their number, so that afterwards
  \<^verbatim>\<open>next_follower_conn\<close> finds a connection, whatever the iteration orders.\<close>
theorem first_sync_connects_followers:
  assumes ho: "valid_hash_order ho" and d: "all_dials_succeed dial" and inv: "cluster_inv s"
    and f: "followers s = []" and h: "follower_history (lb s) = []" and n: "0 < per_node s"
    and names: "distinct names" "length names < 2 ^ 32"
  shows "\<exists>t. sync_followers ho dial names s = Some t \<and> cluster_inv t \<and> dense_history t \<and> leader_conns t = leader_conns s
    \<and> (\<forall>nm \<in> set names. full_node t nm) \<and> (names \<noteq> [] \<longrightarrow> fst (next_follower_conn ho now t) \<noteq> None)"
proof -
  have r: "filter (reaches dial) names = names" and d': "\<forall>nm \<in> set names. reaches dial nm" using reaches_all [OF d] by simp_all
  obtain t where t: "sync_followers ho dial names s = Some t" "cluster_inv t" "leader_conns t = leader_conns s"
    "\<forall>nm \<in> set names. full_node t nm" "per_node t = per_node s" "history_ids t = rev [0..<length names]"
    using first_sync_reachable [OF ho _ inv f h n names, of dial] d' r by auto
  have dense: "dense_history t" by (rule dense_if [of t "length names"]) (use t(6) names(2) in auto)
  have "fst (next_follower_conn ho now t) \<noteq> None" if "names \<noteq> []"
  proof -
    obtain nm where "nm \<in> set names" using \<open>names \<noteq> []\<close> by (cases names) auto
    moreover have "0 < per_node t" using t(5) n by simp
    ultimately obtain i r where "map_of (followers t) (nm, i, 0) = Some r" "\<not> conn_closed t r"
      using t(4) unfolding full_node_def by blast
    then show ?thesis by (rule next_follower_complete [OF ho t(2) dense])
  qed
  with t dense show ?thesis by auto
qed

text \<open>C38: If at most half of the followers can be reached at the first synchronisation, the connections to those that can are open and in
  the map, and yet \<^verbatim>\<open>next_follower_conn\<close> reports that there is no follower, whatever the iteration orders and the time: the indices are handed out from the largest
  down, and the search only looks at indices below the number of nodes that got one.\<close>
theorem unreachable_nodes_hide_followers:
  assumes ho: "valid_hash_order ho" "valid_hash_order ho'" and d: "\<forall>nm \<in> set names. reaches dial nm \<or> refuses dial nm"
    and inv: "cluster_inv s" and f: "followers s = []" and h: "follower_history (lb s) = []" and n: "0 < per_node s"
    and names: "distinct names" "length names < 2 ^ 32"
    and half: "2 * length (filter (reaches dial) names) \<le> length names"
  shows "\<exists>t. sync_followers ho dial names s = Some t \<and> (\<forall>nm \<in> set names. reaches dial nm \<longrightarrow> full_node t nm)
    \<and> fst (next_follower_conn ho' now t) = None"
proof -
  let ?k = "length (filter (reaches dial) names)"
  obtain t where t: "sync_followers ho dial names s = Some t" "cluster_inv t" "\<forall>nm \<in> set names. reaches dial nm \<longrightarrow> full_node t nm"
    "history_ids t = take ?k (rev [0..<length names])"
    using first_sync_reachable [OF ho(1) d inv f h n names] by auto
  have len: "length (follower_history (lb t)) = ?k"
    using t(4) half length_map [of "\<lambda>((_, i), _). i" "follower_history (lb t)"] by (simp add: history_ids_def)
  have big: "length names - ?k \<le> i" if "i \<in> set (history_ids t)" for i
    using that half unfolding t(4) by (auto simp: take_rev)
  have "fst (next_follower_conn ho' now t) = None"
  proof (rule ccontr)
    assume "fst (next_follower_conn ho' now t) \<noteq> None"
    then obtain r u sends where nf: "follower_rounds ho' now ?k t = (Some r, u, sends)"
      unfolding next_follower_conn_def len by (metis not_None_eq prod.collapse)
    then have ne: "follower_history (lb t) \<noteq> []" using len by auto
    obtain nm i c where m: "map_of (followers t) (nm, i, c) = Some r" and i: "i < ?k"
      using rounds_in_range [OF ho(2) t(2) ne nf] len by auto
    then have "map_of (follower_history (lb t)) (nm, i) \<noteq> None" using t(2) unfolding cluster_inv_def pool_inv_def by blast
    then have "i \<in> set (history_ids t)" by (force simp: history_ids_def dest: map_of_SomeD)
    from big [OF this] i half show False by simp
  qed
  with t show ?thesis by blast
qed

lemma fresh_handler_inv: "cluster_inv fresh_handler"
  unfolding fresh_handler_def by (rule cluster_new_inv) (simp add: pool_config_def default_config_def)

lemmas fresh_simps = fresh_handler_def ClusterHandler_new_def pool_config_def default_config_def

lemma pool_sample_inv: "cluster_inv pool_sample"
  by (auto simp: cluster_inv_def pool_sample_def fresh_simps pool_inv_def split: if_splits)

lemma pool_sample_open: "\<not> conn_closed pool_sample 0" "\<not> conn_closed pool_sample 1"
  by (simp_all add: conn_closed_def is_closed_def pool_sample_def sample_conn_def)

lemma sample_discover:
  "discover sample_json sample_order \<lparr>net_known = (\<lambda>_ _. sample_get), net_rzid = sample_get, net_fresh = (\<lambda>_ _. sample_get)\<rparr> sample_discovery
    = (Inr \<lparr>topo_leader = ''h1'', topo_followers = [''h2'']\<rparr>, sample_discovery\<lparr>known_node_ids := [''a'', ''b'']\<rparr>)"
proof -
  have "known_node_ids sample_discovery = [''a'']" by (simp add: sample_discovery_def TopologyDiscovery_new_def)
  then show ?thesis by (simp add: discover_def sample_discovered remember_def)
qed

lemma filling_reachable: "cluster_reachable pool_config sample_discovery (filling, Sync_Fill ''h1'' [0] [''h2''])"
proof -
  let ?s1 = "fresh_handler\<lparr>discovery := sample_discovery\<lparr>known_node_ids := [''a'', ''b'']\<rparr>, syncing := True\<rparr>"
  have "cluster_reachable pool_config sample_discovery (fresh_handler, Sync_Idle)"
    unfolding fresh_handler_def by (rule cluster_start)
  moreover have "cluster_step (fresh_handler, Sync_Idle) (?s1, Sync_Reset ''h1'' [''h2''])"
  proof -
    have "discovery fresh_handler = sample_discovery" "\<not> syncing fresh_handler" by (simp_all add: fresh_simps)
    with sync_start [of fresh_handler, OF _ sample_discover [folded this(1)]] show ?thesis by simp
  qed
  moreover have "cluster_step (?s1, Sync_Reset ''h1'' [''h2'']) (filling, Sync_Scan ''h1'' [''h2''])"
    using sync_reset [of ?s1 "''h1''" "[''h2'']"] by (simp add: reset_leader_def filling_def fresh_simps)
  moreover have "cluster_step (filling, Sync_Scan ''h1'' [''h2'']) (filling, Sync_Fill ''h1'' [0] [''h2''])"
    using sync_scan [of filling "''h1''" "[''h2'']"] by (simp add: required_slots_def filling_def fresh_simps)
  ultimately show ?thesis by (meson cluster_more)
qed

lemma sync_never_panics_witness:
  "(\<forall>dial. fill_slot dial ''h1'' 0 filling \<noteq> None) \<and> length (leader_conns filling) = 1"
proof -
  have "conn_per_roomzin_node pool_config < 2 ^ 32" by (simp add: pool_config_def default_config_def)
  from sync_never_panics [OF filling_reachable this] show ?thesis
    by (simp add: sync_safe_def filling_def fresh_simps)
qed

lemma next_leader_round_robin_witness:
  "case fst (next_leader_conn 0 pool_sample) of None \<Rightarrow> \<forall>i. \<not> open_slot pool_sample i | Some c \<Rightarrow> leader_conns pool_sample ! 0 = Some c"
proof -
  obtain res t sends where n: "next_leader_conn 0 pool_sample = (res, t, sends)" by (rule prod_cases3)
  have p: "per_node pool_sample = 1" by (simp add: pool_sample_def fresh_simps)
  from next_leader_round_robin [OF pool_sample_inv n, unfolded p] show ?thesis unfolding n by (cases res) simp_all
qed

lemma next_follower_finds_open_witness:
  "\<exists>c. fst (next_follower_conn list_order 0 pool_sample) = Some c \<and> \<not> conn_closed pool_sample c"
  by (rule next_follower_finds_open [OF list_order_valid pool_sample_inv])
    (use pool_sample_open in \<open>simp_all add: dense_history_def any_follower_conn_def pool_sample_def\<close>)

lemma sync_leader_fills_slots_witness:
  "\<exists>t. sync_leader dial_ok ''h1'' fresh_handler = Some t \<and> leader_host t = Some ''h1'' \<and> open_slot t 0"
proof -
  have d: "all_dials_succeed dial_ok" by (simp add: all_dials_succeed_def dial_ok_def)
  have "per_node fresh_handler = 1" by (simp add: fresh_simps)
  with sync_leader_fills_slots [OF d fresh_handler_inv, of "''h1''"] show ?thesis by auto
qed

lemma first_sync_connects_followers_witness:
  "\<exists>t. sync_followers list_order dial_ok [''a'', ''b''] fresh_handler = Some t \<and> dense_history t \<and> full_node t ''a'' \<and> full_node t ''b''
    \<and> fst (next_follower_conn list_order 0 t) \<noteq> None"
proof -
  have d: "all_dials_succeed dial_ok" by (simp add: all_dials_succeed_def dial_ok_def)
  from first_sync_connects_followers [OF list_order_valid d fresh_handler_inv, of "[''a'', ''b'']" 0] show ?thesis
    by (auto simp: fresh_simps)
qed

lemma unreachable_nodes_hide_followers_witness:
  "\<exists>t. sync_followers list_order dial_not_b [''a'', ''b''] fresh_handler = Some t \<and> full_node t ''a''
    \<and> fst (next_follower_conn list_order 0 t) = None"
proof -
  have "reaches dial_not_b ''a''" "\<not> reaches dial_not_b ''b''" "refuses dial_not_b ''b''"
    by (auto simp: reaches_def refuses_def dial_not_b_def)
  with unreachable_nodes_hide_followers [OF list_order_valid list_order_valid _ fresh_handler_inv, of "[''a'', ''b'']" dial_not_b 0]
  show ?thesis by (auto simp: fresh_simps)
qed

end
