(* ===== verification/Rz_Metrics.thy ===== *)
theory Rz_Metrics
  imports Rz_Prelude
begin

text \<open>
  \<^verbatim>\<open>src/metrics.rs\<close>: the eleven counters of the bridge. A counter of the \<^verbatim>\<open>metrics\<close> crate is
  write-only for the program and is modelled by the sum of its increments. The Prometheus
  recorder is a library; whether it can be installed is a parameter, and \<^verbatim>\<open>Metrics::new\<close> panics
  (\<open>None\<close>) when it cannot.
\<close>

record BridgeMetrics =
  connections_opened :: nat
  connections_closed :: nat
  frames_received :: nat
  frames_executed :: nat
  bytes_received :: nat
  bytes_sent :: nat
  keepalives_received :: nat
  client_errors :: nat
  execute_errors :: nat
  timeouts :: nat
  resyncs :: nat

definition BridgeMetrics_new :: BridgeMetrics where
  "BridgeMetrics_new =
     \<lparr>connections_opened = 0, connections_closed = 0, frames_received = 0, frames_executed = 0,
      bytes_received = 0, bytes_sent = 0, keepalives_received = 0, client_errors = 0,
      execute_errors = 0, timeouts = 0, resyncs = 0\<rparr>"

definition Metrics_new :: "bool \<Rightarrow> BridgeMetrics option" where
  "Metrics_new installed = (if installed then Some BridgeMetrics_new else None)"

end
