(* ===== verification/Rz_Tcp_Server.thy ===== *)
theory Rz_Tcp_Server
  imports Rz_Protocol Rz_Config Rz_Metrics Rz_Executor
begin

text \<open>
  \<^verbatim>\<open>src/tcp_server.rs\<close>: the router-facing server. \<open>drain_iteration\<close> is one turn of the inner
  loop of \<^verbatim>\<open>handle_connection\<close>, \<open>drain_loop\<close> the loop, \<open>handle_event\<close> one turn of the outer
  \<^verbatim>\<open>select!\<close> loop and \<open>handle_connection\<close> the task of one client connection, run on the
  sequence of events the socket, the timer and the cancellation token produce. The accept loop
  of \<^verbatim>\<open>TcpServer::run\<close> and its close counter are the step relation \<open>server_step\<close>.
  The receive buffer (\<^verbatim>\<open>BytesMut\<close>) is a byte list; \<^verbatim>\<open>advance\<close> and \<^verbatim>\<open>split_to\<close> panic when asked
  for more bytes than there are. What the task does to the outside (requests executed, bytes
  written, close messages sent) is kept in the ghost field \<open>log\<close>.
\<close>

section \<open>One client connection\<close>

datatype action =
    Executed bool bytes "bytes rz_result"
  | Wrote bytes bool
  | Flushed
  | Close_Sent

record handler =
  buf :: bytes
  last_frame_time :: instant
  metrics :: BridgeMetrics
  log :: "action list"

datatype control = Continue | Break | Return | Panic

definition advance :: "nat \<Rightarrow> bytes \<Rightarrow> bytes option" where
  "advance n b = (if n \<le> length b then Some (drop n b) else None)"

definition elapsed :: "instant \<Rightarrow> instant \<Rightarrow> int" where
  "elapsed now t = max 0 (now - t)"

definition emit :: "action list \<Rightarrow> handler \<Rightarrow> handler" where
  "emit as h = h\<lparr>log := log h @ as\<rparr>"

definition bump :: "(BridgeMetrics \<Rightarrow> BridgeMetrics) \<Rightarrow> handler \<Rightarrow> handler" where
  "bump f h = h\<lparr>metrics := f (metrics h)\<rparr>"

abbreviation inc_client_errors :: "BridgeMetrics \<Rightarrow> BridgeMetrics" where
  "inc_client_errors m \<equiv> m\<lparr>client_errors := client_errors m + 1\<rparr>"
abbreviation inc_timeouts :: "BridgeMetrics \<Rightarrow> BridgeMetrics" where
  "inc_timeouts m \<equiv> m\<lparr>timeouts := timeouts m + 1\<rparr>"
abbreviation inc_resyncs :: "BridgeMetrics \<Rightarrow> BridgeMetrics" where
  "inc_resyncs m \<equiv> m\<lparr>resyncs := resyncs m + 1\<rparr>"
abbreviation inc_frames_received :: "BridgeMetrics \<Rightarrow> BridgeMetrics" where
  "inc_frames_received m \<equiv> m\<lparr>frames_received := frames_received m + 1\<rparr>"
abbreviation inc_keepalives :: "BridgeMetrics \<Rightarrow> BridgeMetrics" where
  "inc_keepalives m \<equiv> m\<lparr>keepalives_received := keepalives_received m + 1\<rparr>"
abbreviation inc_execute_errors :: "BridgeMetrics \<Rightarrow> BridgeMetrics" where
  "inc_execute_errors m \<equiv> m\<lparr>execute_errors := execute_errors m + 1\<rparr>"
abbreviation inc_frames_executed :: "BridgeMetrics \<Rightarrow> BridgeMetrics" where
  "inc_frames_executed m \<equiv> m\<lparr>frames_executed := frames_executed m + 1\<rparr>"
abbreviation add_bytes_sent :: "nat \<Rightarrow> BridgeMetrics \<Rightarrow> BridgeMetrics" where
  "add_bytes_sent n m \<equiv> m\<lparr>bytes_sent := bytes_sent m + n\<rparr>"
abbreviation add_bytes_received :: "nat \<Rightarrow> BridgeMetrics \<Rightarrow> BridgeMetrics" where
  "add_bytes_received n m \<equiv> m\<lparr>bytes_received := bytes_received m + n\<rparr>"

text \<open>The arm of a decoded request: execute it and answer, or answer with an error and close.\<close>

definition do_request :: "'w server_io \<Rightarrow> bool \<Rightarrow> bytes \<Rightarrow> u32 \<Rightarrow> handler \<Rightarrow> 'w \<Rightarrow>
    control \<times> handler \<times> 'w" where
  "do_request io iw sf cid h w =
     (case io_execute io iw sf w of
        (Inr resp, w1) \<Rightarrow>
          (let h1 = bump (add_bytes_sent (length resp)) (bump inc_frames_executed
                 (emit [Executed iw sf (Inr resp)] h));
               (ok, w2) = io_write_all io resp w1
           in if \<not> ok then (Return, emit [Wrote resp False, Close_Sent] h1, w2)
              else (Continue, emit [Wrote resp True, Flushed] h1, io_flush io w2))
      | (Inl e, w1) \<Rightarrow>
          (let h1 = bump inc_execute_errors (emit [Executed iw sf (Inl e)] h);
               error_frame = build_error_response cid 4;
               (ok, w2) = io_write_all io error_frame w1
           in (Return, emit [Wrote error_frame ok, Flushed, Close_Sent] h1, io_flush io w2)))"

definition on_frame :: "'w server_io \<Rightarrow> Config \<Rightarrow> nat \<Rightarrow> string \<Rightarrow> bool \<Rightarrow> bytes \<Rightarrow> u32 \<Rightarrow>
    handler \<Rightarrow> 'w \<Rightarrow> control \<times> handler \<times> 'w" where
  "on_frame io cfg flen seg iw sf cid h w =
     (if flen > max_frame_size cfg then
        (Return, emit [Close_Sent] (bump inc_client_errors h), w)
      else
        (let (now, w1) = io_now io w;
             h1 = bump inc_frames_received (h\<lparr>last_frame_time := now\<rparr>)
         in case advance flen (buf h1) of
              None \<Rightarrow> (Panic, h1, w1)
            | Some rest \<Rightarrow>
                (let h2 = h1\<lparr>buf := rest\<rparr>
                 in if seg = KEEPALIVE_SEGMENT then (Continue, bump inc_keepalives h2, w1)
                    else do_request io iw sf cid h2 w1)))"

definition on_parse_error :: "handler \<Rightarrow> 'w \<Rightarrow> control \<times> handler \<times> 'w" where
  "on_parse_error h w =
     (let h1 = bump inc_resyncs (bump inc_client_errors h)
      in if buf h1 = [] then (Break, h1, w)
         else case advance 1 (buf h1) of
             None \<Rightarrow> (Panic, h1, w)
           | Some b1 \<Rightarrow>
               (case find_next_router_magic b1 0 of
                  None \<Rightarrow> (Panic, h1, w)
                | Some (Some pos) \<Rightarrow>
                    (if pos > 0 then
                       case advance pos b1 of
                         None \<Rightarrow> (Panic, h1, w)
                       | Some b2 \<Rightarrow> (Continue, h1\<lparr>buf := b2\<rparr>, w)
                     else (Continue, h1\<lparr>buf := b1\<rparr>, w))
                | Some None \<Rightarrow>
                    (if length b1 > 64 then
                       (let keep = min 8 (length b1)
                        in case advance (length b1 - keep) b1 of
                             None \<Rightarrow> (Panic, h1, w)
                           | Some b2 \<Rightarrow> (Break, h1\<lparr>buf := b2\<rparr>, w))
                     else (Break, h1\<lparr>buf := b1\<rparr>, w))))"

definition drain_iteration :: "'w server_io \<Rightarrow> Config \<Rightarrow> handler \<Rightarrow> 'w \<Rightarrow> control \<times> handler \<times> 'w" where
  "drain_iteration io cfg h w =
     (if length (buf h) > max_buffer_size cfg then
        (Return, emit [Close_Sent] (bump inc_client_errors h), w)
      else case try_decode_router (buf h) of
          None \<Rightarrow> (Panic, h, w)
        | Some NeedMore \<Rightarrow>
            (let (now, w1) = io_now io w
             in if elapsed now (last_frame_time h) > int (frame_timeout cfg) then
                  (Return, emit [Close_Sent] (bump inc_timeouts h), w1)
                else (Break, h, w1))
        | Some (Frame flen seg iw sf off cid) \<Rightarrow> on_frame io cfg flen seg iw sf cid h w
        | Some (Decode_Error e) \<Rightarrow> on_parse_error h w)"

lemma on_parse_error_Continue:
  "on_parse_error h w = (Continue, h', w') \<Longrightarrow> length (buf h') < length (buf h)"
  by (auto simp: on_parse_error_def advance_def bump_def Let_def
      split: if_splits option.splits)

lemma do_request_buf: "do_request io iw sf cid h w = (c, h', w') \<Longrightarrow> buf h' = buf h"
  by (auto simp: do_request_def bump_def emit_def Let_def split: prod.splits sum.splits if_splits)

lemma on_frame_buf:
  "on_frame io cfg flen seg iw sf cid h w = (Continue, h', w') \<Longrightarrow> buf h' = drop flen (buf h)"
  by (auto simp: on_frame_def advance_def bump_def Let_def dest!: do_request_buf
      split: if_splits option.splits prod.splits)

lemma drain_iteration_Continue:
  assumes "drain_iteration io cfg h w = (Continue, h', w')"
  shows "length (buf h') < length (buf h)"
proof (cases "try_decode_router (buf h)")
  case None
  with assms show ?thesis by (simp add: drain_iteration_def split: if_splits)
next
  case (Some r)
  show ?thesis
  proof (cases r)
    case NeedMore
    with Some assms show ?thesis
      by (auto simp: drain_iteration_def split: if_splits prod.splits)
  next
    case (Frame flen seg iw sf off cid)
    with Some have d: "try_decode_router (buf h) = Some (Frame flen seg iw sf off cid)" by simp
    from d assms have "buf h' = drop flen (buf h)"
      by (auto simp: drain_iteration_def dest: on_frame_buf split: if_splits)
    moreover have "0 < flen" "0 < length (buf h)"
      using decode_FrameD(1,4) [OF d] by (auto dest: arg_cong [where f = length])
    ultimately show ?thesis by simp
  next
    case (Decode_Error e)
    with Some assms show ?thesis
      by (auto simp: drain_iteration_def dest: on_parse_error_Continue split: if_splits)
  qed
qed

text \<open>Every iteration that continues consumes input, so the loop ends.\<close>

function drain_loop :: "'w server_io \<Rightarrow> Config \<Rightarrow> handler \<Rightarrow> 'w \<Rightarrow> control \<times> handler \<times> 'w" where
  "drain_loop io cfg h w =
     (case drain_iteration io cfg h w of
        (Continue, h', w') \<Rightarrow> drain_loop io cfg h' w'
      | r \<Rightarrow> r)"
  by pat_completeness auto
termination
  by (relation "measure (\<lambda>(io, cfg, h, w). length (buf h))")
    (auto dest: drain_iteration_Continue [OF sym])

declare drain_loop.simps [simp del]

datatype conn_event = Cancelled_Ev | Read_Ok bytes | Read_Err | Idle_Timeout

definition handle_event :: "'w server_io \<Rightarrow> Config \<Rightarrow> conn_event \<Rightarrow> handler \<Rightarrow> 'w \<Rightarrow>
    control \<times> handler \<times> 'w" where
  "handle_event io cfg ev h w =
     (case ev of
        Cancelled_Ev \<Rightarrow> (Break, h, w)
      | Read_Err \<Rightarrow> (Break, h, w)
      | Idle_Timeout \<Rightarrow> (Break, bump inc_timeouts h, w)
      | Read_Ok bs \<Rightarrow>
          (if bs = [] then (Break, h, w)
           else case drain_loop io cfg
               (bump (add_bytes_received (length bs)) (h\<lparr>buf := buf h @ bs\<rparr>)) w of
             (Break, h', w') \<Rightarrow> (Continue, h', w')
           | r \<Rightarrow> r))"

datatype outcome = Waiting | Finished | Panicked

fun conn_loop :: "'w server_io \<Rightarrow> Config \<Rightarrow> conn_event list \<Rightarrow> handler \<Rightarrow> 'w \<Rightarrow>
    outcome \<times> handler \<times> 'w" where
  "conn_loop io cfg [] h w = (Waiting, h, w)"
| "conn_loop io cfg (ev # evs) h w =
     (case handle_event io cfg ev h w of
        (Continue, h', w') \<Rightarrow> conn_loop io cfg evs h' w'
      | (Break, h', w') \<Rightarrow> (Finished, emit [Close_Sent] h', w')
      | (Return, h', w') \<Rightarrow> (Finished, h', w')
      | (Panic, h', w') \<Rightarrow> (Panicked, h', w'))"

definition handle_connection :: "'w server_io \<Rightarrow> Config \<Rightarrow> BridgeMetrics \<Rightarrow> conn_event list \<Rightarrow> 'w \<Rightarrow>
    outcome \<times> handler \<times> 'w" where
  "handle_connection io cfg m evs w =
     (let (now, w1) = io_now io w
      in conn_loop io cfg evs \<lparr>buf = [], last_frame_time = now, metrics = m, log = []\<rparr> w1)"

section \<open>The accept loop\<close>

text \<open>
  \<open>active\<close> is the atomic connection counter, \<open>live\<close> the number of running connection tasks,
  \<open>pending\<close> the close messages not yet counted, \<open>admitted\<close> whether the accept task has passed
  the limit check and not yet incremented the counter. \<^verbatim>\<open>fetch_sub\<close> wraps at 64 bits.
\<close>

record server =
  active :: nat
  live :: nat
  pending :: nat
  admitted :: bool
  running :: bool
  counting :: bool

definition server_new :: server where
  "server_new = \<lparr>active = 0, live = 0, pending = 0, admitted = False, running = True, counting = True\<rparr>"

inductive server_step :: "Config \<Rightarrow> server \<Rightarrow> server \<Rightarrow> bool" for cfg where
  accept_failed: "running s \<Longrightarrow> \<not> admitted s \<Longrightarrow> server_step cfg s s"
| accept_full: "running s \<Longrightarrow> \<not> admitted s \<Longrightarrow> active s \<ge> max_connections cfg \<Longrightarrow> server_step cfg s s"
| accept_check: "running s \<Longrightarrow> \<not> admitted s \<Longrightarrow> active s < max_connections cfg \<Longrightarrow>
    server_step cfg s (s\<lparr>admitted := True\<rparr>)"
| accept_spawn: "admitted s \<Longrightarrow>
    server_step cfg s (s\<lparr>admitted := False, active := as_u64 (active s + 1), live := live s + 1\<rparr>)"
| conn_done: "live s > 0 \<Longrightarrow> server_step cfg s (s\<lparr>live := live s - 1, pending := pending s + 1\<rparr>)"
| close_counted: "counting s \<Longrightarrow> pending s > 0 \<Longrightarrow>
    server_step cfg s (s\<lparr>pending := pending s - 1, active := as_u64 (active s + (2 ^ 64 - 1))\<rparr>)"
| stop_accepting: "running s \<Longrightarrow> \<not> admitted s \<Longrightarrow> server_step cfg s (s\<lparr>running := False\<rparr>)"
| stop_counting: "counting s \<Longrightarrow> server_step cfg s (s\<lparr>counting := False\<rparr>)"

text \<open>What \<^verbatim>\<open>run\<close> itself does with the events of its \<^verbatim>\<open>select!\<close>; \<open>Accepted n\<close> is an accepted stream
  when \<^verbatim>\<open>active_connections.load\<close> gives \<open>n\<close>.\<close>

datatype accept_event = Accept_Cancelled | Accept_Failed | Accepted nat

datatype accept_action = Dropped_Stream | Spawned_Connection

fun accept_loop :: "Config \<Rightarrow> accept_event list \<Rightarrow> accept_action list \<times> (string + unit) task" where
  "accept_loop cfg [] = ([], Task_Running)"
| "accept_loop cfg (Accept_Cancelled # evs) = ([], Task_Ended (Inr ()))"
| "accept_loop cfg (Accept_Failed # evs) = accept_loop cfg evs"
| "accept_loop cfg (Accepted n # evs) =
     (let (acts, r) = accept_loop cfg evs
      in ((if n \<ge> max_connections cfg then Dropped_Stream else Spawned_Connection) # acts, r))"

inductive server_reachable :: "Config \<Rightarrow> server \<Rightarrow> bool" for cfg where
  server_start: "server_reachable cfg server_new"
| server_more: "server_reachable cfg s \<Longrightarrow> server_step cfg s t \<Longrightarrow> server_reachable cfg t"

definition server_inv :: "Config \<Rightarrow> server \<Rightarrow> bool" where
  "server_inv cfg s \<longleftrightarrow> active s = live s + pending s \<and> active s \<le> max_connections cfg
     \<and> (admitted s \<longrightarrow> active s < max_connections cfg)"

section \<open>Specifications and lemmas\<close>

text \<open>\<^verbatim>\<open>run\<close> returns only on cancellation, and never an error.\<close>

lemma accept_loop_result:
  "snd (accept_loop cfg evs) = (if Accept_Cancelled \<in> set evs then Task_Ended (Inr ()) else Task_Running)"
  by (induction evs rule: accept_loop.induct) (auto split: prod.splits)

text \<open>What the ghost log counts, and the balance of the counters.\<close>

fun is_close :: "action \<Rightarrow> bool" where
  "is_close Close_Sent = True" | "is_close _ = False"
fun is_exec :: "action \<Rightarrow> bool" where
  "is_exec (Executed _ _ _) = True" | "is_exec _ = False"
fun is_write_act :: "action \<Rightarrow> bool" where
  "is_write_act (Wrote _ _) = True" | "is_write_act _ = False"

definition closes :: "handler \<Rightarrow> nat" where
  "closes h = length (filter is_close (log h))"
definition requests :: "handler \<Rightarrow> nat" where
  "requests h = length (filter is_exec (log h))"
definition replies :: "handler \<Rightarrow> nat" where
  "replies h = length (filter is_write_act (log h))"

definition metrics_ok :: "BridgeMetrics \<Rightarrow> bool" where
  "metrics_ok m \<longleftrightarrow> frames_received m = keepalives_received m + frames_executed m + execute_errors m
     \<and> resyncs m \<le> client_errors m"

lemmas handler_defs = emit_def bump_def closes_def requests_def replies_def

lemma drain_loop_rule:
  assumes init: "I h w"
    and step: "\<And>h w c h' w'. I h w \<Longrightarrow> drain_iteration io cfg h w = (c, h', w') \<Longrightarrow>
           (if c = Continue then I h' w' else Q c h' w')"
    and run: "drain_loop io cfg h w = (c, h', w')"
  shows "c \<noteq> Continue \<and> Q c h' w'"
  using init run
proof (induction "length (buf h)" arbitrary: h w rule: less_induct)
  case less
  obtain c1 h1 w1 where it: "drain_iteration io cfg h w = (c1, h1, w1)"
    by (cases "drain_iteration io cfg h w")
  note st = step [OF less.prems(1) it]
  show ?case
  proof (cases "c1 = Continue")
    case True
    with it less.prems(2) have "drain_loop io cfg h1 w1 = (c, h', w')"
      by (simp add: drain_loop.simps [of io cfg h w])
    with True st drain_iteration_Continue [of io cfg h w h1 w1] it show ?thesis
      by (intro less.hyps [of h1 w1]) auto
  next
    case False
    with it less.prems(2) have "c1 = c" "h1 = h'" "w1 = w'"
      by (cases c1; simp add: drain_loop.simps [of io cfg h w])+
    with False st show ?thesis by simp
  qed
qed

lemma conn_loop_rule:
  assumes init: "I h w"
    and step: "\<And>ev h w c h' w'. I h w \<Longrightarrow> handle_event io cfg ev h w = (c, h', w') \<Longrightarrow>
        (case c of Continue \<Rightarrow> I h' w' | Break \<Rightarrow> Q Finished (emit [Close_Sent] h') w'
         | Return \<Rightarrow> Q Finished h' w' | Panic \<Rightarrow> Q Panicked h' w')"
    and wait: "\<And>h w. I h w \<Longrightarrow> Q Waiting h w"
    and run: "conn_loop io cfg evs h w = (r, h', w')"
  shows "Q r h' w'"
  using init run
proof (induction evs arbitrary: h w)
  case Nil
  then show ?case using wait by auto
next
  case (Cons ev evs)
  obtain c1 h1 w1 where it: "handle_event io cfg ev h w = (c1, h1, w1)"
    by (cases "handle_event io cfg ev h w")
  from step [OF Cons.prems(1) it] Cons it show ?case by (cases c1) auto
qed

lemma do_request_effect:
  assumes "do_request io iw sf cid h w = (c, h', w')"
  shows "c = Continue \<or> c = Return"
    and "closes h' = closes h + (if c = Return then 1 else 0)"
    and "requests h' = requests h + 1" and "replies h' = replies h + 1"
    and "frames_received (metrics h) = keepalives_received (metrics h) + frames_executed (metrics h)
           + execute_errors (metrics h) + 1 \<Longrightarrow> resyncs (metrics h) \<le> client_errors (metrics h) \<Longrightarrow>
         metrics_ok (metrics h')"
  using assms
  by (auto simp: do_request_def handler_defs metrics_ok_def Let_def
      split: prod.splits sum.splits if_splits)

definition iter_ok :: "Config \<Rightarrow> handler \<Rightarrow> control \<Rightarrow> handler \<Rightarrow> bool" where
  "iter_ok cfg h c h' \<longleftrightarrow> c \<noteq> Panic
     \<and> closes h' = closes h + (if c = Return then 1 else 0)
     \<and> (requests h = replies h \<longrightarrow> requests h' = replies h')
     \<and> (metrics_ok (metrics h) \<longrightarrow> metrics_ok (metrics h'))
     \<and> (c = Break \<longrightarrow> length (buf h') \<le> max_buffer_size cfg)"

lemma on_frame_ok:
  assumes "on_frame io cfg flen seg iw sf cid h w = (c, h', w')" and "flen \<le> length (buf h)"
  shows "iter_ok cfg h c h'"
proof (cases "flen > max_frame_size cfg")
  case True
  with assms show ?thesis by (auto simp: on_frame_def iter_ok_def handler_defs metrics_ok_def)
next
  case False
  obtain now w1 where n: "io_now io w = (now, w1)" by (cases "io_now io w")
  let ?h2 = "(bump inc_frames_received (h\<lparr>last_frame_time := now\<rparr>))\<lparr>buf := drop flen (buf h)\<rparr>"
  show ?thesis
  proof (cases "seg = KEEPALIVE_SEGMENT")
    case True
    with False n assms show ?thesis
      by (auto simp: on_frame_def advance_def iter_ok_def handler_defs metrics_ok_def)
  next
    case seg: False
    with False n assms have d: "do_request io iw sf cid ?h2 w1 = (c, h', w')"
      by (simp add: on_frame_def advance_def bump_def)
    from do_request_effect [OF d] show ?thesis
      by (auto simp: iter_ok_def handler_defs metrics_ok_def)
  qed
qed

lemma find_magic_0:
  "find_next_router_magic b 0 = Some (position (\<lambda>x. x = ROUTER_MAGIC) b)"
  by (simp add: find_next_router_magic_def option.map_ident)

text \<open>What resynchronisation does to the buffer: the first byte goes, then everything up to the
  next magic byte; without one, at most the last eight bytes of a long buffer are kept.\<close>

lemma on_parse_error_eq:
  assumes "buf h \<noteq> []"
  shows "on_parse_error h w =
    (let h1 = bump inc_resyncs (bump inc_client_errors h); b1 = drop 1 (buf h)
     in case position (\<lambda>x. x = ROUTER_MAGIC) b1 of
          Some pos \<Rightarrow> (Continue, h1\<lparr>buf := drop pos b1\<rparr>, w)
        | None \<Rightarrow> (Break, h1\<lparr>buf := (if length b1 > 64 then drop (length b1 - 8) b1 else b1)\<rparr>, w))"
proof -
  have b: "buf (bump f (bump g h)) = buf h" for f g by (simp add: bump_def)
  have a: "advance 1 (buf h) = Some (drop 1 (buf h))"
    using assms by (cases "buf h") (auto simp: advance_def)
  show ?thesis
  proof (cases "position (\<lambda>x. x = ROUTER_MAGIC) (drop 1 (buf h))")
    case None
    have "Suc (n - 9) = n - 8" if "64 < n - Suc 0" for n :: nat using that by simp
    with None assms show ?thesis
      by (simp add: on_parse_error_def Let_def b a find_magic_0 del: One_nat_def) (simp add: advance_def)
  next
    case (Some pos)
    then have "pos \<le> length (drop 1 (buf h))" by (auto simp: position_Some)
    with Some assms show ?thesis
      by (simp add: on_parse_error_def Let_def b a find_magic_0 advance_def [of pos] del: One_nat_def)
  qed
qed

lemma on_parse_error_ok:
  assumes e: "on_parse_error h w = (c, h', w')" and "length (buf h) \<le> max_buffer_size cfg"
  shows "iter_ok cfg h c h'"
proof (cases "buf h = []")
  case True
  with e show ?thesis
    by (auto simp: on_parse_error_def iter_ok_def handler_defs metrics_ok_def Let_def)
next
  case False
  with assms show ?thesis
    unfolding on_parse_error_eq [OF False] Let_def
    by (auto simp: iter_ok_def handler_defs metrics_ok_def split: option.splits)
qed

lemma drain_iteration_ok:
  assumes it: "drain_iteration io cfg h w = (c, h', w')"
  shows "iter_ok cfg h c h'"
proof (cases "length (buf h) > max_buffer_size cfg")
  case True
  with it show ?thesis by (auto simp: drain_iteration_def iter_ok_def handler_defs metrics_ok_def)
next
  case False
  obtain r where r: "try_decode_router (buf h) = Some r" by (simp add: try_decode_router_ref)
  show ?thesis
  proof (cases r)
    case NeedMore
    with False r it show ?thesis
      by (auto simp: drain_iteration_def iter_ok_def handler_defs metrics_ok_def split: prod.splits if_splits)
  next
    case (Frame flen seg iw sf off cid)
    with r have d: "try_decode_router (buf h) = Some (Frame flen seg iw sf off cid)" by simp
    have "flen \<le> length (buf h)"
      using decode_FrameD(1,4) [OF d] by (auto dest: arg_cong [where f = length])
    with False d it show ?thesis by (simp add: drain_iteration_def on_frame_ok)
  next
    case (Decode_Error e)
    with False r it show ?thesis by (simp add: drain_iteration_def on_parse_error_ok)
  qed
qed


lemma iter_ok_Continue_trans:
  "iter_ok cfg h Continue h1 \<Longrightarrow> iter_ok cfg h1 c h2 \<Longrightarrow> iter_ok cfg h c h2"
  by (auto simp: iter_ok_def)

lemma drain_loop_ok:
  assumes "drain_loop io cfg h w = (c, h', w')"
  shows "c \<noteq> Continue \<and> iter_ok cfg h c h'"
proof (rule drain_loop_rule [where I = "\<lambda>h1 w1. iter_ok cfg h Continue h1" and Q = "\<lambda>c h' w'. iter_ok cfg h c h'", OF _ _ assms])
  show "iter_ok cfg h Continue h" by (simp add: iter_ok_def)
  show "if c = Continue then iter_ok cfg h Continue h2 else iter_ok cfg h c h2"
    if "iter_ok cfg h Continue h1" "drain_iteration io cfg h1 w1 = (c, h2, w2)" for h1 w1 c h2 w2
    using iter_ok_Continue_trans [OF that(1) drain_iteration_ok [OF that(2)]] by auto
qed

text \<open>One turn of the outer loop: \<open>Continue\<close> means that the task waits for the next event.\<close>

definition event_ok :: "Config \<Rightarrow> handler \<Rightarrow> control \<Rightarrow> handler \<Rightarrow> bool" where
  "event_ok cfg h c h' \<longleftrightarrow> c \<noteq> Panic
     \<and> closes h' = closes h + (if c = Return then 1 else 0)
     \<and> (requests h = replies h \<longrightarrow> requests h' = replies h')
     \<and> (metrics_ok (metrics h) \<longrightarrow> metrics_ok (metrics h'))
     \<and> (c = Continue \<longrightarrow> length (buf h') \<le> max_buffer_size cfg)"

lemma handle_event_ok:
  assumes "handle_event io cfg ev h w = (c, h', w')"
  shows "event_ok cfg h c h'"
proof (cases "\<exists>bs. ev = Read_Ok bs \<and> bs \<noteq> []")
  case True
  then obtain bs where bs: "ev = Read_Ok bs" "bs \<noteq> []" by blast
  define g where "g = bump (add_bytes_received (length bs)) (h\<lparr>buf := buf h @ bs\<rparr>)"
  obtain c1 h1 w1 where l: "drain_loop io cfg g w = (c1, h1, w1)" by (cases "drain_loop io cfg g w")
  have "closes g = closes h" "requests g = requests h" "replies g = replies h"
    "metrics_ok (metrics g) = metrics_ok (metrics h)"
    by (simp_all add: g_def handler_defs metrics_ok_def)
  with drain_loop_ok [OF l] assms l show ?thesis
    by (cases c1) (auto simp: handle_event_def bs g_def [symmetric] iter_ok_def event_ok_def)
next
  case False
  with assms show ?thesis
    by (auto simp: handle_event_def event_ok_def handler_defs metrics_ok_def split: conn_event.splits)
qed

definition conn_inv :: "Config \<Rightarrow> handler \<Rightarrow> bool" where
  "conn_inv cfg h \<longleftrightarrow> closes h = 0 \<and> requests h = replies h \<and> metrics_ok (metrics h)
     \<and> length (buf h) \<le> max_buffer_size cfg"

definition conn_result_ok :: "Config \<Rightarrow> outcome \<Rightarrow> handler \<Rightarrow> bool" where
  "conn_result_ok cfg r h \<longleftrightarrow> r \<noteq> Panicked \<and> closes h = (if r = Finished then 1 else 0)
     \<and> requests h = replies h \<and> metrics_ok (metrics h)
     \<and> (r = Waiting \<longrightarrow> length (buf h) \<le> max_buffer_size cfg)"

lemma closes_emit_close: "closes (emit [Close_Sent] h) = closes h + 1"
  "requests (emit [Close_Sent] h) = requests h" "replies (emit [Close_Sent] h) = replies h"
  "metrics (emit [Close_Sent] h) = metrics h"
  by (simp_all add: handler_defs)

lemma conn_loop_ok:
  assumes "conn_inv cfg h" and "conn_loop io cfg evs h w = (r, h', w')"
  shows "conn_result_ok cfg r h'"
proof (rule conn_loop_rule [where I = "\<lambda>h w. conn_inv cfg h", OF assms(1) _ _ assms(2)])
  show "case c of Continue \<Rightarrow> conn_inv cfg h2 | Break \<Rightarrow> conn_result_ok cfg Finished (emit [Close_Sent] h2)
      | Return \<Rightarrow> conn_result_ok cfg Finished h2 | Panic \<Rightarrow> conn_result_ok cfg Panicked h2"
    if "conn_inv cfg h1" "handle_event io cfg ev h1 w1 = (c, h2, w2)" for ev h1 w1 c h2 w2
    using that(1) handle_event_ok [OF that(2)]
    by (cases c) (auto simp: conn_inv_def conn_result_ok_def event_ok_def closes_emit_close)
qed (simp add: conn_inv_def conn_result_ok_def)

lemma handle_connection_ok:
  assumes "metrics_ok m" and "handle_connection io cfg m evs w = (r, h, w')"
  shows "conn_result_ok cfg r h"
proof -
  obtain now w1 where n: "io_now io w = (now, w1)" by (cases "io_now io w")
  have "conn_inv cfg \<lparr>buf = [], last_frame_time = now, metrics = m, log = []\<rparr>"
    using assms(1) by (simp add: conn_inv_def closes_def requests_def replies_def)
  from conn_loop_ok [OF this] assms(2) n show ?thesis
    by (auto simp: handle_connection_def)
qed

lemma server_step_inv:
  assumes "server_step cfg s t" and "server_inv cfg s" and "max_connections cfg < 2 ^ 64"
  shows "server_inv cfg t"
  using assms
proof (induction rule: server_step.induct)
  case (close_counted s)
  have "as_u64 (active s + (2 ^ 64 - 1)) = active s - 1"
    if "0 < active s" "active s < 2 ^ 64"
  proof -
    have "active s + (2 ^ 64 - 1) = (active s - 1) + 2 ^ 64" using that by simp
    then show ?thesis using that by (simp only: as_u64_def mod_add_self2) simp
  qed
  with close_counted show ?case by (auto simp: server_inv_def)
qed (auto simp: server_inv_def as_u64_def)

lemma server_reachable_inv:
  "server_reachable cfg s \<Longrightarrow> max_connections cfg < 2 ^ 64 \<Longrightarrow> server_inv cfg s"
proof (induction rule: server_reachable.induct)
  case server_start
  then show ?case by (simp add: server_new_def server_inv_def)
next
  case (server_more s t)
  then show ?case by (blast intro: server_step_inv)
qed

text \<open>The same task one level up: requests already decoded, no bytes and no buffer.\<close>

definition serve_one :: "'w server_io \<Rightarrow> Config \<Rightarrow> string \<times> bool \<times> bytes \<times> u32 \<Rightarrow> handler \<Rightarrow> 'w \<Rightarrow>
    control \<times> handler \<times> 'w" where
  "serve_one io cfg = (\<lambda>(seg, iw, sf, cid) h w.
     if 7 + length seg + length sf > max_frame_size cfg then
       (Return, emit [Close_Sent] (bump inc_client_errors h), w)
     else
       (let (now, w1) = io_now io w;
            h1 = bump inc_frames_received (h\<lparr>last_frame_time := now\<rparr>)
        in if seg = KEEPALIVE_SEGMENT then (Continue, bump inc_keepalives h1, w1)
           else do_request io iw sf cid h1 w1))"

fun serve :: "'w server_io \<Rightarrow> Config \<Rightarrow> (string \<times> bool \<times> bytes \<times> u32) list \<Rightarrow> handler \<Rightarrow> 'w \<Rightarrow>
    control \<times> handler \<times> 'w" where
  "serve io cfg [] h w = (Continue, h, w)"
| "serve io cfg (r # rs) h w =
     (case serve_one io cfg r h w of
        (Continue, h', w') \<Rightarrow> serve io cfg rs h' w'
      | res \<Rightarrow> res)"

text \<open>The receive buffer does not influence how a request is served.\<close>

definition set_buf :: "bytes \<Rightarrow> control \<times> handler \<times> 'w \<Rightarrow> control \<times> handler \<times> 'w" where
  "set_buf b = (\<lambda>(c, h, w). (c, h\<lparr>buf := b\<rparr>, w))"

lemma bump_buf: "bump f (h\<lparr>buf := b\<rparr>) = (bump f h)\<lparr>buf := b\<rparr>"
  by (simp add: bump_def)

lemma emit_buf: "emit as (h\<lparr>buf := b\<rparr>) = (emit as h)\<lparr>buf := b\<rparr>"
  by (simp add: emit_def)

lemma do_request_set_buf:
  "do_request io iw sf cid (h\<lparr>buf := b\<rparr>) w = set_buf b (do_request io iw sf cid h w)"
  by (auto simp: do_request_def set_buf_def Let_def bump_buf emit_buf split: prod.splits sum.splits)

lemma serve_one_set_buf: "serve_one io cfg r (h\<lparr>buf := b\<rparr>) w = set_buf b (serve_one io cfg r h w)"
proof -
  obtain seg iw sf cid where r: "r = (seg, iw, sf, cid)" by (cases r)
  have u: "(h\<lparr>buf := b\<rparr>)\<lparr>last_frame_time := t\<rparr> = (h\<lparr>last_frame_time := t\<rparr>)\<lparr>buf := b\<rparr>" for t by simp
  show ?thesis
    unfolding serve_one_def r prod.case Let_def
    by (simp add: case_prod_beta u bump_buf emit_buf do_request_set_buf set_buf_def del: handler.simps)
qed

lemma on_frame_serve:
  assumes "flen = 7 + length seg + length sf" and "flen \<le> length (buf h)"
  shows "on_frame io cfg flen seg iw sf cid h w =
    (if flen > max_frame_size cfg then serve_one io cfg (seg, iw, sf, cid) h w
     else set_buf (drop flen (buf h)) (serve_one io cfg (seg, iw, sf, cid) h w))"
proof -
  have u: "(bump inc_frames_received (h\<lparr>last_frame_time := t\<rparr>)) \<lparr>buf := b\<rparr> =
     bump inc_frames_received ((h\<lparr>buf := b\<rparr>)\<lparr>last_frame_time := t\<rparr>)" for t b
    by (simp add: bump_def)
  have b: "buf (bump inc_frames_received (h\<lparr>last_frame_time := t\<rparr>)) = buf h" for t
    by (simp add: bump_def)
  show ?thesis
    using assms
    by (auto simp: on_frame_def serve_one_def advance_def b Let_def case_prod_beta set_buf_def
      simp flip: do_request_set_buf) (auto simp: bump_def set_buf_def do_request_set_buf case_prod_beta)
qed


lemma serve_set_buf: "serve io cfg rs (h\<lparr>buf := b\<rparr>) w = set_buf b (serve io cfg rs h w)"
proof (induction rs arbitrary: h w)
  case Nil
  then show ?case by (simp add: set_buf_def)
next
  case (Cons r rs)
  obtain c h1 w1 where s: "serve_one io cfg r h w = (c, h1, w1)" by (cases "serve_one io cfg r h w")
  with Cons show ?case by (cases c) (simp_all add: serve_one_set_buf set_buf_def)
qed

lemma drain_iteration_request:
  assumes ok: "router_ok f" and b: "buf h = router_enc f @ rest"
    and len: "length (buf h) \<le> max_buffer_size cfg"
  shows "\<exists>b'. drain_iteration io cfg h w = set_buf b' (serve_one io cfg f h w)
     \<and> (fst (serve_one io cfg f h w) = Continue \<longrightarrow> b' = rest)"
proof -
  obtain seg iw sf cid where f: "f = (seg, iw, sf, cid)" by (cases f)
  define flen where "flen = 7 + length seg + length sf"
  have wf: "router_wf (string_to_bytes seg) sf" and c: "take 4 (drop 1 sf) = u32_to_le cid"
    using ok by (simp_all add: router_ok_def f)
  have d: "try_decode_router (buf h) = Some (Frame flen seg iw sf (8 + length seg) cid)"
    using decode_layout [OF wf, of "if iw then 1 else 0" rest] c
    by (simp add: b f router_enc_def flen_def)
  have l: "flen \<le> length (buf h)" "drop flen (buf h) = rest"
    by (simp_all add: b f router_enc_def flen_def)
  have it: "drain_iteration io cfg h w = on_frame io cfg flen seg iw sf cid h w"
    using len by (simp add: drain_iteration_def d)
  show ?thesis
  proof (cases "flen > max_frame_size cfg")
    case True
    have "serve_one io cfg f h w = set_buf (buf h) (serve_one io cfg f h w)"
      using serve_one_set_buf [of io cfg f "buf h" h w] by simp
    moreover have "fst (serve_one io cfg f h w) = Return"
      using True by (simp add: serve_one_def f flen_def)
    ultimately show ?thesis
      using True on_frame_serve [OF flen_def l(1)] it f by (metis control.distinct(3))
  next
    case False
    with it on_frame_serve [OF flen_def l(1), of io cfg iw cid w]
    have "drain_iteration io cfg h w = set_buf rest (serve_one io cfg f h w)" by (simp add: f l(2))
    then show ?thesis by blast
  qed
qed

lemma drain_loop_requests:
  assumes "\<forall>f \<in> set reqs. router_ok f" and "buf h = concat (map router_enc reqs) @ rest"
    and "length (buf h) \<le> max_buffer_size cfg"
  shows "\<exists>b. drain_loop io cfg h w = (case serve io cfg reqs h w of
       (Continue, h', w') \<Rightarrow> drain_loop io cfg (h'\<lparr>buf := rest\<rparr>) w'
     | (c, h', w') \<Rightarrow> (c, h'\<lparr>buf := b\<rparr>, w'))"
  using assms
proof (induction reqs arbitrary: h w)
  case Nil
  then have "h\<lparr>buf := rest\<rparr> = h" by simp
  then show ?case by simp
next
  case (Cons f reqs)
  let ?rest = "concat (map router_enc reqs) @ rest"
  obtain c h1 w1 where s: "serve_one io cfg f h w = (c, h1, w1)" by (cases "serve_one io cfg f h w")
  from Cons.prems s obtain b' where
    it: "drain_iteration io cfg h w = (c, h1\<lparr>buf := b'\<rparr>, w1)" and b': "c = Continue \<Longrightarrow> b' = ?rest"
    using drain_iteration_request [of f h ?rest cfg io w] by (auto simp: set_buf_def)
  show ?case
  proof (cases "c = Continue")
    case False
    with it s show ?thesis
      by (cases c) (auto simp: drain_loop.simps [of io cfg h w])
  next
    case True
    have "length ?rest \<le> max_buffer_size cfg" using Cons.prems by simp
    then obtain b where "drain_loop io cfg (h1\<lparr>buf := ?rest\<rparr>) w1 =
        (case serve io cfg reqs (h1\<lparr>buf := ?rest\<rparr>) w1 of
           (Continue, h', w') \<Rightarrow> drain_loop io cfg (h'\<lparr>buf := rest\<rparr>) w'
         | (c, h', w') \<Rightarrow> (c, h'\<lparr>buf := b\<rparr>, w'))"
      using Cons.IH [of "h1\<lparr>buf := ?rest\<rparr>" w1] Cons.prems(1) by auto
    then have "drain_loop io cfg (h1\<lparr>buf := ?rest\<rparr>) w1 =
        (case serve io cfg reqs h1 w1 of
           (Continue, h', w') \<Rightarrow> drain_loop io cfg (h'\<lparr>buf := rest\<rparr>) w'
         | (c, h', w') \<Rightarrow> (c, h'\<lparr>buf := b\<rparr>, w'))"
      by (auto simp: serve_set_buf set_buf_def split: prod.splits control.splits)
    with True it s b' show ?thesis
      by (auto simp: drain_loop.simps [of io cfg h w])
  qed
qed

lemma position_magic: "ROUTER_MAGIC \<in> set ys \<Longrightarrow> \<exists>k. position (\<lambda>x. x = ROUTER_MAGIC) ys = Some k \<and> drop k ys = dropWhile (\<lambda>x. x \<noteq> ROUTER_MAGIC) ys"
  by (induction ys) auto

text \<open>One resynchronisation: the first byte goes, and everything up to the next magic byte.\<close>

lemma drain_loop_skips:
  assumes e: "try_decode_router (buf h) = Some (Decode_Error e)" and len: "length (buf h) \<le> max_buffer_size cfg"
    and b: "buf h = a # ys" and m: "ROUTER_MAGIC \<in> set ys"
  shows "drain_loop io cfg h w =
     drain_loop io cfg (bump inc_resyncs (bump inc_client_errors (h\<lparr>buf := dropWhile (\<lambda>x. x \<noteq> ROUTER_MAGIC) ys\<rparr>))) w"
proof -
  obtain k where k: "position (\<lambda>x. x = ROUTER_MAGIC) ys = Some k" "drop k ys = dropWhile (\<lambda>x. x \<noteq> ROUTER_MAGIC) ys"
    using position_magic [OF m] by blast
  have "drain_iteration io cfg h w = on_parse_error h w" using e len by (simp add: drain_iteration_def)
  moreover have "buf h \<noteq> []" "drop 1 (buf h) = ys" by (simp_all add: b)
  ultimately have "drain_iteration io cfg h w =
      (Continue, (bump inc_resyncs (bump inc_client_errors h))\<lparr>buf := dropWhile (\<lambda>x. x \<noteq> ROUTER_MAGIC) ys\<rparr>, w)"
    using k by (simp add: on_parse_error_eq Let_def del: One_nat_def)
  then show ?thesis by (simp add: drain_loop.simps [of io cfg h w] bump_buf)
qed

definition resynced :: "nat \<Rightarrow> bytes \<Rightarrow> handler \<Rightarrow> handler" where
  "resynced n b h = h\<lparr>buf := b, metrics := (metrics h)\<lparr>client_errors := client_errors (metrics h) + n, resyncs := resyncs (metrics h) + n\<rparr>\<rparr>"

lemma resynced_more: "resynced n b (bump inc_resyncs (bump inc_client_errors (h\<lparr>buf := c\<rparr>))) = resynced (Suc n) b h"
  by (simp add: resynced_def bump_def)

lemma resynced_one: "bump inc_resyncs (bump inc_client_errors (h\<lparr>buf := b\<rparr>)) = resynced 1 b h"
  by (simp add: resynced_def bump_def)

lemma drain_loop_resync_all:
  assumes "\<forall>p q. g = p @ ROUTER_MAGIC # q \<longrightarrow> (\<exists>e. try_decode_router (ROUTER_MAGIC # q @ ROUTER_MAGIC # xs) = Some (Decode_Error e))"
    and "g \<noteq> []" and "buf h = g @ ROUTER_MAGIC # xs" and "5 \<le> length (ROUTER_MAGIC # xs)" and "length (buf h) \<le> max_buffer_size cfg"
  shows "drain_loop io cfg h w = drain_loop io cfg (resynced (Suc (count_list (tl g) ROUTER_MAGIC)) (ROUTER_MAGIC # xs) h) w"
  using assms
proof (induction "length g" arbitrary: g h rule: less_induct)
  case less
  obtain a g' where g: "g = a # g'" using less.prems(2) by (cases g) auto
  let ?g1 = "dropWhile (\<lambda>x. x \<noteq> ROUTER_MAGIC) g'" and ?Z = "ROUTER_MAGIC # xs"
  have "\<exists>e. try_decode_router (buf h) = Some (Decode_Error e)"
  proof (cases "a = ROUTER_MAGIC")
    case True
    then show ?thesis using less.prems(1,3) g by auto
  next
    case False
    then show ?thesis using less.prems(3,4) g by (auto simp: try_decode_router_ref decode_ref_def Let_def)
  qed
  then obtain e where e: "try_decode_router (buf h) = Some (Decode_Error e)" by blast
  let ?h1 = "bump inc_resyncs (bump inc_client_errors (h\<lparr>buf := ?g1 @ ?Z\<rparr>))"
  have d: "dropWhile (\<lambda>x. x \<noteq> ROUTER_MAGIC) (g' @ ?Z) = ?g1 @ ?Z"
    by (cases "ROUTER_MAGIC \<in> set g'") (auto simp: dropWhile_append)
  have s: "drain_loop io cfg h w = drain_loop io cfg ?h1 w"
    using drain_loop_skips [OF e less.prems(5), of a "g' @ ?Z"] less.prems(3) g d by simp
  show ?case
  proof (cases "?g1 = []")
    case True
    then have "ROUTER_MAGIC \<notin> set g'" by (auto simp: dropWhile_eq_Nil_conv)
    then have "count_list (tl g) ROUTER_MAGIC = 0" using g by (simp add: count_list_0_iff)
    then show ?thesis using s True by (simp add: resynced_one [simplified])
  next
    case False
    then have hd: "?g1 = ROUTER_MAGIC # tl ?g1" using hd_dropWhile [OF False] by (metis list.collapse)
    have split: "g' = takeWhile (\<lambda>x. x \<noteq> ROUTER_MAGIC) g' @ ?g1" by simp
    have "count_list (takeWhile (\<lambda>x. x \<noteq> ROUTER_MAGIC) g') ROUTER_MAGIC = 0" by (auto simp: count_list_0_iff dest: set_takeWhileD)
    then have "count_list g' ROUTER_MAGIC = count_list ?g1 ROUTER_MAGIC" by (metis split count_list_append add_0)
    also have "\<dots> = Suc (count_list (tl ?g1) ROUTER_MAGIC)" by (subst hd) simp
    finally have n: "count_list (tl g) ROUTER_MAGIC = Suc (count_list (tl ?g1) ROUTER_MAGIC)" using g by simp
    have "length ?g1 < length g" using g by (simp add: length_dropWhile_le le_imp_less_Suc)
    moreover have "\<exists>e. try_decode_router (ROUTER_MAGIC # q @ ?Z) = Some (Decode_Error e)" if "?g1 = p @ ROUTER_MAGIC # q" for p q
      using less.prems(1) split that g by (metis append.assoc append_Cons)
    moreover have "length (buf ?h1) \<le> max_buffer_size cfg"
      using less.prems(3,5) g length_dropWhile_le [of "\<lambda>x. x \<noteq> ROUTER_MAGIC" g'] by (simp add: bump_def)
    ultimately have "drain_loop io cfg ?h1 w = drain_loop io cfg (resynced (Suc (count_list (tl ?g1) ROUTER_MAGIC)) ?Z ?h1) w"
      using less.prems(4) False by (intro less.hyps) (auto simp: bump_def)
    then show ?thesis unfolding s n resynced_more .
  qed
qed

text \<open>A byte of the garbage that is the magic byte and is followed by a plausible length is taken for the head of a frame: what comes after
  it is waited for as its body and not looked at.\<close>

lemma false_header_waits:
  assumes "buf h = ROUTER_MAGIC # u32_to_le n @ xs" and "unat n \<le> 16 * 1024 * 1024" and "length xs < unat n"
    and "length (buf h) \<le> max_buffer_size cfg" and "io_now io w = (now, w1)" and "elapsed now (last_frame_time h) \<le> int (frame_timeout cfg)"
  shows "drain_loop io cfg h w = (Break, h, w1)"
proof -
  have "try_decode_router (buf h) = Some NeedMore"
    using assms(1-3) by (simp add: try_decode_router_def Let_def)
  then show ?thesis using assms(4-6) by (simp add: drain_loop.simps drain_iteration_def)
qed

text \<open>The counters are shared by all tasks and only ever added to; \<open>add_metrics m d\<close> are the counters \<open>m\<close> after \<open>d\<close> was added.\<close>

definition add_metrics :: "BridgeMetrics \<Rightarrow> BridgeMetrics \<Rightarrow> BridgeMetrics" where
  "add_metrics m d = \<lparr>connections_opened = connections_opened m + connections_opened d,
     connections_closed = connections_closed m + connections_closed d, frames_received = frames_received m + frames_received d,
     frames_executed = frames_executed m + frames_executed d, bytes_received = bytes_received m + bytes_received d,
     bytes_sent = bytes_sent m + bytes_sent d, keepalives_received = keepalives_received m + keepalives_received d,
     client_errors = client_errors m + client_errors d, execute_errors = execute_errors m + execute_errors d,
     timeouts = timeouts m + timeouts d, resyncs = resyncs m + resyncs d\<rparr>"

definition on_top :: "BridgeMetrics \<Rightarrow> handler \<Rightarrow> handler" where
  "on_top m h = h\<lparr>metrics := add_metrics m (metrics h)\<rparr>"

definition on_top_of :: "BridgeMetrics \<Rightarrow> 'c \<times> handler \<times> 'w \<Rightarrow> 'c \<times> handler \<times> 'w" where
  "on_top_of m = (\<lambda>(c, h, w). (c, on_top m h, w))"

lemma on_top_simps [simp]:
  "buf (on_top m h) = buf h" "last_frame_time (on_top m h) = last_frame_time h" "log (on_top m h) = log h"
  "metrics (on_top m h) = add_metrics m (metrics h)"
  "on_top_of m (c, h, w) = (c, on_top m h, w)" "fst (on_top_of m x) = fst x"
  "(on_top m h)\<lparr>buf := b\<rparr> = on_top m (h\<lparr>buf := b\<rparr>)" "(on_top m h)\<lparr>last_frame_time := t\<rparr> = on_top m (h\<lparr>last_frame_time := t\<rparr>)"
  "emit as (on_top m h) = on_top m (emit as h)"
  by (simp_all add: on_top_def on_top_of_def emit_def split: prod.splits)

lemma bump_on_top:
  "bump inc_client_errors (on_top m h) = on_top m (bump inc_client_errors h)" "bump inc_timeouts (on_top m h) = on_top m (bump inc_timeouts h)"
  "bump inc_resyncs (on_top m h) = on_top m (bump inc_resyncs h)" "bump inc_frames_received (on_top m h) = on_top m (bump inc_frames_received h)"
  "bump inc_keepalives (on_top m h) = on_top m (bump inc_keepalives h)" "bump inc_execute_errors (on_top m h) = on_top m (bump inc_execute_errors h)"
  "bump inc_frames_executed (on_top m h) = on_top m (bump inc_frames_executed h)"
  "bump (add_bytes_sent n) (on_top m h) = on_top m (bump (add_bytes_sent n) h)"
  "bump (add_bytes_received n) (on_top m h) = on_top m (bump (add_bytes_received n) h)"
  by (simp_all add: bump_def on_top_def add_metrics_def)

lemmas bump_on_top_simps [simp] = bump_on_top [simplified]

lemma do_request_on_top: "do_request io iw sf cid (on_top m h) w = on_top_of m (do_request io iw sf cid h w)"
  by (simp add: do_request_def Let_def split: prod.splits sum.splits)

lemma on_frame_on_top: "on_frame io cfg flen seg iw sf cid (on_top m h) w = on_top_of m (on_frame io cfg flen seg iw sf cid h w)"
  by (simp add: on_frame_def Let_def do_request_on_top split: prod.splits option.splits)

lemma on_parse_error_on_top: "on_parse_error (on_top m h) w = on_top_of m (on_parse_error h w)"
  by (simp add: on_parse_error_def Let_def split: option.splits)

lemma drain_iteration_on_top: "drain_iteration io cfg (on_top m h) w = on_top_of m (drain_iteration io cfg h w)"
  by (simp add: drain_iteration_def Let_def on_frame_on_top on_parse_error_on_top split: prod.splits option.splits DecodeResult.splits)

lemma drain_loop_on_top: "drain_loop io cfg (on_top m h) w = on_top_of m (drain_loop io cfg h w)"
proof (induction io cfg h w rule: drain_loop.induct)
  case (1 io cfg h w)
  obtain c h1 w1 where it: "drain_iteration io cfg h w = (c, h1, w1)" by (cases "drain_iteration io cfg h w")
  with 1 show ?case
    by (cases c) (simp_all add: drain_loop.simps [of io cfg h w] drain_loop.simps [of io cfg "on_top m h" w] drain_iteration_on_top)
qed

lemma handle_event_on_top: "handle_event io cfg ev (on_top m h) w = on_top_of m (handle_event io cfg ev h w)"
proof (cases ev)
  case (Read_Ok bs)
  let ?g = "bump (add_bytes_received (length bs)) (h\<lparr>buf := buf h @ bs\<rparr>)"
  obtain c h1 w1 where "drain_loop io cfg ?g w = (c, h1, w1)" by (cases "drain_loop io cfg ?g w")
  then show ?thesis using Read_Ok by (cases c) (simp_all add: handle_event_def drain_loop_on_top)
qed (simp_all add: handle_event_def)

lemma conn_loop_on_top: "conn_loop io cfg evs (on_top m h) w = on_top_of m (conn_loop io cfg evs h w)"
proof (induction evs arbitrary: h w)
  case (Cons ev evs)
  obtain c h1 w1 where "handle_event io cfg ev h w = (c, h1, w1)" by (cases "handle_event io cfg ev h w")
  with Cons show ?case by (cases c) (simp_all add: handle_event_on_top)
qed simp

lemma handle_connection_on_top:
  "handle_connection io cfg m evs w = on_top_of m (handle_connection io cfg BridgeMetrics_new evs w)"
proof -
  obtain now w1 where n: "io_now io w = (now, w1)" by (cases "io_now io w")
  have "\<lparr>buf = [], last_frame_time = now, metrics = m, log = []\<rparr> = on_top m \<lparr>buf = [], last_frame_time = now, metrics = BridgeMetrics_new, log = []\<rparr>"
    by (simp add: on_top_def add_metrics_def BridgeMetrics_new_def)
  then show ?thesis by (simp add: handle_connection_def n conn_loop_on_top)
qed

text \<open>The counters of the executions count what the log shows.\<close>

fun executed_ok :: "action \<Rightarrow> nat" where
  "executed_ok (Executed iw sf (Inr resp)) = 1" | "executed_ok _ = 0"
fun executed_failed :: "action \<Rightarrow> nat" where
  "executed_failed (Executed iw sf (Inl e)) = 1" | "executed_failed _ = 0"
fun response_bytes :: "action \<Rightarrow> nat" where
  "response_bytes (Executed iw sf (Inr resp)) = length resp" | "response_bytes _ = 0"

definition counts_log :: "handler \<Rightarrow> bool" where
  "counts_log h \<longleftrightarrow> frames_executed (metrics h) = sum_list (map executed_ok (log h))
     \<and> execute_errors (metrics h) = sum_list (map executed_failed (log h))
     \<and> bytes_sent (metrics h) = sum_list (map response_bytes (log h))"

lemma do_request_counts: "do_request io iw sf cid h w = (c, h', w') \<Longrightarrow> counts_log h \<Longrightarrow> counts_log h'"
  by (auto simp: do_request_def counts_log_def emit_def bump_def Let_def split: prod.splits sum.splits if_splits)

lemma on_frame_counts: "on_frame io cfg flen seg iw sf cid h w = (c, h', w') \<Longrightarrow> counts_log h \<Longrightarrow> counts_log h'"
  by (auto simp: on_frame_def Let_def split: prod.splits option.splits if_splits elim!: do_request_counts)
    (auto simp: counts_log_def emit_def bump_def)

lemma on_parse_error_counts: "on_parse_error h w = (c, h', w') \<Longrightarrow> counts_log h \<Longrightarrow> counts_log h'"
  by (auto simp: on_parse_error_def counts_log_def bump_def Let_def split: option.splits if_splits)

lemma drain_iteration_counts: "drain_iteration io cfg h w = (c, h', w') \<Longrightarrow> counts_log h \<Longrightarrow> counts_log h'"
  by (auto simp: drain_iteration_def Let_def split: prod.splits option.splits if_splits DecodeResult.splits
      elim!: on_frame_counts on_parse_error_counts) (auto simp: counts_log_def emit_def bump_def)

lemma handle_event_counts:
  assumes "handle_event io cfg ev h w = (c, h', w')" and "counts_log h"
  shows "counts_log h'"
proof -
  have "counts_log h2" if "drain_loop io cfg h1 w1 = (c2, h2, w2)" "counts_log h1" for h1 w1 c2 h2 w2
    using drain_loop_rule [where I = "\<lambda>h w. counts_log h" and Q = "\<lambda>c h w. counts_log h", OF that(2) _ that(1)]
      drain_iteration_counts by fastforce
  moreover have "counts_log (bump (add_bytes_received n) (h\<lparr>buf := b\<rparr>))" "counts_log (bump inc_timeouts h)" for n b
    using assms(2) by (simp_all add: counts_log_def bump_def)
  ultimately show ?thesis using assms
    by (auto simp: handle_event_def split: conn_event.splits if_splits prod.splits control.splits)
qed

lemma handle_connection_counts:
  assumes "handle_connection io cfg BridgeMetrics_new evs w = (r, h, w')"
  shows "counts_log h"
proof -
  obtain now w1 where n: "io_now io w = (now, w1)" by (cases "io_now io w")
  let ?h = "\<lparr>buf = [], last_frame_time = now, metrics = BridgeMetrics_new, log = []\<rparr>"
  have run: "conn_loop io cfg evs ?h w1 = (r, h, w')" using assms n by (simp add: handle_connection_def)
  have "counts_log ?h" by (simp add: counts_log_def BridgeMetrics_new_def)
  then show ?thesis
  proof (rule conn_loop_rule [where I = "\<lambda>h w. counts_log h" and Q = "\<lambda>r h w. counts_log h", OF _ _ _ run])
    have "counts_log (emit [Close_Sent] k)" if "counts_log k" for k using that by (simp add: counts_log_def emit_def)
    then show "case c of Continue \<Rightarrow> counts_log h2 | Break \<Rightarrow> counts_log (emit [Close_Sent] h2) | Return \<Rightarrow> counts_log h2 | Panic \<Rightarrow> counts_log h2"
      if "counts_log h1" "handle_event io cfg ev h1 w1 = (c, h2, w2)" for ev h1 w1 c h2 w2
      using handle_event_counts [OF that(2,1)] by (cases c) simp_all
  qed
qed

lemma conn_result_any_metrics:
  assumes "handle_connection io cfg m evs w = (r, h, w')"
  shows "r \<noteq> Panicked \<and> closes h = (if r = Finished then 1 else 0) \<and> (r = Waiting \<longrightarrow> length (buf h) \<le> max_buffer_size cfg)"
proof -
  obtain r0 h0 w0 where c: "handle_connection io cfg BridgeMetrics_new evs w = (r0, h0, w0)" by (rule prod_cases3)
  then have "r = r0" "closes h = closes h0" "buf h = buf h0"
    using handle_connection_on_top [of io cfg m evs w] assms by (auto simp: closes_def)
  then show ?thesis using handle_connection_ok [OF _ c] by (simp add: conn_result_ok_def metrics_ok_def BridgeMetrics_new_def)
qed

definition reply_matches :: "bytes \<Rightarrow> bytes rz_result \<Rightarrow> bytes \<Rightarrow> bool" where
  "reply_matches sf r b = (case r of
       Inr resp \<Rightarrow> b = resp \<and> (9 \<le> length resp \<longrightarrow> clrid_field resp = clrid_field sf)
     | Inl e \<Rightarrow> length b = 31 \<and> clrid_field b = clrid_field sf)"

fun well_paired :: "action list \<Rightarrow> bool" where
  "well_paired [] = True"
| "well_paired (Executed iw sf r # Wrote b ok # as) \<longleftrightarrow> reply_matches sf r b \<and> well_paired as"
| "well_paired (Executed iw sf r # as) = False"
| "well_paired (Wrote b ok # as) = False"
| "well_paired (a # as) = well_paired as"

lemma well_paired_append: "well_paired xs \<Longrightarrow> well_paired ys \<Longrightarrow> well_paired (xs @ ys)"
  by (induction xs rule: well_paired.induct) auto

lemma clrid_error_response: "clrid_field (build_error_response cid code) = u32_to_le cid"
  "length (build_error_response cid code) = 31"
  by (simp_all add: build_error_response_eq prepend_header_def clrid_field_def error_message_def)

context executor
begin

lemma do_request_paired:
  assumes "io_execute io = exec" and "do_request io iw sf cid h w = (c, h', w')"
    and "u32_to_le cid = clrid_field sf" and "well_paired (log h)"
  shows "well_paired (log h')"
proof -
  have "clrid_field resp = clrid_field sf" if "exec iw sf w = (Inr resp, w1)" "9 \<le> length resp" for resp w1
    using exec_reply [of iw sf w resp] that by simp
  with assms show ?thesis
    by (auto simp: do_request_def handler_defs reply_matches_def clrid_error_response Let_def
        intro!: well_paired_append split: prod.splits sum.splits if_splits)
qed

lemma drain_iteration_paired:
  assumes ex: "io_execute io = exec" and it: "drain_iteration io cfg h w = (c, h', w')"
    and wp: "well_paired (log h)"
  shows "well_paired (log h')"
proof (cases "length (buf h) > max_buffer_size cfg")
  case True
  with it wp show ?thesis
    by (auto simp: drain_iteration_def handler_defs intro!: well_paired_append)
next
  case False
  obtain r where r: "try_decode_router (buf h) = Some r" by (simp add: try_decode_router_ref)
  show ?thesis
  proof (cases r)
    case NeedMore
    with False r it wp show ?thesis
      by (auto simp: drain_iteration_def handler_defs intro!: well_paired_append
          split: prod.splits if_splits)
  next
    case (Frame flen seg iw sf off cid)
    with r have d: "try_decode_router (buf h) = Some (Frame flen seg iw sf off cid)" by simp
    have cid: "u32_to_le cid = clrid_field sf"
      using decode_FrameD(8) [OF d] by (simp add: clrid_field_def)
    from False d it have "on_frame io cfg flen seg iw sf cid h w = (c, h', w')"
      by (simp add: drain_iteration_def)
    then show ?thesis
      using wp do_request_paired [OF ex _ cid]
      by (auto simp: on_frame_def handler_defs Let_def intro!: well_paired_append
          split: prod.splits if_splits option.splits)
  next
    case (Decode_Error e)
    with False r it have "on_parse_error h w = (c, h', w')" by (simp add: drain_iteration_def)
    then have "log h' = log h"
      by (auto simp: on_parse_error_def handler_defs Let_def split: if_splits option.splits)
    with wp show ?thesis by simp
  qed
qed

lemma handle_event_paired:
  assumes ex: "io_execute io = exec" and ev: "handle_event io cfg ev h w = (c, h', w')"
    and wp: "well_paired (log h)"
  shows "well_paired (log h')"
proof -
  have "well_paired (log h2)" if "drain_loop io cfg h1 w1 = (c2, h2, w2)" "well_paired (log h1)" for h1 w1 c2 h2 w2
    using drain_loop_rule [where I = "\<lambda>h w. well_paired (log h)" and Q = "\<lambda>c h w. well_paired (log h)",
        OF that(2) _ that(1)] drain_iteration_paired [OF ex] by fastforce
  moreover have "well_paired (log (bump f (h\<lparr>buf := b\<rparr>)))" "well_paired (log (bump f h))" for f b
    using wp by (simp_all add: bump_def)
  ultimately show ?thesis
    using ev wp by (auto simp: handle_event_def split: conn_event.splits if_splits prod.splits control.splits)
qed

lemma handle_connection_paired:
  assumes ex: "io_execute io = exec" and run: "handle_connection io cfg m evs w = (r, h, w')"
  shows "well_paired (log h)"
proof -
  obtain now w1 where n: "io_now io w = (now, w1)" by (cases "io_now io w")
  have "conn_loop io cfg evs \<lparr>buf = [], last_frame_time = now, metrics = m, log = []\<rparr> w1 = (r, h, w')"
    using run n by (simp add: handle_connection_def)
  then show ?thesis
    by (rule conn_loop_rule [where I = "\<lambda>h w. well_paired (log h)" and Q = "\<lambda>r h w. well_paired (log h)", rotated 3])
      (auto simp: emit_def intro!: well_paired_append dest: handle_event_paired [OF ex] split: control.splits)
qed

end

section \<open>Properties of the server\<close>

text \<open>A world for the witnesses: an echoing cluster, a writer that never fails, and a clock that
  advances by a fixed amount per reading.\<close>

definition echo_io :: "int \<Rightarrow> int server_io" where
  "echo_io d = \<lparr>io_now = (\<lambda>t. (t, t + d)), io_execute = (\<lambda>_ f t. (Inr f, t)),
     io_write_all = (\<lambda>_ t. (True, t)), io_flush = (\<lambda>t. t)\<rparr>"

abbreviation sample_config :: Config where
  "sample_config \<equiv> default_config ''z'' ''s'' ''b'' ''rzid'' ''rzpoint''"

text \<open>C19: a connection task never panics, and every way out of it (peer closed, read error,
  idle or frame timeout, oversized frame or buffer, failed execution, failed write,
  cancellation) sends exactly one close message; while it waits for input it has sent none and its buffer holds at
  most \<^verbatim>\<open>max_buffer_size\<close> bytes, whatever the peer has sent.\<close>

theorem connection_task_closes_once:
  assumes "handle_connection io cfg m evs w = (r, h, w')"
  shows "r \<noteq> Panicked \<and> closes h = (if r = Finished then 1 else 0) \<and> (r = Waiting \<longrightarrow> length (buf h) \<le> max_buffer_size cfg)"
  using assms by (rule conn_result_any_metrics)

theorem connection_task_closes_once_witness:
  "\<exists>h h'. handle_connection (echo_io 1) sample_config BridgeMetrics_new [Read_Ok [0xFE]] 0 = (Waiting, h, 2)
     \<and> buf h = [0xFE] \<and> closes h = 0 \<and> length (buf h) \<le> max_buffer_size sample_config
     \<and> handle_connection (echo_io 1) sample_config BridgeMetrics_new [Read_Ok [0xFE], Idle_Timeout] 0 = (Finished, h', 2) \<and> closes h' = 1"
proof -
  let ?run = "\<lambda>evs. handle_connection (echo_io 1) sample_config BridgeMetrics_new evs 0"
  have "\<exists>h. ?run [Read_Ok [0xFE]] = (Waiting, h, 2) \<and> buf h = [0xFE]" "\<exists>h. ?run [Read_Ok [0xFE], Idle_Timeout] = (Finished, h, 2)"
    by (simp_all add: handle_connection_def echo_io_def handle_event_def bump_def emit_def drain_loop.simps drain_iteration_def
      default_config_def try_decode_router_def elapsed_def frame_timeout_def from_secs_def)
  then obtain h h' where r: "?run [Read_Ok [0xFE]] = (Waiting, h, 2)" "buf h = [0xFE]" "?run [Read_Ok [0xFE], Idle_Timeout] = (Finished, h', 2)"
    by blast
  with connection_task_closes_once [OF r(1)] connection_task_closes_once [OF r(3)] show ?thesis by auto
qed

text \<open>C32: the counters balance: whatever the shared counters were, a connection task that waits or has finished has added to them a
  \<open>d\<close> in which each received frame is counted as exactly one of keepalive, executed or failed, and every
  resynchronisation also as a client error; the executed and failed frames are the executions in its log, and the bytes
  sent are those of the responses. What it adds does not depend on what the counters were, so this holds however other tasks' increments come in between.\<close>

theorem bridge_metrics_balance:
  "\<exists>d. frames_received d = keepalives_received d + frames_executed d + execute_errors d \<and> resyncs d \<le> client_errors d
    \<and> (\<forall>m. \<exists>r h w'. handle_connection io cfg m evs w = (r, h, w') \<and> metrics h = add_metrics m d
        \<and> frames_executed d = sum_list (map executed_ok (log h)) \<and> execute_errors d = sum_list (map executed_failed (log h))
        \<and> bytes_sent d = sum_list (map response_bytes (log h)))"
proof -
  obtain r h w' where c: "handle_connection io cfg BridgeMetrics_new evs w = (r, h, w')" by (rule prod_cases3)
  have "metrics_ok (metrics h)"
    using handle_connection_ok [OF _ c] by (simp add: conn_result_ok_def metrics_ok_def BridgeMetrics_new_def)
  moreover have "handle_connection io cfg m evs w = (r, on_top m h, w')" for m using handle_connection_on_top [of io cfg m evs w] c by simp
  ultimately show ?thesis
    using handle_connection_counts [OF c] by (intro exI [of _ "metrics h"]) (auto simp: metrics_ok_def counts_log_def)
qed

text \<open>C15: the byte-level drain loop refines the message-level server: on a buffer that holds the
  encodings of a sequence of requests followed by anything, it serves exactly these requests, in
  order, with the same executions, replies, counters and early exit as \<open>serve\<close> on the decoded
  requests, and then goes on with the rest of the buffer.\<close>

theorem drain_loop_refines_serve:
  assumes "\<forall>f \<in> set reqs. router_ok f" and "buf h = concat (map router_enc reqs) @ rest"
    and "length (buf h) \<le> max_buffer_size cfg"
  shows "\<exists>b. drain_loop io cfg h w = (case serve io cfg reqs h w of
       (Continue, h', w') \<Rightarrow> drain_loop io cfg (h'\<lparr>buf := rest\<rparr>) w'
     | (c, h', w') \<Rightarrow> (c, h'\<lparr>buf := b\<rparr>, w'))"
  using assms by (rule drain_loop_requests)

definition sample_request :: "string \<times> bool \<times> bytes \<times> u32" where
  "sample_request = (''a'', True, prepend_header 7 [], 7)"

definition sample_handler :: "bytes \<Rightarrow> handler" where
  "sample_handler b = \<lparr>buf = b, last_frame_time = 0, metrics = BridgeMetrics_new, log = []\<rparr>"

lemma sample_request_ok: "router_ok sample_request"
  by (simp add: sample_request_def router_ok_def router_wf_def prepend_header_def SHARD_MAGIC_def
      string_to_bytes_def)

lemma length_sample_request: "length (router_enc sample_request) = 17"
  by (simp add: sample_request_def router_enc_def)

theorem drain_loop_refines_serve_witness:
  "\<exists>b. drain_loop (echo_io 1) sample_config (sample_handler (router_enc sample_request @ [0xFE])) 0 =
     (case serve (echo_io 1) sample_config [sample_request]
         (sample_handler (router_enc sample_request @ [0xFE])) 0 of
       (Continue, h', w') \<Rightarrow> drain_loop (echo_io 1) sample_config (h'\<lparr>buf := [0xFE]\<rparr>) w'
     | (c, h', w') \<Rightarrow> (c, h'\<lparr>buf := b\<rparr>, w'))"
  by (rule drain_loop_refines_serve)
    (simp_all add: sample_request_ok sample_handler_def length_sample_request default_config_def)

text \<open>C29: resynchronisation recovers the stream: when garbage comes before a request frame and no magic byte in it is followed
  by something that the decoder takes for a frame or for the beginning of one (in particular, when there is no magic byte in it), the drain
  loop behaves as if the garbage had never arrived, except that client errors and resyncs are counted: one, and one more for each magic
  byte after the first byte. No byte of what follows is lost. The condition is needed: lemma \<open>false_header_waits\<close>.\<close>

theorem resync_recovers_stream:
  assumes "g \<noteq> []" and "\<forall>p q. g = p @ ROUTER_MAGIC # q \<longrightarrow> (\<exists>e. try_decode_router (ROUTER_MAGIC # q @ router_enc f @ rest) = Some (Decode_Error e))"
    and "router_ok f" and "buf h = g @ router_enc f @ rest" and "length (buf h) \<le> max_buffer_size cfg"
    and "n = 1 + count_list (tl g) ROUTER_MAGIC"
  shows "drain_loop io cfg h w = drain_loop io cfg (h\<lparr>buf := router_enc f @ rest,
     metrics := (metrics h)\<lparr>client_errors := client_errors (metrics h) + n, resyncs := resyncs (metrics h) + n\<rparr>\<rparr>) w"
proof -
  obtain xs where "router_enc f = ROUTER_MAGIC # xs" "5 \<le> length (router_enc f)"
    by (cases f) (auto simp: router_enc_def router_layout_def)
  with assms show ?thesis using drain_loop_resync_all [of g "xs @ rest" h cfg io w] by (simp add: resynced_def)
qed

theorem resync_recovers_stream_witness:
  "drain_loop (echo_io 1) sample_config (sample_handler ([1, 2, 0xFE, 0xFF, 0xFF, 0xFF, 0xFF] @ router_enc sample_request)) 0 =
   drain_loop (echo_io 1) sample_config ((sample_handler (router_enc sample_request))\<lparr>metrics :=
     BridgeMetrics_new\<lparr>client_errors := 2, resyncs := 2\<rparr>\<rparr>) 0"
proof -
  let ?g = "[1, 2, 0xFE, 0xFF, 0xFF, 0xFF, 0xFF] :: bytes" and ?b = "router_enc sample_request"
  have len: "length ?b = 17" by (rule length_sample_request)
  have "try_decode_router (0xFE # 0xFF # 0xFF # 0xFF # 0xFF # ?b @ []) = Some (Decode_Error (ParseError ''frame too large''))"
    using len by (simp add: try_decode_router_ref decode_ref_def ROUTER_MAGIC_def)
  then have e: "\<forall>p q. ?g = p @ ROUTER_MAGIC # q \<longrightarrow> (\<exists>e. try_decode_router (ROUTER_MAGIC # q @ ?b @ []) = Some (Decode_Error e))"
    by (auto simp: Cons_eq_append_conv ROUTER_MAGIC_def)
  have "drain_loop (echo_io 1) sample_config (sample_handler (?g @ ?b @ [])) 0 =
    drain_loop (echo_io 1) sample_config ((sample_handler (?g @ ?b @ []))\<lparr>buf := ?b @ [], metrics := (metrics (sample_handler (?g @ ?b @ [])))
      \<lparr>client_errors := client_errors (metrics (sample_handler (?g @ ?b @ []))) + 2, resyncs := resyncs (metrics (sample_handler (?g @ ?b @ []))) + 2\<rparr>\<rparr>) 0"
    by (rule resync_recovers_stream [OF _ e]) (simp_all add: sample_request_ok sample_handler_def len default_config_def ROUTER_MAGIC_def)
  then show ?thesis by (simp add: sample_handler_def BridgeMetrics_new_def numeral_2_eq_2)
qed

text \<open>C40: the frame timeout does not measure the time a frame takes: a connection that was quiet
  for longer than the frame timeout is closed as a slow peer by the first read that ends inside a
  frame, even if the frame has only just begun and whatever would have followed.\<close>

theorem frame_timeout_counts_idle_time:
  assumes "bs \<noteq> []" and "try_decode_router bs = Some NeedMore" and "length bs \<le> max_buffer_size cfg"
    and "io_now io w = (t0, w1)" and "io_now io w1 = (t1, w2)" and "t1 - t0 > int (frame_timeout cfg)"
  shows "\<exists>h. handle_connection io cfg m (Read_Ok bs # evs) w = (Finished, h, w2)
     \<and> timeouts (metrics h) = timeouts m + 1 \<and> requests h = 0"
  using assms
  by (simp add: handle_connection_def handle_event_def drain_loop.simps drain_iteration_def elapsed_def
      bump_def emit_def requests_def)

theorem frame_timeout_counts_idle_time_witness:
  "\<exists>h. handle_connection (echo_io 30000000000) sample_config BridgeMetrics_new (Read_Ok [0xFE, 1] # []) 0 =
       (Finished, h, 60000000000)
     \<and> timeouts (metrics h) = timeouts BridgeMetrics_new + 1 \<and> requests h = 0"
  by (rule frame_timeout_counts_idle_time [where ?t0.0 = 0 and ?w1.0 = 30000000000 and ?t1.0 = 30000000000])
    (simp_all add: try_decode_router_def default_config_def echo_io_def frame_timeout_def from_secs_def)

text \<open>The connection limit: in every reachable state of the accept loop the counter equals
  the running connection tasks plus the close messages not yet counted (so the decrement never
  wraps), and at most \<^verbatim>\<open>max_connections\<close> tasks run.\<close>

lemma server_connection_limit:
  assumes "server_reachable cfg s" and "max_connections cfg < 2 ^ 64"
  shows "active s = live s + pending s \<and> live s \<le> max_connections cfg"
  using server_reachable_inv [OF assms] by (simp add: server_inv_def)

end
