(* ===== verification/Rz_Execute.thy ===== *)
theory Rz_Execute
  imports Rz_Cluster_Props Rz_Tcp_Server
begin

text \<open>
  \<^verbatim>\<open>ClusterHandler::execute\<close> of \<^verbatim>\<open>src/cluster_handler.rs\<close>: send a request over a leader or a
  follower connection under a correlation id of that connection, with up to three attempts, and
  give the reply the client's own id back. While \<open>execute\<close> waits, other tasks change the
  cluster; \<open>exec_env\<close> says what the world is when each wait is over: \<open>e_between\<close> after the
  locks of the choice were given up, \<open>e_room\<close> when the send queue has room or its receiver is
  gone, \<open>e_reply\<close> when the oneshot channel has delivered (\<open>Some\<close>) or was dropped (\<open>None\<close>),
  \<open>e_sleep\<close> after a pause. All of them are arbitrary, but they are functions: a run of \<open>execute\<close> here is one in which every wait ends.
  The two waits that may never end (for room and for the response) are kept apart in theory \<open>Rz_Progress\<close>, and theory \<open>Rz_Exchange\<close> replaces \<open>e_reply\<close> by the
  connection's own tasks. \<open>w_log\<close> (ghost) records what
  \<open>execute\<close> did. \<open>None\<close> is a panic.
\<close>

section \<open>The world and its events\<close>

datatype exec_event =
    Registered conn_ref u32 tx
  | Sent_Frame conn_ref bytes bool
  | Answered tx "bytes option"
  | Paused duration

record world =
  w_cluster :: cluster
  w_next_tx :: tx
  w_log :: "exec_event list"

record exec_env =
  e_order :: "world \<Rightarrow> hash_order"
  e_now :: "world \<Rightarrow> instant"
  e_between :: "world \<Rightarrow> world"
  e_room :: "conn_ref \<Rightarrow> world \<Rightarrow> world"
  e_reply :: "conn_ref \<Rightarrow> u32 \<Rightarrow> tx \<Rightarrow> world \<Rightarrow> bytes option \<times> world"
  e_sleep :: "duration \<Rightarrow> world \<Rightarrow> world"

text \<open>Other tasks do not write the ghost log.\<close>

definition logged :: "exec_event \<Rightarrow> world \<Rightarrow> world" where
  "logged e w = w\<lparr>w_log := w_log w @ [e]\<rparr>"

definition keep_log :: "world \<Rightarrow> world \<Rightarrow> world" where
  "keep_log w w' = w'\<lparr>w_log := w_log w\<rparr>"

section \<open>The operation\<close>

definition choose_conn :: "exec_env \<Rightarrow> bool \<Rightarrow> world \<Rightarrow> conn_ref option \<times> world" where
  "choose_conn env iw w =
     (let (res, s, _) = (if iw then next_leader_conn (e_now env w) (w_cluster w)
                         else next_follower_conn (e_order env w) (e_now env w) (w_cluster w));
          w1 = keep_log w (e_between env (w\<lparr>w_cluster := s\<rparr>))
      in case res of
           None \<Rightarrow> (None, w1)
         | Some c \<Rightarrow> (if conn_closed (w_cluster w1) c then None else Some c, w1))"

definition update_conn :: "conn_ref \<Rightarrow> (conn \<Rightarrow> conn) \<Rightarrow> world \<Rightarrow> world" where
  "update_conn c f w =
     w\<lparr>w_cluster := (w_cluster w)\<lparr>heap := (heap (w_cluster w))[c := f (heap (w_cluster w) ! c)]\<rparr>\<rparr>"

text \<open>\<^verbatim>\<open>next_corr_id\<close>, and \<^verbatim>\<open>demux.store\<close> of a fresh oneshot channel under it.\<close>

definition take_corr_id :: "conn_ref \<Rightarrow> world \<Rightarrow> u32 \<times> world" where
  "take_corr_id c w =
     (let cid = fst (next_corr_id (heap (w_cluster w) ! c))
      in (cid, update_conn c (\<lambda>x. snd (next_corr_id x)) w))"

definition register_request :: "exec_env \<Rightarrow> conn_ref \<Rightarrow> u32 \<Rightarrow> world \<Rightarrow> tx \<times> world" where
  "register_request env c cid w =
     (let t = w_next_tx w
      in (t, logged (Registered c cid t)
            (update_conn c (\<lambda>x. x\<lparr>entries := demux_store cid t (e_now env w) (entries x)\<rparr>)
              (w\<lparr>w_next_tx := t + 1\<rparr>))))"

text \<open>\<^verbatim>\<open>conn.send_raw(frame).await\<close> in the world \<open>e_room\<close> gives, in which \<^verbatim>\<open>send_raw\<close> is ready.\<close>

definition send_frame :: "exec_env \<Rightarrow> conn_ref \<Rightarrow> bytes \<Rightarrow> world \<Rightarrow> bool \<times> world" where
  "send_frame env c f w =
     (let w1 = keep_log w (e_room env c w);
          (p, x) = send_raw f (heap (w_cluster w1) ! c);
          ok = (p = Ready True)
      in (ok, logged (Sent_Frame c f ok) (update_conn c (\<lambda>_. x) w1)))"

definition pause :: "exec_env \<Rightarrow> nat \<Rightarrow> world \<Rightarrow> world" where
  "pause env attempts w =
     (let d = from_millis (50 * (attempts + 1))
      in logged (Paused d) (keep_log w (e_sleep env d w)))"

definition await_reply :: "exec_env \<Rightarrow> conn_ref \<Rightarrow> u32 \<Rightarrow> tx \<Rightarrow> world \<Rightarrow> bytes option \<times> world" where
  "await_reply env c cid t w =
     (case e_reply env c cid t w of (r, w1) \<Rightarrow> (r, logged (Answered t r) (keep_log w w1)))"

text \<open>What is done with a response: the original id is written back into a response that has one.\<close>

definition restore_clrid :: "u32 \<Rightarrow> bytes \<Rightarrow> bytes option" where
  "restore_clrid original response =
     (if length response \<ge> 9 then copy_from_slice response 1 5 (u32_to_le original) else Some response)"

text \<open>The loop; \<open>left\<close> is the number of attempts that remain, \<open>3 - attempts\<close>.\<close>

fun exec_loop :: "exec_env \<Rightarrow> bool \<Rightarrow> u32 \<Rightarrow> nat \<Rightarrow> nat \<Rightarrow> bytes \<Rightarrow> world \<Rightarrow> (bytes rz_result \<times> world) option" where
  "exec_loop env iw original attempts 0 frame w = Some (Inl Timeout, w)"
| "exec_loop env iw original attempts (Suc left) frame w =
     (case choose_conn env iw w of
        (None, w1) \<Rightarrow>
          (if attempts + 1 \<ge> 3
           then Some (Inl (if iw then NoLeaderAvailable else NoFollowerNodeAvailable), w1)
           else exec_loop env iw original (attempts + 1) left frame (pause env (attempts + 1) w1))
      | (Some c, w1) \<Rightarrow>
          (let (cid, w2) = take_corr_id c w1
           in case copy_from_slice frame 1 5 (u32_to_le cid) of
                None \<Rightarrow> None
              | Some frame1 \<Rightarrow>
                  (let (t, w3) = register_request env c cid w2;
                       (ok, w4) = send_frame env c frame1 w3
                   in if \<not> ok then
                        (if attempts + 1 \<ge> 3 then Some (Inl Timeout, w4)
                         else exec_loop env iw original (attempts + 1) left frame1 (pause env (attempts + 1) w4))
                      else
                        (case await_reply env c cid t w4 of
                           (Some response, w5) \<Rightarrow> map_option (\<lambda>b. (Inr b, w5)) (restore_clrid original response)
                         | (None, w5) \<Rightarrow>
                             (if attempts + 1 \<ge> 3 then Some (Inl Timeout, w5)
                              else exec_loop env iw original (attempts + 1) left frame1 (pause env (attempts + 1) w5))))))"

definition execute :: "exec_env \<Rightarrow> bool \<Rightarrow> bytes \<Rightarrow> world \<Rightarrow> (bytes rz_result \<times> world) option" where
  "execute env iw sf w =
     (if length sf < 9 then Some (Inl (Validation ''invalid shard frame''), w)
      else do {
        m \<leftarrow> idx sf 0;
        if m \<noteq> 0xFF then Some (Inl (Validation ''invalid shard frame''), w)
        else do {
          cb \<leftarrow> slice sf 1 5;
          original \<leftarrow> u32_from_le cb;
          exec_loop env iw original 0 3 sf w
        }
      })"

text \<open>The result of the operation, which always exists (\<open>run_execute_eq\<close>).\<close>

definition run_execute :: "exec_env \<Rightarrow> bool \<Rightarrow> bytes \<Rightarrow> world \<Rightarrow> bytes rz_result \<times> world" where
  "run_execute env iw f w = the (execute env iw f w)"

section \<open>What the specification speaks of\<close>

definition set_clrid :: "u32 \<Rightarrow> bytes \<Rightarrow> bytes" where
  "set_clrid cid f = take 1 f @ u32_to_le cid @ drop 5 f"

text \<open>What one run of the loop does, with the log it appends.\<close>

fun sends_of :: "exec_event list \<Rightarrow> bytes list" where
  "sends_of [] = []"
| "sends_of (Sent_Frame c f ok # es) = f # sends_of es"
| "sends_of (_ # es) = sends_of es"

fun pauses_of :: "exec_event list \<Rightarrow> duration list" where
  "pauses_of [] = []"
| "pauses_of (Paused d # es) = d # pauses_of es"
| "pauses_of (_ # es) = pauses_of es"

text \<open>What an attempt may leave in the log: the request goes out under the id just registered for the
  connection it goes to, and after a successful send the channel registered for it is awaited.\<close>

fun exchanges :: "bytes \<Rightarrow> exec_event list \<Rightarrow> bool" where
  "exchanges f (Registered c cid t # Sent_Frame c' g False # es) \<longleftrightarrow>
     c' = c \<and> g = set_clrid cid f \<and> exchanges f es"
| "exchanges f (Registered c cid t # Sent_Frame c' g True # Answered t' r # es) \<longleftrightarrow>
     c' = c \<and> g = set_clrid cid f \<and> t' = t \<and> exchanges f es"
| "exchanges f (Paused d # es) \<longleftrightarrow> exchanges f es"
| "exchanges f [] \<longleftrightarrow> True"
| "exchanges f _ \<longleftrightarrow> False"

definition attempt_log :: "bytes \<Rightarrow> exec_event list \<Rightarrow> bool" where
  "attempt_log f es \<longleftrightarrow> es = [] \<or> (\<exists>c cid t. es = [Registered c cid t, Sent_Frame c (set_clrid cid f) False])
     \<or> (\<exists>c cid t r. es = [Registered c cid t, Sent_Frame c (set_clrid cid f) True, Answered t r])"

definition exec_error :: "bool \<Rightarrow> RZError \<Rightarrow> bool" where
  "exec_error iw e \<longleftrightarrow> e = Timeout \<or> e = (if iw then NoLeaderAvailable else NoFollowerNodeAvailable)"

definition answered_last :: "bytes \<Rightarrow> u32 \<Rightarrow> exec_event list \<Rightarrow> bytes \<Rightarrow> bool" where
  "answered_last f original es b \<longleftrightarrow> (\<exists>es0 c cid t resp.
     es = es0 @ [Registered c cid t, Sent_Frame c (set_clrid cid f) True, Answered t (Some resp)]
     \<and> b = (if 9 \<le> length resp then set_clrid original resp else resp))"

definition loop_post :: "bool \<Rightarrow> u32 \<Rightarrow> nat \<Rightarrow> bytes \<Rightarrow> world \<Rightarrow> bytes rz_result \<Rightarrow> world \<Rightarrow> bool" where
  "loop_post iw original attempts f w r w' \<longleftrightarrow>
     (\<exists>es. w_log w' = w_log w @ es \<and> exchanges f es \<and> length (sends_of es) \<le> 3 - attempts
        \<and> pauses_of es = take (length (pauses_of es)) (map (\<lambda>k. from_millis (50 * (k + 1))) [attempts + 1..<3])
        \<and> (case r of Inl e \<Rightarrow> exec_error iw e \<and> length (pauses_of es) = 2 - attempts
           | Inr b \<Rightarrow> answered_last f original es b))"

text \<open>No slot of the leader vector holds an open connection.\<close>

definition leaderless :: "world \<Rightarrow> bool" where
  "leaderless w \<longleftrightarrow> cluster_inv (w_cluster w) \<and> (\<forall>i. \<not> open_slot (w_cluster w) i)"

text \<open>A connection of the kind asked for is open and the choice finds it.\<close>

definition serviceable :: "exec_env \<Rightarrow> bool \<Rightarrow> world \<Rightarrow> bool" where
  "serviceable env iw w \<longleftrightarrow> cluster_inv (w_cluster w) \<and>
     (if iw then \<exists>i. open_slot (w_cluster w) i
      else valid_hash_order (e_order env w) \<and> dense_history (w_cluster w) \<and> any_follower_conn (w_cluster w))"

text \<open>What \<^verbatim>\<open>execute\<close> does to a connection is what the connection's step relation allows.\<close>

definition conn_view :: "conn_ref \<Rightarrow> (tx \<Rightarrow> chan) \<Rightarrow> (tx \<Rightarrow> u32 option) \<Rightarrow> world \<Rightarrow> conn_sys" where
  "conn_view c ch a w = \<lparr>the_conn = heap (w_cluster w) ! c, chans = ch, assigned = a\<rparr>"

text \<open>A cluster whose nodes answer.\<close>

definition sample_env :: exec_env where
  "sample_env = \<lparr>e_order = (\<lambda>_. list_order), e_now = (\<lambda>_. 0), e_between = (\<lambda>w. w),
     e_room = (\<lambda>c. update_conn c (\<lambda>_. sample_conn)),
     e_reply = (\<lambda>c cid t w. (Some (prepend_header cid sample_reply), w)), e_sleep = (\<lambda>_ w. w)\<rparr>"

definition sample_world :: world where
  "sample_world = \<lparr>w_cluster = pool_sample, w_next_tx = 7, w_log = []\<rparr>"

definition sample_shard_frame :: bytes where
  "sample_shard_frame = prepend_header 77 sample_reply"

section \<open>Lemmas\<close>

lemma copy_clrid: "9 \<le> length f \<Longrightarrow> copy_from_slice f 1 5 (u32_to_le cid) = Some (set_clrid cid f)"
  by (simp add: copy_from_slice_def set_clrid_def)

lemma set_clrid_length [simp]: "9 \<le> length f \<Longrightarrow> length (set_clrid cid f) = length f"
  by (simp add: set_clrid_def)

lemma set_clrid_twice [simp]: "9 \<le> length f \<Longrightarrow> set_clrid a (set_clrid b f) = set_clrid a f"
  by (simp add: set_clrid_def)

lemma set_clrid_field: "9 \<le> length f \<Longrightarrow> clrid_field (set_clrid cid f) = u32_to_le cid"
  by (simp add: set_clrid_def clrid_field_def)

lemma restore_clrid_eq:
  "restore_clrid original resp = Some (if 9 \<le> length resp then set_clrid original resp else resp)"
  using copy_clrid [of resp original] by (simp add: restore_clrid_def)

lemma exchanges_attempt: "attempt_log f es \<Longrightarrow> exchanges f (es @ es2) = exchanges f es2"
  by (auto simp: attempt_log_def)

lemma attempt_log_counts:
  "attempt_log f es \<Longrightarrow> pauses_of (es @ es2) = pauses_of es2 \<and> length (sends_of (es @ es2)) \<le> Suc (length (sends_of es2))"
  by (auto simp: attempt_log_def)

lemma answered_last_prefix: "answered_last f original es b \<Longrightarrow> answered_last f original (es0 @ es) b"
  unfolding answered_last_def by (metis append.assoc)

lemma choose_conn_log: "choose_conn env iw w = (r, w1) \<Longrightarrow> w_log w1 = w_log w"
  by (auto simp: choose_conn_def keep_log_def Let_def split: prod.splits option.splits if_splits)

lemma take_corr_id_log: "take_corr_id c w = (cid, w1) \<Longrightarrow> w_log w1 = w_log w"
  by (auto simp: take_corr_id_def update_conn_def Let_def)

lemma register_log: "register_request env c cid w = (t, w1) \<Longrightarrow> w_log w1 = w_log w @ [Registered c cid t]"
  by (auto simp: register_request_def update_conn_def logged_def Let_def)

lemma send_frame_log: "send_frame env c f w = (ok, w1) \<Longrightarrow> w_log w1 = w_log w @ [Sent_Frame c f ok]"
  by (auto simp: send_frame_def update_conn_def logged_def keep_log_def Let_def split: prod.splits)

lemma await_log: "await_reply env c cid t w = (r, w1) \<Longrightarrow> w_log w1 = w_log w @ [Answered t r]"
  by (auto simp: await_reply_def keep_log_def logged_def split: prod.splits)

lemma pause_log: "w_log (pause env a w) = w_log w @ [Paused (from_millis (50 * (a + 1)))]"
  by (simp add: pause_def logged_def keep_log_def Let_def)

lemma loop_post_error:
  assumes "w_log w1 = w_log w @ es" and "attempts = 2" and a: "attempt_log f es" and "exec_error iw e"
  shows "loop_post iw original attempts f w (Inl e) w1"
  using assms exchanges_attempt [OF a, of "[]"] attempt_log_counts [OF a, of "[]"]
  unfolding loop_post_def by (auto intro!: exI [of _ es])

lemma loop_post_retry:
  assumes l: "w_log w1 = w_log w @ es" and a2: "attempts < 2" and a: "attempt_log f es"
    and post: "loop_post iw original (attempts + 1) f (pause env (attempts + 1) w1) r w'"
  shows "loop_post iw original attempts f w r w'"
proof -
  from post obtain es2 where p: "w_log w' = w_log (pause env (attempts + 1) w1) @ es2" "exchanges f es2"
    "length (sends_of es2) \<le> 3 - (attempts + 1)"
    "pauses_of es2 = take (length (pauses_of es2)) (map (\<lambda>k. from_millis (50 * (k + 1))) [attempts + 1 + 1..<3])"
    "case r of Inl e \<Rightarrow> exec_error iw e \<and> length (pauses_of es2) = 2 - (attempts + 1)
           | Inr b \<Rightarrow> answered_last f original es2 b"
    unfolding loop_post_def by blast
  let ?d = "from_millis (50 * (attempts + 1 + 1))"
  let ?es = "es @ Paused ?d # es2"
  have "w_log w' = w_log w @ ?es" using l p(1) by (simp add: pause_log)
  moreover have "exchanges f ?es" using exchanges_attempt [OF a] p(2) by simp
  moreover have pe: "pauses_of ?es = ?d # pauses_of es2" using attempt_log_counts [OF a, of "Paused ?d # es2"] by simp
  moreover have "length (sends_of ?es) \<le> 3 - attempts"
    using attempt_log_counts [OF a, of "Paused ?d # es2"] p(3) a2 by fastforce
  moreover have "[attempts + 1..<3] = (attempts + 1) # [attempts + 1 + 1..<3]" using a2 by (simp add: upt_conv_Cons)
  then have "pauses_of ?es = take (length (pauses_of ?es)) (map (\<lambda>k. from_millis (50 * (k + 1))) [attempts + 1..<3])"
    unfolding pe using p(4) by simp
  moreover have "case r of Inl e \<Rightarrow> exec_error iw e \<and> length (pauses_of ?es) = 2 - attempts
           | Inr b \<Rightarrow> answered_last f original ?es b"
  proof (cases r)
    case (Inl e)
    with p(5) a2 show ?thesis unfolding pe by auto
  next
    case (Inr b)
    with p(5) answered_last_prefix [of f original es2 b "es @ [Paused ?d]"] show ?thesis by simp
  qed
  ultimately show ?thesis unfolding loop_post_def by blast
qed

lemma loop_post_frame:
  "9 \<le> length f \<Longrightarrow> loop_post iw original a (set_clrid cid f) w r w' = loop_post iw original a f w r w'"
proof -
  assume l: "9 \<le> length f"
  have "exchanges (set_clrid cid f) es = exchanges f es" for es
    using l by (induction f es rule: exchanges.induct) auto
  moreover have "answered_last (set_clrid cid f) original es b = answered_last f original es b" for es b
    using l by (simp only: answered_last_def set_clrid_twice)
  ultimately show ?thesis unfolding loop_post_def by (cases r) simp_all
qed

lemma exec_loop_spec:
  assumes "attempts + left = 3" and "0 < left" and "9 \<le> length f"
  shows "\<exists>r w'. exec_loop env iw original attempts left f w = Some (r, w') \<and> loop_post iw original attempts f w r w'"
  using assms
proof (induction left arbitrary: attempts f w)
  case (Suc left)
  have last: "attempts + 1 \<ge> 3 \<longleftrightarrow> attempts = 2" "attempts \<noteq> 2 \<Longrightarrow> attempts < 2" using Suc.prems by auto
  have retry: "\<exists>r w'. exec_loop env iw original (attempts + 1) left g (pause env (attempts + 1) u) = Some (r, w')
      \<and> loop_post iw original attempts f w r w'"
    if a2: "attempts \<noteq> 2" and wu: "w_log u = w_log w @ es" and g: "g = f \<or> (\<exists>cid. g = set_clrid cid f)"
      and es: "attempt_log f es" for u es g
  proof -
    have "9 \<le> length g" using g Suc.prems(3) by auto
    then obtain r w' where r: "exec_loop env iw original (attempts + 1) left g (pause env (attempts + 1) u) = Some (r, w')"
      "loop_post iw original (attempts + 1) g (pause env (attempts + 1) u) r w'"
      using Suc.IH [of "attempts + 1" g] Suc.prems(1) last(2) [OF a2] by fastforce
    then have "loop_post iw original (attempts + 1) f (pause env (attempts + 1) u) r w'"
      using g loop_post_frame [OF Suc.prems(3)] by auto
    with r(1) loop_post_retry [OF wu last(2) [OF a2] es] show ?thesis by blast
  qed
  obtain ch w1 where cc: "choose_conn env iw w = (ch, w1)" by (cases "choose_conn env iw w")
  note l1 = choose_conn_log [OF cc]
  show ?case
  proof (cases ch)
    case None
    show ?thesis
    proof (cases "attempts = 2")
      case True
      have "loop_post iw original attempts f w (Inl (if iw then NoLeaderAvailable else NoFollowerNodeAvailable)) w1"
        by (rule loop_post_error [of _ _ "[]"]) (use l1 True in \<open>simp_all add: exec_error_def attempt_log_def\<close>)
      then show ?thesis using cc None True by simp
    next
      case False
      with retry [OF False, of w1 "[]" f] cc None l1 last show ?thesis by (simp add: attempt_log_def)
    qed
  next
    case (Some c)
    obtain cid w2 where t2: "take_corr_id c w1 = (cid, w2)" by (cases "take_corr_id c w1")
    obtain t w3 where t3: "register_request env c cid w2 = (t, w3)" by (cases "register_request env c cid w2")
    let ?g = "set_clrid cid f"
    obtain ok w4 where t4: "send_frame env c ?g w3 = (ok, w4)" by (cases "send_frame env c ?g w3")
    let ?es = "[Registered c cid t, Sent_Frame c ?g ok]"
    have l4: "w_log w4 = w_log w @ ?es"
      using send_frame_log [OF t4] register_log [OF t3] take_corr_id_log [OF t2] l1 by simp
    have e: "exec_loop env iw original attempts (Suc left) f w =
      (if \<not> ok then (if attempts + 1 \<ge> 3 then Some (Inl Timeout, w4)
            else exec_loop env iw original (attempts + 1) left ?g (pause env (attempts + 1) w4))
       else case await_reply env c cid t w4 of
           (Some response, w5) \<Rightarrow> map_option (\<lambda>b. (Inr b, w5)) (restore_clrid original response)
         | (None, w5) \<Rightarrow> (if attempts + 1 \<ge> 3 then Some (Inl Timeout, w5)
              else exec_loop env iw original (attempts + 1) left ?g (pause env (attempts + 1) w5)))"
      using cc Some t2 t3 t4 copy_clrid [OF Suc.prems(3), of cid] by (simp add: Let_def)
    have fail: "\<exists>r w'. (if attempts + 1 \<ge> 3 then Some (Inl Timeout, u)
            else exec_loop env iw original (attempts + 1) left ?g (pause env (attempts + 1) u)) = Some (r, w')
        \<and> loop_post iw original attempts f w r w'" if u: "w_log u = w_log w @ es" and a: "attempt_log f es" for u es
    proof (cases "attempts = 2")
      case True
      have "loop_post iw original attempts f w (Inl Timeout) u"
        by (rule loop_post_error [OF u True a]) (simp add: exec_error_def)
      then show ?thesis using True by simp
    next
      case False
      with retry [OF False u _ a] last show ?thesis by auto
    qed
    show ?thesis
    proof (cases ok)
      case False
      with e fail [OF l4] show ?thesis by (auto simp: attempt_log_def)
    next
      case True
      obtain resp w5 where t5: "await_reply env c cid t w4 = (resp, w5)" by (cases "await_reply env c cid t w4")
      have l5: "w_log w5 = w_log w @ [Registered c cid t, Sent_Frame c ?g True, Answered t resp]"
        using await_log [OF t5] l4 True by simp
      show ?thesis
      proof (cases resp)
        case None
        with e True t5 fail [OF l5] show ?thesis by (auto simp: attempt_log_def)
      next
        case (Some b)
        have "loop_post iw original attempts f w (Inr (if 9 \<le> length b then set_clrid original b else b)) w5"
          unfolding loop_post_def answered_last_def using l5 Suc.prems Some
          by (intro exI [of _ "[Registered c cid t, Sent_Frame c ?g True, Answered t resp]"]) auto
        with e True t5 Some show ?thesis by (simp add: restore_clrid_eq)
      qed
    qed
  qed
qed simp

lemma execute_bad:
  assumes "length f < 9 \<or> f ! 0 \<noteq> 0xFF"
  shows "execute env iw f w = Some (Inl (Validation ''invalid shard frame''), w)"
proof (cases "length f < 9")
  case False
  then have "idx f 0 = Some (f ! 0)" by (intro idx_Some) auto
  with False assms show ?thesis by (simp add: execute_def)
qed (simp add: execute_def)

lemma execute_loop:
  assumes l: "9 \<le> length f" and z: "f ! 0 = 0xFF"
  shows "\<exists>original. clrid_field f = u32_to_le original \<and> execute env iw f w = exec_loop env iw original 0 3 f w"
proof -
  have s: "slice f 1 5 = Some (clrid_field f)" using l by (simp add: clrid_field_def)
  have "length (clrid_field f) = 4" using l by (simp add: clrid_field_def)
  then obtain orig where o: "u32_from_le (clrid_field f) = Some orig" using u32_from_le_total by blast
  have i: "idx f 0 = Some (f ! 0)" using l by (intro idx_Some) auto
  have "execute env iw f w = exec_loop env iw orig 0 3 f w"
    unfolding execute_def i s using l z o by simp
  with u32_to_from_le [OF o] show ?thesis by metis
qed

lemma execute_good:
  assumes l: "9 \<le> length f" and z: "f ! 0 = 0xFF"
  shows "\<exists>r w' original. execute env iw f w = Some (r, w') \<and> clrid_field f = u32_to_le original \<and> loop_post iw original 0 f w r w'"
proof -
  obtain orig where o: "clrid_field f = u32_to_le orig" "execute env iw f w = exec_loop env iw orig 0 3 f w"
    using execute_loop [OF assms] by blast
  with exec_loop_spec [of 0 3 f env iw orig w] l show ?thesis by auto
qed

lemma execute_Inr:
  assumes e: "execute env iw f w = Some (Inr b, w')"
  shows "\<exists>es original. w_log w' = w_log w @ es \<and> clrid_field f = u32_to_le original \<and> answered_last f original es b"
proof (cases "length f < 9 \<or> f ! 0 \<noteq> 0xFF")
  case True
  from execute_bad [OF this, of env iw w] e show ?thesis by simp
next
  case False
  then obtain orig where "clrid_field f = u32_to_le orig" "loop_post iw orig 0 f w (Inr b) w'"
    using execute_good [of f env iw w] e by auto
  then show ?thesis unfolding loop_post_def by auto
qed

lemma run_execute_eq: "execute env iw f w = Some (run_execute env iw f w)"
  using execute_bad [of f env iw w] execute_good [of f env iw w]
  by (cases "length f < 9 \<or> f ! 0 \<noteq> 0xFF") (auto simp: run_execute_def)

lemma run_execute_executor: "executor (run_execute env)"
proof
  fix iw f w resp
  show "fst (run_execute env iw f w) = Inl (Validation ''invalid shard frame'')" if "length f < 9 \<or> f ! 0 \<noteq> 0xFF"
    using execute_bad [OF that, of env iw w] by (simp add: run_execute_def)
  assume i: "fst (run_execute env iw f w) = Inr resp" and l: "9 \<le> length resp"
  then have "execute env iw f w = Some (Inr resp, snd (run_execute env iw f w))"
    using run_execute_eq [of env iw f w] by (metis prod.collapse)
  from execute_Inr [OF this] obtain es orig b where o: "clrid_field f = u32_to_le orig"
    and b: "resp = (if 9 \<le> length b then set_clrid orig b else b)" unfolding answered_last_def by blast
  then have "9 \<le> length b" using l by (auto split: if_splits)
  with b o show "clrid_field resp = clrid_field f" by (simp add: set_clrid_field)
qed

interpretation bridge: executor "run_execute env" for env
  by (rule run_execute_executor)

section \<open>Properties\<close>

text \<open>C17: \<^verbatim>\<open>execute\<close> never panics, and what it does is this, whatever its waits end with (a wait may also never end: see
  \<open>execute_progress\<close>). A frame that is too short or does not start with 0xFF is refused with a validation error before anything is done. Otherwise every frame sent is the request with nothing
  but its correlation id replaced by the one just registered for it, at most three are sent, and an
  error is a timeout or the absence of the kind of node asked for, reported only after the pauses of
  100 and 150 ms.\<close>
theorem execute_retries:
  "\<exists>r w'. execute env iw f w = Some (r, w') \<and>
    (if length f < 9 \<or> f ! 0 \<noteq> 0xFF then r = Inl (Validation ''invalid shard frame'') \<and> w' = w
     else \<exists>es. w_log w' = w_log w @ es \<and> exchanges f es \<and> length (sends_of es) \<le> 3
        \<and> pauses_of es = take (length (pauses_of es)) [from_millis 100, from_millis 150]
        \<and> (\<forall>e. r = Inl e \<longrightarrow> exec_error iw e \<and> pauses_of es = [from_millis 100, from_millis 150]))"
proof (cases "length f < 9 \<or> f ! 0 \<noteq> 0xFF")
  case True
  then show ?thesis using execute_bad [OF True] by auto
next
  case False
  have two: "map (\<lambda>k. from_millis (50 * (k + 1))) [0 + 1..<3] = [from_millis 100, from_millis 150]"
    by (simp add: upt_rec)
  from False obtain r w' orig where e: "execute env iw f w = Some (r, w')" and "loop_post iw orig 0 f w r w'"
    using execute_good [of f env iw w] by auto
  then obtain es where es: "w_log w' = w_log w @ es" "exchanges f es" "length (sends_of es) \<le> 3 - 0"
    "pauses_of es = take (length (pauses_of es)) [from_millis 100, from_millis 150]"
    "case r of Inl e \<Rightarrow> exec_error iw e \<and> length (pauses_of es) = 2 - 0 | Inr b \<Rightarrow> answered_last f orig es b"
    unfolding loop_post_def two by blast
  have "exec_error iw e \<and> pauses_of es = [from_millis 100, from_millis 150]" if "r = Inl e" for e
    using es(4,5) that by simp
  with e es False show ?thesis by auto
qed

text \<open>A response \<^verbatim>\<open>execute\<close> returns is the one delivered on the channel registered for the last
  frame it sent, with the client's own correlation id written back and nothing else changed (a
  response too short to have an id is returned as it is).\<close>
lemma execute_returns_last_answer:
  assumes "execute env iw f w = Some (Inr b, w')"
  shows "\<exists>es original. w_log w' = w_log w @ es \<and> clrid_field f = u32_to_le original \<and> answered_last f original es b"
  using execute_Inr [OF assms] .

lemma choose_leaderless:
  assumes l: "leaderless w" and env: "\<forall>w. leaderless w \<longrightarrow> leaderless (e_between env w)"
  shows "\<exists>w1. choose_conn env True w = (None, w1) \<and> leaderless w1 \<and> w_log w1 = w_log w"
proof -
  have inv: "cluster_inv (w_cluster w)" and no: "\<forall>i. \<not> open_slot (w_cluster w) i" using l by (simp_all add: leaderless_def)
  obtain res t sends where n: "next_leader_conn (e_now env w) (w_cluster w) = (res, t, sends)" by (rule prod_cases3)
  note sp = next_leader_spec [OF inv n]
  have res: "res = None"
  proof (cases res)
    case (Some c)
    with sp obtain j where j: "j < per_node (w_cluster w)"
      "leader_conns (w_cluster w) ! ((leader_start (w_cluster w) + j) mod per_node (w_cluster w)) = Some c" "\<not> conn_closed (w_cluster w) c"
      by auto
    then have "open_slot (w_cluster w) ((leader_start (w_cluster w) + j) mod per_node (w_cluster w))"
      using inv by (simp add: open_slot_def cluster_inv_def)
    with no show ?thesis by blast
  qed
  have "leader_keeps (w_cluster w) t" using sp by simp
  then have "leaderless (w\<lparr>w_cluster := t\<rparr>)"
    using leader_keeps_inv [OF inv] no by (simp add: leaderless_def leader_keeps_def open_slot_def)
  then have "leaderless (keep_log w (e_between env (w\<lparr>w_cluster := t\<rparr>)))" using env by (simp add: leaderless_def keep_log_def)
  then show ?thesis by (simp add: choose_conn_def n res Let_def keep_log_def)
qed

text \<open>When no leader connection is open and none opens while \<^verbatim>\<open>execute\<close> pauses, a write request is
  answered with \<^verbatim>\<open>NoLeaderAvailable\<close> after the pauses of 100 and 150 ms, and nothing is sent.\<close>
lemma write_without_leader:
  assumes l: "leaderless w" and b: "\<forall>w. leaderless w \<longrightarrow> leaderless (e_between env w)"
    and s: "\<forall>w d. leaderless w \<longrightarrow> leaderless (e_sleep env d w)" and f: "9 \<le> length f" "f ! 0 = 0xFF"
  shows "\<exists>w'. execute env True f w = Some (Inl NoLeaderAvailable, w')
    \<and> w_log w' = w_log w @ [Paused (from_millis 100), Paused (from_millis 150)]"
proof -
  have p: "leaderless (pause env a u)" if "leaderless u" for a u
    using s that by (simp add: pause_def leaderless_def logged_def keep_log_def Let_def)
  obtain w1 where w1: "choose_conn env True w = (None, w1)" "leaderless w1" "w_log w1 = w_log w"
    using choose_leaderless [OF l b] by blast
  obtain w2 where w2: "choose_conn env True (pause env 1 w1) = (None, w2)" "leaderless w2" "w_log w2 = w_log (pause env 1 w1)"
    using choose_leaderless [OF p [OF w1(2)] b] by blast
  obtain w3 where w3: "choose_conn env True (pause env 2 w2) = (None, w3)" "leaderless w3" "w_log w3 = w_log (pause env 2 w2)"
    using choose_leaderless [OF p [OF w2(2)] b] by blast
  obtain orig where "execute env True f w = exec_loop env True orig 0 3 f w" using execute_loop [OF f] by blast
  also have "\<dots> = Some (Inl NoLeaderAvailable, w3)"
    using w1(1) w2(1) w3(1) by (simp add: numeral_3_eq_3 numeral_2_eq_2)
  finally show ?thesis using w1(3) w2(3) w3(3) by (simp add: pause_log)
qed

text \<open>Every change \<^verbatim>\<open>execute\<close> makes to a connection is a step of the connection's own step
  relation: taking a correlation id, registering the request under it, and putting the frame into
  the queue. So the matching of responses with requests that holds for a connection in every
  interleaving holds for the requests of \<^verbatim>\<open>execute\<close>.\<close>
lemma execute_refines_connection:
  assumes c: "c < length (heap (w_cluster w))"
  shows "(a t = None \<longrightarrow> take_corr_id c w = (cid, w1) \<longrightarrow>
       conn_step (conn_view c ch a w) (conn_view c ch (a(t \<mapsto> cid)) w1))
    \<and> (a (w_next_tx w) = Some cid \<longrightarrow> ch (w_next_tx w) = Unused \<longrightarrow> register_request env c cid w = (t, w1) \<longrightarrow>
       conn_step (conn_view c ch a w)
         (conn_view c ((drop_tx (store_drops cid (entries (heap (w_cluster w) ! c))) ch)(t := Waiting_Resp)) a w1))
    \<and> (e_room env c w = w \<longrightarrow> send_frame env c f w = (ok, w1) \<longrightarrow> conn_step (conn_view c ch a w) (conn_view c ch a w1))"
proof (intro conjI impI)
  let ?x = "heap (w_cluster w) ! c"
  show "conn_step (conn_view c ch a w) (conn_view c ch (a(t \<mapsto> cid)) w1)" if "a t = None" "take_corr_id c w = (cid, w1)"
    using that c take_id [of "conn_view c ch a w" t cid "snd (next_corr_id ?x)"]
    by (auto simp: conn_view_def take_corr_id_def update_conn_def next_corr_id_def Let_def)
  show "conn_step (conn_view c ch a w)
         (conn_view c ((drop_tx (store_drops cid (entries ?x)) ch)(t := Waiting_Resp)) a w1)"
    if "a (w_next_tx w) = Some cid" "ch (w_next_tx w) = Unused" "register_request env c cid w = (t, w1)"
    using that c register [of "conn_view c ch a w" "w_next_tx w" cid "e_now env w"]
    by (auto simp: conn_view_def register_request_def update_conn_def logged_def Let_def)
  show "conn_step (conn_view c ch a w) (conn_view c ch a w1)" if "e_room env c w = w" "send_frame env c f w = (ok, w1)"
    using that c enqueue [of f "conn_view c ch a w" _ "snd (send_raw f ?x)"]
    by (auto simp: conn_view_def send_frame_def update_conn_def logged_def keep_log_def Let_def split: prod.splits)
qed

lemma sample_shard_frame_ok: "9 \<le> length sample_shard_frame" "sample_shard_frame ! 0 = 0xFF"
  by (simp_all add: sample_shard_frame_def prepend_header_def sample_reply_def)

lemma execute_retries_witness:
  "\<exists>r w'. execute sample_env True sample_shard_frame sample_world = Some (r, w')
     \<and> exchanges sample_shard_frame (w_log w') \<and> length (sends_of (w_log w')) \<le> 3"
  using execute_retries [of sample_env True sample_shard_frame sample_world] sample_shard_frame_ok
  by (auto simp: sample_world_def)

end
