(* ===== verification/Rz_System.thy ===== *)
theory Rz_System
  imports Rz_Execute
begin

text \<open>
  The bridge as one system of interleaved tasks: any number of requests inside
  \<^verbatim>\<open>ClusterHandler::execute\<close> (\<^verbatim>\<open>src/cluster_handler.rs\<close>), the connections they share with their read and write
  tasks (\<^verbatim>\<open>src/connection.rs\<close>), and the nodes. A request task stops at every point where another
  task can run: \<open>X_Choose\<close> is the head of the loop, \<open>X_Chosen\<close> after the choice, \<open>X_Numbered\<close> after
  \<^verbatim>\<open>next_corr_id\<close>, \<open>X_Stored\<close> after \<^verbatim>\<open>demux.store\<close>, \<open>X_Waiting\<close> after \<^verbatim>\<open>send_raw\<close>. The pool is left open
  here: a choice may return any open connection, and connections are opened, cleaned up and closed at any
  time; theory \<open>Rz_Bridge\<close> shows that the cluster handler does nothing else. Ghost fields: \<open>b_wire\<close>, the frames written to each node; \<open>b_ids\<close>, the ids each connection has
  handed out with the frames they went into; \<open>b_home\<close>, where a channel was registered; \<open>b_sent\<close>, how often
  a request was put into a send queue. The nodes are the parameter \<open>A\<close>: \<open>A q r\<close> says that \<open>r\<close> is an
  answer to \<open>q\<close>, both without magic byte and correlation id; a node answers frames it was sent, under
  their ids, in any order and any number of times. A frame that makes the read task panic has no step here: there is
  none (\<open>read_loop_never_panics\<close>).
\<close>

section \<open>Requests and the system\<close>

datatype exec_pc =
    X_Idle
  | X_Choose nat bytes
  | X_Chosen nat bytes conn_ref
  | X_Numbered nat bytes conn_ref u32
  | X_Stored nat bytes conn_ref u32 tx
  | X_Waiting nat bytes conn_ref u32 tx
  | X_Done "bytes rz_result"

record exec_task =
  x_write :: bool
  x_request :: bytes
  x_original :: u32
  x_pc :: exec_pc

record bridge =
  b_conns :: "conn list"
  b_chan :: "tx \<Rightarrow> chan"
  b_next_tx :: tx
  b_task :: "nat \<Rightarrow> exec_task"
  b_wire :: "conn_ref \<Rightarrow> bytes list"
  b_ids :: "conn_ref \<Rightarrow> (u32 \<times> bytes) list"
  b_home :: "tx \<Rightarrow> (conn_ref \<times> u32) option"
  b_sent :: "nat \<Rightarrow> nat"

definition bridge_new :: bridge where
  "bridge_new = \<lparr>b_conns = [], b_chan = (\<lambda>_. Unused), b_next_tx = 0,
     b_task = (\<lambda>_. \<lparr>x_write = False, x_request = [], x_original = 0, x_pc = X_Idle\<rparr>),
     b_wire = (\<lambda>_. []), b_ids = (\<lambda>_. []), b_home = (\<lambda>_. None), b_sent = (\<lambda>_. 0)\<rparr>"

abbreviation pc_of :: "bridge \<Rightarrow> nat \<Rightarrow> exec_pc" where
  "pc_of s t \<equiv> x_pc (b_task s t)"

definition jump :: "nat \<Rightarrow> exec_pc \<Rightarrow> bridge \<Rightarrow> bridge" where
  "jump t p s = s\<lparr>b_task := (b_task s)(t := (b_task s t)\<lparr>x_pc := p\<rparr>)\<rparr>"

definition set_conn :: "conn_ref \<Rightarrow> conn \<Rightarrow> bridge \<Rightarrow> bridge" where
  "set_conn c k s = s\<lparr>b_conns := (b_conns s)[c := k]\<rparr>"

text \<open>A failed attempt: pause and try again, or give up after the third with the error \<open>e\<close>.\<close>

definition failed_attempt :: "nat \<Rightarrow> bytes \<Rightarrow> RZError \<Rightarrow> exec_pc" where
  "failed_attempt a f e = (if a + 1 \<ge> 3 then X_Done (Inl e) else X_Choose (a + 1) f)"

section \<open>Steps\<close>

inductive task_step :: "nat \<Rightarrow> bridge \<Rightarrow> bridge \<Rightarrow> bool" for t where
  x_reject: "pc_of s t = X_Idle \<Longrightarrow> length f < 9 \<or> f ! 0 \<noteq> 0xFF \<Longrightarrow>
    task_step t s (s\<lparr>b_task := (b_task s)(t := (b_task s t)\<lparr>x_request := f,
      x_pc := X_Done (Inl (Validation ''invalid shard frame''))\<rparr>)\<rparr>)"
| x_start: "pc_of s t = X_Idle \<Longrightarrow> 9 \<le> length f \<Longrightarrow> f ! 0 = 0xFF \<Longrightarrow> clrid_field f = u32_to_le original \<Longrightarrow>
    task_step t s (s\<lparr>b_task := (b_task s)(t :=
      \<lparr>x_write = iw, x_request = f, x_original = original, x_pc = X_Choose 0 f\<rparr>)\<rparr>)"
| x_choose: "pc_of s t = X_Choose a f \<Longrightarrow> c < length (b_conns s) \<Longrightarrow> \<not> is_closed (b_conns s ! c) \<Longrightarrow>
    task_step t s (jump t (X_Chosen a f c) s)"
| x_no_conn: "pc_of s t = X_Choose a f \<Longrightarrow>
    task_step t s (jump t (failed_attempt a f (if x_write (b_task s t) then NoLeaderAvailable else NoFollowerNodeAvailable)) s)"
| x_number: "pc_of s t = X_Chosen a f c \<Longrightarrow> next_corr_id (b_conns s ! c) = (cid, k) \<Longrightarrow>
    copy_from_slice f 1 5 (u32_to_le cid) = Some f1 \<Longrightarrow>
    task_step t s (jump t (X_Numbered a f1 c cid) (set_conn c k (s\<lparr>b_ids := (b_ids s)(c := b_ids s c @ [(cid, f1)])\<rparr>)))"
| x_store: "pc_of s t = X_Numbered a f c cid \<Longrightarrow> x = b_next_tx s \<Longrightarrow> k = b_conns s ! c \<Longrightarrow>
    task_step t s (jump t (X_Stored a f c cid x) (set_conn c (k\<lparr>entries := demux_store cid x now (entries k)\<rparr>)
      (s\<lparr>b_next_tx := x + 1, b_home := (b_home s)(x \<mapsto> (c, cid)),
         b_chan := (drop_tx (store_drops cid (entries k)) (b_chan s))(x := Waiting_Resp)\<rparr>)))"
| x_sent: "pc_of s t = X_Stored a f c cid x \<Longrightarrow> send_raw f (b_conns s ! c) = (Ready True, k) \<Longrightarrow>
    task_step t s (jump t (X_Waiting a f c cid x) (set_conn c k (s\<lparr>b_sent := (b_sent s)(t := b_sent s t + 1)\<rparr>)))"
| x_not_sent: "pc_of s t = X_Stored a f c cid x \<Longrightarrow> send_raw f (b_conns s ! c) = (Ready False, k) \<Longrightarrow>
    task_step t s (jump t (failed_attempt a f Timeout) (set_conn c k s))"
| x_reply: "pc_of s t = X_Waiting a f c cid x \<Longrightarrow> b_chan s x = Got r \<Longrightarrow>
    restore_clrid (x_original (b_task s t)) r = Some b \<Longrightarrow> task_step t s (jump t (X_Done (Inr b)) s)"
| x_dropped: "pc_of s t = X_Waiting a f c cid x \<Longrightarrow> b_chan s x = Dropped \<Longrightarrow>
    task_step t s (jump t (failed_attempt a f Timeout) s)"

inductive pool_step :: "(bytes \<Rightarrow> bytes \<Rightarrow> bool) \<Rightarrow> bridge \<Rightarrow> bridge \<Rightarrow> bool" for A where
  p_open: "connect host cfg demux_new (Inr ()) = Inr k \<Longrightarrow> pool_step A s (s\<lparr>b_conns := b_conns s @ [k]\<rparr>)"
| p_write: "c < length (b_conns s) \<Longrightarrow> write_step ok (b_conns s ! c) = (k, out) \<Longrightarrow>
    pool_step A s (set_conn c k (s\<lparr>b_wire := (b_wire s)(c := b_wire s c @ (case out of None \<Rightarrow> [] | Some f \<Rightarrow> [f]))\<rparr>))"
| p_read: "c < length (b_conns s) \<Longrightarrow> reading (b_conns s ! c) \<Longrightarrow>
    q \<in> set (b_wire s c) \<Longrightarrow> clrid_field r = clrid_field q \<Longrightarrow> A (drop 5 q) (drop 5 r) \<Longrightarrow>
    drain_frame_async rs rb = Some (Ready (Inr (hdr, r)), rs', rb') \<Longrightarrow>
    read_frame hdr r (b_conns s ! c) = Some (k, out) \<Longrightarrow>
    pool_step A s (set_conn c k (s\<lparr>b_chan := (case out of None \<Rightarrow> b_chan s | Some o1 \<Rightarrow> deliver o1 (b_chan s))\<rparr>))"
| p_read_end: "c < length (b_conns s) \<Longrightarrow> pool_step A s (set_conn c (read_ended (b_conns s ! c)) s)"
| p_cleanup: "c < length (b_conns s) \<Longrightarrow> demux_cleanup now age (entries (b_conns s ! c)) = (m, sends) \<Longrightarrow>
    pool_step A s (set_conn c ((b_conns s ! c)\<lparr>entries := m\<rparr>) (s\<lparr>b_chan := fold deliver sends (b_chan s)\<rparr>))"
| p_close: "c < length (b_conns s) \<Longrightarrow> pool_step A s (set_conn c (conn_close (b_conns s ! c)) s)"

inductive bridge_run :: "(bytes \<Rightarrow> bytes \<Rightarrow> bool) \<Rightarrow> bridge \<Rightarrow> bool" for A where
  bridge_start: "bridge_run A bridge_new"
| bridge_task: "bridge_run A s \<Longrightarrow> task_step t s u \<Longrightarrow> bridge_run A u"
| bridge_pool: "bridge_run A s \<Longrightarrow> pool_step A s u \<Longrightarrow> bridge_run A u"

section \<open>The invariant\<close>

text \<open>No connection has handed out more than $2^{32}$ correlation ids.\<close>

definition no_wrap :: "bridge \<Rightarrow> bool" where
  "no_wrap s \<longleftrightarrow> (\<forall>c. length (b_ids s c) \<le> 4294967296)"

definition ids_of :: "nat \<Rightarrow> u32 list" where
  "ids_of n = map (\<lambda>i. word_of_nat (Suc i)) [0..<n]"

definition conn_ok :: "(u32 \<times> bytes) list \<Rightarrow> conn \<Rightarrow> bool" where
  "conn_ok ids k \<longleftrightarrow> corr_id k = word_of_nat (Suc (length ids)) \<and> set (send_queue k) \<subseteq> snd ` set ids
     \<and> distinct (map fst (entries k))"

definition ids_ok :: "bridge \<Rightarrow> bool" where
  "ids_ok s \<longleftrightarrow> (\<forall>c. map fst (b_ids s c) = ids_of (length (b_ids s c))
     \<and> (\<forall>(cid, f) \<in> set (b_ids s c). clrid_field f = u32_to_le cid) \<and> set (b_wire s c) \<subseteq> snd ` set (b_ids s c)
     \<and> (if c < length (b_conns s) then conn_ok (b_ids s c) (b_conns s ! c) else b_ids s c = []))"

definition table_ok :: "bridge \<Rightarrow> bool" where
  "table_ok s \<longleftrightarrow> (\<forall>c < length (b_conns s). \<forall>cid x i.
     map_of (entries (b_conns s ! c)) cid = Some (x, i) \<longrightarrow> b_home s x = Some (c, cid))"

definition home_ok :: "bridge \<Rightarrow> bool" where
  "home_ok s \<longleftrightarrow> (\<forall>x c cid. b_home s x = Some (c, cid) \<longrightarrow> x < b_next_tx s \<and> cid \<in> fst ` set (b_ids s c))"

definition answered :: "(bytes \<Rightarrow> bytes \<Rightarrow> bool) \<Rightarrow> bridge \<Rightarrow> conn_ref \<Rightarrow> u32 \<Rightarrow> bytes \<Rightarrow> bool" where
  "answered A s c cid r \<longleftrightarrow> (\<exists>q. (cid, q) \<in> set (b_ids s c) \<and> A (drop 5 q) (drop 5 r))"

definition chan_ok :: "(bytes \<Rightarrow> bytes \<Rightarrow> bool) \<Rightarrow> bridge \<Rightarrow> bool" where
  "chan_ok A s \<longleftrightarrow> (\<forall>x r. b_chan s x = Got r \<longrightarrow> r \<noteq> [] \<longrightarrow> (\<exists>c cid. b_home s x = Some (c, cid) \<and> answered A s c cid r))
     \<and> (\<forall>x. b_chan s x \<noteq> Dropped)"

text \<open>The frame of a task is the request with its correlation id replaced.\<close>

definition frame_ok :: "exec_task \<Rightarrow> bytes \<Rightarrow> bool" where
  "frame_ok k f \<longleftrightarrow> 9 \<le> length f \<and> drop 5 f = drop 5 (x_request k) \<and> clrid_field (x_request k) = u32_to_le (x_original k)"

definition pc_ok :: "(bytes \<Rightarrow> bytes \<Rightarrow> bool) \<Rightarrow> bridge \<Rightarrow> exec_task \<Rightarrow> bool" where
  "pc_ok A s k \<longleftrightarrow> (case x_pc k of
     X_Idle \<Rightarrow> True
   | X_Choose a f \<Rightarrow> frame_ok k f
   | X_Chosen a f c \<Rightarrow> frame_ok k f \<and> c < length (b_conns s)
   | X_Numbered a f c cid \<Rightarrow> frame_ok k f \<and> c < length (b_conns s) \<and> (cid, f) \<in> set (b_ids s c)
   | X_Stored a f c cid x \<Rightarrow> frame_ok k f \<and> c < length (b_conns s) \<and> (cid, f) \<in> set (b_ids s c) \<and> b_home s x = Some (c, cid)
   | X_Waiting a f c cid x \<Rightarrow> frame_ok k f \<and> c < length (b_conns s) \<and> (cid, f) \<in> set (b_ids s c) \<and> b_home s x = Some (c, cid)
   | X_Done (Inl e) \<Rightarrow> True
   | X_Done (Inr b) \<Rightarrow> 9 \<le> length b \<longrightarrow> clrid_field b = clrid_field (x_request k) \<and> A (drop 5 (x_request k)) (drop 5 b))"

text \<open>An id is registered at most once.\<close>

definition numbered_ok :: "bridge \<Rightarrow> bool" where
  "numbered_ok s \<longleftrightarrow> (\<forall>t a f c cid. pc_of s t = X_Numbered a f c cid \<longrightarrow> (\<forall>x. b_home s x \<noteq> Some (c, cid))
     \<and> (\<forall>u a' f'. pc_of s u = X_Numbered a' f' c cid \<longrightarrow> u = t))"

fun may_be_sent :: "exec_pc \<Rightarrow> nat" where
  "may_be_sent (X_Waiting a f c cid x) = 1"
| "may_be_sent (X_Done (Inr b)) = 1"
| "may_be_sent _ = 0"

definition bridge_inv :: "(bytes \<Rightarrow> bytes \<Rightarrow> bool) \<Rightarrow> bridge \<Rightarrow> bool" where
  "bridge_inv A s \<longleftrightarrow> ids_ok s \<and> table_ok s \<and> home_ok s \<and> chan_ok A s \<and> (\<forall>t. pc_ok A s (b_task s t)) \<and> numbered_ok s
     \<and> (\<forall>t. b_sent s t \<le> may_be_sent (pc_of s t))"

section \<open>Lemmas\<close>

lemma distinct_ids_of: "n \<le> 4294967296 \<Longrightarrow> distinct (ids_of n)"
  unfolding ids_of_def distinct_map
proof (intro conjI inj_onI)
  fix i j
  assume n: "n \<le> 4294967296" and ij: "i \<in> set [0..<n]" "j \<in> set [0..<n]"
    and "(word_of_nat (Suc i) :: u32) = word_of_nat (Suc j)"
  then have "(1 + word_of_nat i :: u32) = 1 + word_of_nat j" by simp
  then have "unat (word_of_nat i :: u32) = unat (word_of_nat j :: u32)" by simp
  with n ij show "i = j" by (simp add: unat_u32_of_nat)
qed simp

lemma ids_unique:
  assumes "ids_ok s" and "no_wrap s" and "(cid, f) \<in> set (b_ids s c)" and "(cid, g) \<in> set (b_ids s c)"
  shows "f = g"
proof -
  have "distinct (map fst (b_ids s c))" using assms(1,2) distinct_ids_of by (simp add: ids_ok_def no_wrap_def)
  then show ?thesis using assms(3,4) by (metis eq_key_imp_eq_value)
qed

lemmas bridge_defs = jump_def set_conn_def

text \<open>What the tasks of a connection do to it: they hand out no ids and add neither frames nor entries.\<close>

definition conn_less :: "conn \<Rightarrow> conn \<Rightarrow> bool" where
  "conn_less k k' \<longleftrightarrow> corr_id k' = corr_id k \<and> set (send_queue k') \<subseteq> set (send_queue k)
     \<and> (distinct (map fst (entries k)) \<longrightarrow> distinct (map fst (entries k')))
     \<and> (\<forall>cid v. distinct (map fst (entries k)) \<longrightarrow> map_of (entries k') cid = Some v \<longrightarrow> map_of (entries k) cid = Some v)"

lemma conn_less_write: "write_step ok k = (k', out) \<Longrightarrow> conn_less k k' \<and> (\<forall>f. out = Some f \<longrightarrow> f \<in> set (send_queue k))"
  by (auto simp: write_step_def conn_less_def split: if_splits list.splits)

lemma conn_less_read:
  "read_frame hdr r k = Some (k', out) \<Longrightarrow>
   conn_less k k' \<and> (\<forall>x b. out = Some (x, b) \<longrightarrow> b = r \<and> (\<exists>i. map_of (entries k) (clr_id hdr) = Some (x, i)))"
  by (auto simp: read_frame_def conn_less_def load_remove_def map_of_delete distinct_delete
      split: option.splits prod.splits bind_splits if_splits simp del: map_of_eq_Some_iff)

lemma conn_less_cleanup:
  assumes "demux_cleanup now age (entries k) = (m, sends)"
  shows "conn_less k (k\<lparr>entries := m\<rparr>)"
  using distinct_cleanup [of "entries k" now age] cleanup_map [of "entries k" now age] assms
  by (auto simp: conn_less_def split: option.splits if_splits simp del: map_of_eq_Some_iff)

lemma conn_less_flags: "conn_less k (read_ended k)" "conn_less k (conn_close k)"
  by (simp_all add: conn_less_def read_ended_def conn_close_def)

lemma conn_ok_less: "conn_ok ids k \<Longrightarrow> conn_less k k' \<Longrightarrow> conn_ok ids k'"
  by (auto simp: conn_ok_def conn_less_def)

lemma ids_okD:
  assumes "ids_ok s"
  shows "map fst (b_ids s c) = ids_of (length (b_ids s c))" "(cid, f) \<in> set (b_ids s c) \<Longrightarrow> clrid_field f = u32_to_le cid"
    "set (b_wire s c) \<subseteq> snd ` set (b_ids s c)" "c < length (b_conns s) \<Longrightarrow> conn_ok (b_ids s c) (b_conns s ! c)"
    "\<not> c < length (b_conns s) \<Longrightarrow> b_ids s c = []"
  using assms unfolding ids_ok_def by (blast, blast, blast, presburger, presburger)

lemma ids_okI:
  assumes "\<And>c. map fst (b_ids s c) = ids_of (length (b_ids s c))"
    and "\<And>c cid f. (cid, f) \<in> set (b_ids s c) \<Longrightarrow> clrid_field f = u32_to_le cid"
    and "\<And>c. set (b_wire s c) \<subseteq> snd ` set (b_ids s c)"
    and "\<And>c. c < length (b_conns s) \<Longrightarrow> conn_ok (b_ids s c) (b_conns s ! c)"
    and "\<And>c. \<not> c < length (b_conns s) \<Longrightarrow> b_ids s c = []"
  shows "ids_ok s"
  using assms unfolding ids_ok_def by auto

lemma table_okD: "table_ok s \<Longrightarrow> c < length (b_conns s) \<Longrightarrow> map_of (entries (b_conns s ! c)) cid = Some (x, i) \<Longrightarrow> b_home s x = Some (c, cid)"
  unfolding table_ok_def by blast

text \<open>What a step of the pool keeps: everything but the connections, and more frames on the wires.\<close>

lemma pool_conn_inv:
  assumes inv: "bridge_inv A s" and c: "c < length (b_conns s)" and l: "conn_less (b_conns s ! c) k"
    and w: "set w \<subseteq> snd ` set (b_ids s c)" and ch: "chan_ok A (s\<lparr>b_chan := ch\<rparr>)"
  shows "bridge_inv A (set_conn c k (s\<lparr>b_wire := (b_wire s)(c := b_wire s c @ w), b_chan := ch\<rparr>))"
proof -
  let ?u = "set_conn c k (s\<lparr>b_wire := (b_wire s)(c := b_wire s c @ w), b_chan := ch\<rparr>)"
  have ids: "ids_ok s" and tab: "table_ok s" using inv by (simp_all add: bridge_inv_def)
  have ck: "conn_ok (b_ids s c) (b_conns s ! c)" by (rule ids_okD(4) [OF ids c])
  have "ids_ok ?u"
    by (rule ids_okI) (use ids_okD [OF ids] conn_ok_less [OF ck l] w c in \<open>auto simp: bridge_defs nth_list_update\<close>)
  moreover have "table_ok ?u"
    using tab l ck c unfolding table_ok_def conn_less_def conn_ok_def bridge_defs
    by (simp add: nth_list_update del: map_of_eq_Some_iff) blast
  moreover have "home_ok ?u" "\<forall>t. pc_ok A ?u (b_task ?u t)" "numbered_ok ?u" "\<forall>t. b_sent ?u t \<le> may_be_sent (pc_of ?u t)"
    using inv by (simp_all add: bridge_inv_def home_ok_def pc_ok_def numbered_ok_def bridge_defs cong: exec_pc.case_cong)
  moreover have "chan_ok A ?u" using ch by (simp add: chan_ok_def answered_def bridge_defs)
  ultimately show ?thesis by (simp add: bridge_inv_def)
qed

lemma bridge_same [simp]: "s\<lparr>b_wire := b_wire s\<rparr> = s" "s\<lparr>b_chan := b_chan s\<rparr> = (s :: bridge)"
  "(s\<lparr>b_wire := w\<rparr>)\<lparr>b_chan := b_chan s\<rparr> = (s\<lparr>b_wire := w\<rparr> :: bridge)"
  by (cases s; simp)+

lemma pc_ok_mono:
  assumes "pc_ok A s k" and "length (b_conns s) \<le> length (b_conns u)" and "\<And>c. set (b_ids s c) \<subseteq> set (b_ids u c)"
    and "\<And>x y. b_home s x = Some y \<Longrightarrow> b_home u x = Some y"
  shows "pc_ok A u k"
  using assms by (auto simp: pc_ok_def split: exec_pc.splits sum.splits)

text \<open>A reply of a node is an answer to the request the read task hands it to.\<close>

lemma chan_ok_deliver:
  assumes inv: "bridge_inv A s" and c: "c < length (b_conns s)" and q: "q \<in> set (b_wire s c)" "clrid_field r = clrid_field q"
    "A (drop 5 q) (drop 5 r)" and e: "map_of (entries (b_conns s ! c)) cid = Some (x, i)" and r: "clrid_field r = u32_to_le cid"
  shows "chan_ok A (s\<lparr>b_chan := deliver (x, r) (b_chan s)\<rparr>)"
proof -
  have ids: "ids_ok s" and ch: "chan_ok A s" using inv by (simp_all add: bridge_inv_def)
  obtain cid' where cid': "(cid', q) \<in> set (b_ids s c)" using ids_okD(3) [OF ids] q(1) by fastforce
  then have "cid' = cid" using ids_okD(2) [OF ids] q(2) r by fastforce
  then have "answered A s c cid r" using cid' q(3) by (auto simp: answered_def)
  moreover have "b_home s x = Some (c, cid)" using inv c e by (auto simp: bridge_inv_def table_ok_def simp del: map_of_eq_Some_iff)
  ultimately show ?thesis using ch by (auto simp: chan_ok_def answered_def deliver_def)
qed

lemma chan_ok_cleanup:
  assumes inv: "bridge_inv A s" and c: "c < length (b_conns s)"
    and cl: "demux_cleanup now age (entries (b_conns s ! c)) = (m, sends)"
  shows "chan_ok A (s\<lparr>b_chan := fold deliver sends (b_chan s)\<rparr>)"
proof -
  have "distinct (map fst (entries (b_conns s ! c)))"
    using inv c ids_okD(4) by (simp add: bridge_inv_def conn_ok_def)
  then have "\<forall>(x, b) \<in> set sends. b = []" using cleanup_sends [of "entries (b_conns s ! c)" _ _ now age] cl by auto
  then show ?thesis using inv by (auto simp: bridge_inv_def chan_ok_def answered_def fold_deliver split: if_splits)
qed

lemma pool_open_inv:
  assumes inv: "bridge_inv A s" and k: "connect host cfg demux_new (Inr ()) = Inr k"
  shows "bridge_inv A (s\<lparr>b_conns := b_conns s @ [k]\<rparr>)"
proof -
  let ?u = "s\<lparr>b_conns := b_conns s @ [k]\<rparr>"
  have ids: "ids_ok s" using inv by (simp add: bridge_inv_def)
  have k': "corr_id k = 1" "send_queue k = []" "entries k = []" using k by (auto simp: connect_def demux_new_def)
  have "conn_ok (b_ids s c) ((b_conns s @ [k]) ! c)" if "c < Suc (length (b_conns s))" for c
    using ids_okD(4,5) [OF ids, of c] that k' by (cases "c = length (b_conns s)") (auto simp: nth_append conn_ok_def)
  then have "ids_ok ?u" by (intro ids_okI) (use ids_okD [OF ids] in auto)
  moreover have "table_ok ?u" using inv k' by (auto simp: bridge_inv_def table_ok_def nth_append)
  moreover have "pc_ok A ?u (b_task s t)" for t using inv pc_ok_mono [of A s "b_task s t" ?u] by (simp add: bridge_inv_def)
  ultimately show ?thesis using inv by (simp add: bridge_inv_def home_ok_def chan_ok_def answered_def numbered_ok_def)
qed

lemma pool_step_inv:
  assumes "pool_step A s u" and inv: "bridge_inv A s"
  shows "bridge_inv A u"
  using assms(1)
proof cases
  case (p_open host cfg k)
  then show ?thesis using pool_open_inv [OF inv] by simp
next
  case (p_write c ok k out)
  have q: "set (send_queue (b_conns s ! c)) \<subseteq> snd ` set (b_ids s c)"
    using inv ids_okD(4) p_write(2) by (auto simp: bridge_inv_def conn_ok_def)
  have "set (case out of None \<Rightarrow> [] | Some f \<Rightarrow> [f]) \<subseteq> snd ` set (b_ids s c)"
    using conn_less_write [OF p_write(3)] q by (cases out) auto
  from pool_conn_inv [OF inv p_write(2) _ this, of k "b_chan s"] show ?thesis
    using conn_less_write [OF p_write(3)] inv p_write(1) by (simp add: bridge_inv_def)
next
  case (p_read c q r rs rb hdr rs' rb' k out)
  have "r = prepend_header (clr_id hdr) (drop 9 r)" using drain_frame_shape [OF p_read(7)] by blast
  then have "clrid_field r = clrid_field (prepend_header (clr_id hdr) (drop 9 r))" by simp
  then have r: "clrid_field r = u32_to_le (clr_id hdr)" by (simp add: clrid_field_def prepend_header_def)
  note lk = conn_less_read [OF p_read(8)]
  have "chan_ok A (s\<lparr>b_chan := (case out of None \<Rightarrow> b_chan s | Some o1 \<Rightarrow> deliver o1 (b_chan s))\<rparr>)"
  proof (cases out)
    case None
    then show ?thesis using inv by (simp add: bridge_inv_def)
  next
    case (Some o1)
    then obtain x i where "out = Some (x, r)" "map_of (entries (b_conns s ! c)) (clr_id hdr) = Some (x, i)"
      using lk by (cases o1) (auto simp del: map_of_eq_Some_iff)
    then show ?thesis using chan_ok_deliver [OF inv p_read(2,4,5,6) _ r] by simp
  qed
  from pool_conn_inv [OF inv p_read(2) _ _ this, of k "[]"] show ?thesis using lk p_read(1) by simp
next
  case (p_read_end c)
  from pool_conn_inv [OF inv p_read_end(2), of _ "[]" "b_chan s"] show ?thesis
    using conn_less_flags inv p_read_end(1) by (simp add: bridge_inv_def)
next
  case (p_cleanup c now age m sends)
  from pool_conn_inv [OF inv p_cleanup(2) conn_less_cleanup [OF p_cleanup(3)], of "[]", OF _ chan_ok_cleanup [OF inv p_cleanup(2,3)]]
  show ?thesis using p_cleanup(1) by simp
next
  case (p_close c)
  from pool_conn_inv [OF inv p_close(2), of _ "[]" "b_chan s"] show ?thesis
    using conn_less_flags inv p_close(1) by (simp add: bridge_inv_def)
qed

section \<open>Steps of a request\<close>

lemma jump_inv:
  assumes "ids_ok v" "table_ok v" "home_ok v" "chan_ok A v"
    and "\<And>u. u \<noteq> t \<Longrightarrow> pc_ok A v (b_task v u)" and "pc_ok A v ((b_task v t)\<lparr>x_pc := p\<rparr>)"
    and "numbered_ok (jump t p v)" and "\<And>u. u \<noteq> t \<Longrightarrow> b_sent v u \<le> may_be_sent (pc_of v u)" and "b_sent v t \<le> may_be_sent p"
  shows "bridge_inv A (jump t p v)"
proof -
  have "pc_ok A (jump t p v) k = pc_ok A v k" for k
    by (simp add: pc_ok_def jump_def cong: exec_pc.case_cong)
  then show ?thesis
    using assms by (simp add: bridge_inv_def) (simp add: jump_def ids_ok_def table_ok_def home_ok_def chan_ok_def answered_def)
qed

lemma numbered_ok_jump:
  "numbered_ok v \<Longrightarrow> (\<And>a f c cid. p \<noteq> X_Numbered a f c cid) \<Longrightarrow> numbered_ok (jump t p v)"
  by (auto simp: numbered_ok_def jump_def)

lemma bridge_invD:
  assumes "bridge_inv A s"
  shows "ids_ok s" "table_ok s" "home_ok s" "chan_ok A s" "pc_ok A s (b_task s t)" "numbered_ok s"
    "b_sent s t \<le> may_be_sent (pc_of s t)"
  using assms by (simp_all add: bridge_inv_def)

text \<open>Steps that change nothing but the task's position.\<close>

lemma set_task_inv:
  assumes inv: "bridge_inv A s" and "pc_ok A s k" and "\<And>a f c cid. x_pc k \<noteq> X_Numbered a f c cid"
    and "b_sent s t \<le> may_be_sent (x_pc k)"
  shows "bridge_inv A (s\<lparr>b_task := (b_task s)(t := k)\<rparr>)"
proof -
  have "pc_ok A (s\<lparr>b_task := ts\<rparr>) = pc_ok A s" for ts
    by (rule ext) (simp add: pc_ok_def cong: exec_pc.case_cong)
  then show ?thesis
    using assms by (auto simp: bridge_inv_def ids_ok_def table_ok_def home_ok_def chan_ok_def answered_def numbered_ok_def)
qed

lemma local_step_inv:
  assumes "bridge_inv A s" and "pc_ok A s ((b_task s t)\<lparr>x_pc := p\<rparr>)"
    and "\<And>a f c cid. p \<noteq> X_Numbered a f c cid" and "b_sent s t \<le> may_be_sent p"
  shows "bridge_inv A (jump t p s)"
  unfolding jump_def by (rule set_task_inv) (use assms in simp_all)

lemma failed_attempt_ok:
  assumes "frame_ok k f" and "p = failed_attempt a f e"
  shows "pc_ok A s (k\<lparr>x_pc := p\<rparr>)" "\<And>a f c cid. p \<noteq> X_Numbered a f c cid" "may_be_sent p = 0"
  using assms by (auto simp: failed_attempt_def pc_ok_def frame_ok_def)

lemma number_inv:
  assumes inv: "bridge_inv A s" and pc: "pc_of s t = X_Chosen a f c" and n: "next_corr_id (b_conns s ! c) = (cid, k)"
    and f1: "copy_from_slice f 1 5 (u32_to_le cid) = Some f1"
    and nw: "Suc (length (b_ids s c)) \<le> 4294967296"
  shows "bridge_inv A (jump t (X_Numbered a f1 c cid) (set_conn c k (s\<lparr>b_ids := (b_ids s)(c := b_ids s c @ [(cid, f1)])\<rparr>)))"
    (is "bridge_inv A (jump t ?p ?v)")
proof (rule jump_inv)
  note D = bridge_invD [OF inv]
  have f: "frame_ok (b_task s t) f" and c: "c < length (b_conns s)" using D(5) [of t] pc by (simp_all add: pc_ok_def)
  have g: "f1 = set_clrid cid f" using f1 copy_clrid [of f cid] f by (simp add: frame_ok_def)
  have gf: "clrid_field f1 = u32_to_le cid" "frame_ok (b_task s t) f1"
    using f by (simp_all add: g set_clrid_field frame_ok_def) (simp add: set_clrid_def)
  note ids = ids_okD [OF D(1)]
  have k: "cid = word_of_nat (Suc (length (b_ids s c)))" "k = (b_conns s ! c)\<lparr>corr_id := cid + 1\<rparr>"
    using n ids(4) [OF c] by (auto simp: next_corr_id_def conn_ok_def)
  have fresh: "cid \<notin> fst ` set (b_ids s c)"
  proof -
    have "distinct (ids_of (Suc (length (b_ids s c))))" by (rule distinct_ids_of [OF nw])
    then have "cid \<notin> set (ids_of (length (b_ids s c)))" by (simp add: ids_of_def k(1))
    then show ?thesis using ids(1) [of c] by (metis list.set_map)
  qed
  show "ids_ok ?v"
  proof (rule ids_okI)
    show "map fst (b_ids ?v i) = ids_of (length (b_ids ?v i))" for i
      using ids(1) [of i] k(1) by (cases "i = c") (simp_all add: set_conn_def ids_of_def)
    show "set (b_wire ?v i) \<subseteq> snd ` set (b_ids ?v i)" for i using ids(3) [of i] by (auto simp: set_conn_def)
    show "conn_ok (b_ids ?v i) (b_conns ?v ! i)" if "i < length (b_conns ?v)" for i
      using ids(4) [of i] that c k by (cases "i = c") (auto simp: set_conn_def conn_ok_def)
  qed (use ids gf c in \<open>auto simp: set_conn_def split: if_splits\<close>)
  show "table_ok ?v" using D(2) k(2) c by (auto simp: table_ok_def set_conn_def nth_list_update split: if_splits)
  show "home_ok ?v" using D(3) by (auto simp: home_ok_def set_conn_def)
  show "chan_ok A ?v" using D(4) by (fastforce simp: chan_ok_def answered_def set_conn_def)
  have "pc_ok A ?v (b_task s u)" for u by (rule pc_ok_mono [OF D(5)]) (auto simp: set_conn_def)
  then show "pc_ok A ?v (b_task ?v u)" for u by (simp add: set_conn_def)
  show "pc_ok A ?v ((b_task ?v t)\<lparr>x_pc := ?p\<rparr>)" using gf(2) c by (simp add: pc_ok_def set_conn_def frame_ok_def)
  show "b_sent ?v t \<le> may_be_sent ?p" using D(7) [of t] pc by (simp add: set_conn_def)
  show "b_sent ?v u \<le> may_be_sent (pc_of ?v u)" for u using D(7) [of u] by (simp add: set_conn_def)
  have "b_home s x \<noteq> Some (c, cid)" for x using D(3) fresh by (auto simp: home_ok_def)
  moreover have "pc_of s u \<noteq> X_Numbered a' f' c cid" for u a' f'
    using D(5) [of u] fresh by (auto simp: pc_ok_def) (metis fst_conv image_eqI)
  ultimately show "numbered_ok (jump t ?p ?v)"
    using D(6) by (auto simp: numbered_ok_def jump_def set_conn_def)
qed

lemma store_inv:
  assumes inv: "bridge_inv A s" and pc: "pc_of s t = X_Numbered a f c cid" and x: "x = b_next_tx s" and k: "k = b_conns s ! c"
  shows "bridge_inv A (jump t (X_Stored a f c cid x) (set_conn c (k\<lparr>entries := demux_store cid x now (entries k)\<rparr>)
      (s\<lparr>b_next_tx := x + 1, b_home := (b_home s)(x \<mapsto> (c, cid)),
         b_chan := (drop_tx (store_drops cid (entries k)) (b_chan s))(x := Waiting_Resp)\<rparr>)))"
    (is "bridge_inv A (jump t ?p ?v)")
proof (rule jump_inv)
  note D = bridge_invD [OF inv]
  have f: "frame_ok (b_task s t) f" "(cid, f) \<in> set (b_ids s c)" and c: "c < length (b_conns s)"
    using D(5) [of t] pc by (simp_all add: pc_ok_def)
  have no: "b_home s y \<noteq> Some (c, cid)" "pc_of s u = X_Numbered a' f' c cid \<Longrightarrow> u = t" for y u a' f'
    using D(6) pc unfolding numbered_ok_def by blast+
  have new: "b_home s x = None" using D(3) x by (cases "b_home s x") (auto simp: home_ok_def)
  have "map_of (entries k) cid = None"
    using D(2) c no(1) k by (cases "map_of (entries k) cid") (auto simp: table_ok_def simp del: map_of_eq_Some_iff)
  then have ch: "b_chan ?v = (b_chan s)(x := Waiting_Resp)" by (simp add: set_conn_def store_drops_def drop_tx_def)
  have home: "b_home ?v = (b_home s)(x \<mapsto> (c, cid))" and idv: "b_ids ?v = b_ids s" by (simp_all add: set_conn_def)
  show "ids_ok ?v"
    by (rule ids_okI)
      (use ids_okD [OF D(1)] c k in \<open>auto simp: set_conn_def nth_list_update conn_ok_def distinct_demux_store\<close>)
  show "table_ok ?v" unfolding table_ok_def
    using c k new by (auto simp: set_conn_def nth_list_update map_of_demux_store simp del: map_of_eq_Some_iff
        split: if_splits dest: table_okD [OF D(2)])
  show "home_ok ?v" using D(3) f(2) x by (force simp: home_ok_def set_conn_def)
  show "chan_ok A ?v" using D(4) new unfolding chan_ok_def answered_def ch home idv by auto
  have "pc_ok A ?v (b_task s u)" for u
    by (rule pc_ok_mono [OF D(5)]) (use new in \<open>auto simp: set_conn_def split: if_splits\<close>)
  then show "pc_ok A ?v (b_task ?v u)" for u by (simp add: set_conn_def)
  show "pc_ok A ?v ((b_task ?v t)\<lparr>x_pc := ?p\<rparr>)" using f c by (simp add: pc_ok_def set_conn_def frame_ok_def)
  show "b_sent ?v t \<le> may_be_sent ?p" using D(7) [of t] pc by (simp add: set_conn_def)
  show "b_sent ?v u \<le> may_be_sent (pc_of ?v u)" for u using D(7) [of u] by (simp add: set_conn_def)
  show "numbered_ok (jump t ?p ?v)"
    using D(6) no(2) by (auto simp: numbered_ok_def jump_def set_conn_def)
qed

lemma sent_inv:
  assumes inv: "bridge_inv A s" and pc: "pc_of s t = X_Stored a f c cid x" and sr: "send_raw f (b_conns s ! c) = (Ready True, k)"
  shows "bridge_inv A (jump t (X_Waiting a f c cid x) (set_conn c k (s\<lparr>b_sent := (b_sent s)(t := b_sent s t + 1)\<rparr>)))"
    (is "bridge_inv A (jump t ?p ?v)")
proof (rule jump_inv)
  note D = bridge_invD [OF inv]
  have c: "c < length (b_conns s)" "(cid, f) \<in> set (b_ids s c)" using D(5) [of t] pc by (simp_all add: pc_ok_def)
  then have f: "f \<in> snd ` set (b_ids s c)" by force
  have k: "k = (b_conns s ! c)\<lparr>send_queue := send_queue (b_conns s ! c) @ [f]\<rparr>" using sr by (auto simp: send_raw_def split: if_splits)
  show "ids_ok ?v"
    by (rule ids_okI) (use ids_okD [OF D(1)] c f k in \<open>auto simp: set_conn_def nth_list_update conn_ok_def\<close>)
  show "table_ok ?v" using D(2) c k by (auto simp: table_ok_def set_conn_def nth_list_update split: if_splits)
  show "home_ok ?v" "chan_ok A ?v" using D(3,4) by (simp_all add: home_ok_def chan_ok_def answered_def set_conn_def)
  show "pc_ok A ?v (b_task ?v u)" for u using pc_ok_mono [OF D(5) [of u], of ?v] by (simp add: set_conn_def)
  show "pc_ok A ?v ((b_task ?v t)\<lparr>x_pc := ?p\<rparr>)" using D(5) [of t] pc by (simp add: pc_ok_def set_conn_def frame_ok_def)
  show "b_sent ?v t \<le> may_be_sent ?p" using D(7) [of t] pc by (simp add: set_conn_def)
  show "b_sent ?v u \<le> may_be_sent (pc_of ?v u)" if "u \<noteq> t" for u using D(7) [of u] that by (simp add: set_conn_def)
  show "numbered_ok (jump t ?p ?v)"
    by (rule numbered_ok_jump) (use D(6) in \<open>auto simp: numbered_ok_def set_conn_def\<close>)
qed

text \<open>The answer a request returns is an answer to its own frame: the frame the id was handed out for.\<close>

lemma reply_ok:
  assumes inv: "bridge_inv A s" and nw: "no_wrap s" and pc: "pc_of s t = X_Waiting a f c cid x" and r: "b_chan s x = Got r"
    and b: "restore_clrid (x_original (b_task s t)) r = Some b"
  shows "pc_ok A s ((b_task s t)\<lparr>x_pc := X_Done (Inr b)\<rparr>)"
proof -
  note D = bridge_invD [OF inv]
  let ?k = "b_task s t"
  have w: "frame_ok ?k f" "(cid, f) \<in> set (b_ids s c)" "b_home s x = Some (c, cid)"
    using D(5) [of t] pc by (simp_all add: pc_ok_def)
  have b': "b = (if 9 \<le> length r then set_clrid (x_original ?k) r else r)" using b by (simp add: restore_clrid_eq)
  show ?thesis
  proof (cases "9 \<le> length r")
    case True
    then have "answered A s c cid r" using D(4) r w(3) by (fastforce simp: chan_ok_def)
    then obtain q where "(cid, q) \<in> set (b_ids s c)" "A (drop 5 q) (drop 5 r)" by (auto simp: answered_def)
    then have "A (drop 5 f) (drop 5 r)" using ids_unique [OF D(1) nw w(2)] by metis
    moreover have "drop 5 b = drop 5 r" "clrid_field b = u32_to_le (x_original ?k)"
      using True b' by (simp_all add: set_clrid_field) (simp add: set_clrid_def)
    ultimately show ?thesis using w(1) by (simp add: pc_ok_def frame_ok_def)
  next
    case False
    then show ?thesis using b' by (simp add: pc_ok_def)
  qed
qed

lemma task_step_inv:
  assumes "task_step t s u" and inv: "bridge_inv A s" and nw: "no_wrap u"
  shows "bridge_inv A u"
  using assms(1)
proof cases
  case (x_reject f)
  show ?thesis unfolding x_reject(1)
    by (rule set_task_inv [OF inv]) (use bridge_invD(7) [OF inv, of t] x_reject(2) in \<open>simp_all add: pc_ok_def\<close>)
next
  case (x_start f original iw)
  show ?thesis unfolding x_start(1)
    by (rule set_task_inv [OF inv]) (use bridge_invD(7) [OF inv, of t] x_start in \<open>simp_all add: pc_ok_def frame_ok_def\<close>)
next
  case (x_choose a f c)
  then show ?thesis
    using bridge_invD(5,7) [OF inv, of t] by (auto intro!: local_step_inv [OF inv] simp: pc_ok_def frame_ok_def)
next
  case (x_no_conn a f)
  have f: "frame_ok (b_task s t) f" using bridge_invD(5) [OF inv, of t] x_no_conn(2) by (simp add: pc_ok_def)
  show ?thesis unfolding x_no_conn(1)
    by (rule local_step_inv [OF inv]) (use failed_attempt_ok [OF f refl] bridge_invD(7) [OF inv, of t] x_no_conn(2) in simp_all)
next
  case (x_number a f c cid k f1)
  have "Suc (length (b_ids s c)) \<le> 4294967296" using nw x_number(1) by (auto simp: no_wrap_def jump_def set_conn_def dest: spec [of _ c])
  then show ?thesis using number_inv [OF inv x_number(2-4)] x_number(1) by simp
next
  case (x_store a f c cid x k now)
  then show ?thesis using store_inv [OF inv x_store(2-4)] by simp
next
  case (x_sent a f c cid x k)
  then show ?thesis using sent_inv [OF inv x_sent(2,3)] by simp
next
  case (x_not_sent a f c cid x k)
  have f: "frame_ok (b_task s t) f" using bridge_invD(5) [OF inv, of t] x_not_sent(2) by (simp add: pc_ok_def)
  have "k = b_conns s ! c" using x_not_sent(3) by (auto simp: send_raw_def split: if_splits)
  then have "set_conn c k s = s" by (simp add: set_conn_def)
  then show ?thesis unfolding x_not_sent(1)
    by simp (rule local_step_inv [OF inv]; use failed_attempt_ok [OF f refl] bridge_invD(7) [OF inv, of t] x_not_sent(2) in simp)
next
  case (x_reply a f c cid x r b)
  have "no_wrap s" using nw x_reply(1) by (simp add: no_wrap_def jump_def)
  from reply_ok [OF inv this x_reply(2-4)] show ?thesis unfolding x_reply(1)
    by (rule local_step_inv [OF inv]) (use bridge_invD(7) [OF inv, of t] x_reply(2) in simp_all)
next
  case (x_dropped a f c cid x)
  then show ?thesis using bridge_invD(4) [OF inv] by (simp add: chan_ok_def)
qed

lemma ids_grow: "task_step t s u \<Longrightarrow> length (b_ids s c) \<le> length (b_ids u c)"
  by (erule task_step.cases) (simp_all add: jump_def set_conn_def)

lemma no_wrap_before: "task_step t s u \<Longrightarrow> no_wrap u \<Longrightarrow> no_wrap s"
  unfolding no_wrap_def using ids_grow le_trans by blast

lemma no_wrap_pool: "pool_step A s u \<Longrightarrow> no_wrap u \<Longrightarrow> no_wrap s"
  by (erule pool_step.cases) (simp_all add: no_wrap_def set_conn_def)

lemma bridge_new_inv: "bridge_inv A bridge_new"
  by (simp add: bridge_inv_def bridge_new_def ids_ok_def ids_of_def table_ok_def home_ok_def chan_ok_def pc_ok_def numbered_ok_def)

lemma bridge_run_inv: "bridge_run A s \<Longrightarrow> no_wrap s \<Longrightarrow> bridge_inv A s"
proof (induction rule: bridge_run.induct)
  case (bridge_task s t u)
  then show ?case using task_step_inv no_wrap_before by blast
next
  case (bridge_pool s u)
  then show ?case using pool_step_inv no_wrap_pool by blast
qed (rule bridge_new_inv)

section \<open>What reaches the nodes\<close>

fun frame_of :: "exec_pc \<Rightarrow> bytes option" where
  "frame_of X_Idle = None"
| "frame_of (X_Choose a f) = Some f"
| "frame_of (X_Chosen a f c) = Some f"
| "frame_of (X_Numbered a f c cid) = Some f"
| "frame_of (X_Stored a f c cid x) = Some f"
| "frame_of (X_Waiting a f c cid x) = Some f"
| "frame_of (X_Done r) = None"

text \<open>A shard frame that is the request of a task, up to the correlation id.\<close>

definition requested :: "(nat \<Rightarrow> exec_task) \<Rightarrow> bytes \<Rightarrow> bool" where
  "requested ts f \<longleftrightarrow> 9 \<le> length f \<and> f ! 0 = 0xFF \<and> (\<exists>t. x_pc (ts t) \<noteq> X_Idle \<and> drop 5 f = drop 5 (x_request (ts t)))"

definition req_ok :: "bridge \<Rightarrow> bool" where
  "req_ok s \<longleftrightarrow> (\<forall>t f. frame_of (pc_of s t) = Some f \<longrightarrow> f ! 0 = 0xFF) \<and> (\<forall>c. \<forall>(cid, f) \<in> set (b_ids s c). requested (b_task s) f)"

lemma requested_mono:
  assumes "requested ts f" and "\<And>t. x_pc (ts t) \<noteq> X_Idle \<Longrightarrow> x_pc (us t) \<noteq> X_Idle \<and> x_request (us t) = x_request (ts t)"
  shows "requested us f"
  using assms unfolding requested_def by metis

lemma pool_step_req: "pool_step A s u \<Longrightarrow> req_ok s \<Longrightarrow> req_ok u"
  by (erule pool_step.cases) (simp_all add: req_ok_def set_conn_def)

lemma set_task_req:
  assumes "req_ok s" and "b_ids u = b_ids s" and "b_task u = (b_task s)(t := k)" and "x_pc k \<noteq> X_Idle"
    and "pc_of s t \<noteq> X_Idle \<Longrightarrow> x_request k = x_request (b_task s t)" and "\<And>f. frame_of (x_pc k) = Some f \<Longrightarrow> f ! 0 = 0xFF"
  shows "req_ok u"
proof -
  have "requested (b_task u) f" if "requested (b_task s) f" for f
    by (rule requested_mono [OF that]) (use assms in auto)
  then show ?thesis using assms unfolding req_ok_def by (auto split: if_splits) blast
qed

lemma task_step_req:
  assumes "task_step t s u" and inv: "bridge_inv A s" and r: "req_ok s"
  shows "req_ok u"
proof -
  have fr: "f ! 0 = 0xFF" if "frame_of (pc_of s t) = Some f" for f using r that by (auto simp: req_ok_def)
  have jump_req: "req_ok (jump t p v)"
    if "b_ids v = b_ids s" "b_task v = b_task s" "pc_of s t \<noteq> X_Idle" "p \<noteq> X_Idle" "\<And>f. frame_of p = Some f \<Longrightarrow> f ! 0 = 0xFF" for p v
    by (rule set_task_req [OF r, of _ t "(b_task s t)\<lparr>x_pc := p\<rparr>"]) (use that in \<open>simp_all add: jump_def\<close>)
  have fa: "failed_attempt a f e \<noteq> X_Idle" "\<And>g. frame_of (failed_attempt a f e) = Some g \<Longrightarrow> g = f" for a f e
    by (auto simp: failed_attempt_def split: if_splits)
  show ?thesis using assms(1)
  proof cases
    case (x_number a f c cid k f1)
    have ok: "frame_ok (b_task s t) f" using bridge_invD(5) [OF inv, of t] x_number(2) by (simp add: pc_ok_def)
    then have f1: "f1 = set_clrid cid f" using copy_clrid [of f cid] x_number(4) by (simp add: frame_ok_def)
    have "f1 ! 0 = 0xFF" using fr [of f] x_number(2) ok by (cases f) (auto simp: f1 set_clrid_def frame_ok_def)
    then have "requested (b_task s) f1" using ok x_number(2) unfolding requested_def f1
      by (auto simp: frame_ok_def intro!: exI [of _ t]) (simp add: set_clrid_def)
    with r have "req_ok (s\<lparr>b_ids := (b_ids s)(c := b_ids s c @ [(cid, f1)])\<rparr>)" by (auto simp: req_ok_def)
    then show ?thesis unfolding x_number(1)
      by (rule set_task_req [where t = t and k = "(b_task s t)\<lparr>x_pc := X_Numbered a f1 c cid\<rparr>"])
        (use x_number(2) \<open>f1 ! 0 = 0xFF\<close> in \<open>simp_all add: jump_def set_conn_def\<close>)
  next
    case (x_reject f)
    show ?thesis unfolding x_reject(1)
      by (rule set_task_req [OF r, of _ t "(b_task s t)\<lparr>x_request := f, x_pc := X_Done (Inl (Validation ''invalid shard frame''))\<rparr>"])
        (use x_reject(2) in simp_all)
  next
    case (x_start f original iw)
    show ?thesis unfolding x_start(1)
      by (rule set_task_req [OF r, of _ t "\<lparr>x_write = iw, x_request = f, x_original = original, x_pc = X_Choose 0 f\<rparr>"])
        (use x_start in simp_all)
  qed (use fr fa in \<open>auto intro!: jump_req simp: set_conn_def dest!: fa(2)\<close>)
qed

lemma bridge_run_req: "bridge_run A s \<Longrightarrow> no_wrap s \<Longrightarrow> req_ok s"
proof (induction rule: bridge_run.induct)
  case bridge_start
  show ?case by (simp add: req_ok_def bridge_new_def)
next
  case (bridge_task s t u)
  then show ?case using task_step_req bridge_run_inv no_wrap_before by blast
next
  case (bridge_pool s u)
  then show ?case using pool_step_req no_wrap_pool by blast
qed

section \<open>A run with one request\<close>

text \<open>A connection is opened, a request goes out on it, the node sends back what it was sent, and the request returns.\<close>

definition sample_opened :: bridge where
  "sample_opened = bridge_new\<lparr>b_conns := [sample_conn]\<rparr>"

definition sample_started :: bridge where
  "sample_started = sample_opened\<lparr>b_task := (b_task sample_opened)(3 :=
     \<lparr>x_write = True, x_request = sample_shard_frame, x_original = 77, x_pc = X_Choose 0 sample_shard_frame\<rparr>)\<rparr>"

definition sample_sent :: bridge where
  "sample_sent = \<lparr>b_conns = [sample_conn\<lparr>corr_id := 2, entries := [(1, (0, 100))], send_queue := [prepend_header 1 sample_reply]\<rparr>],
     b_chan = (\<lambda>_. Unused)(0 := Waiting_Resp), b_next_tx = 1,
     b_task = (b_task bridge_new)(3 := \<lparr>x_write = True, x_request = sample_shard_frame, x_original = 77,
       x_pc = X_Waiting 0 (prepend_header 1 sample_reply) 0 1 0\<rparr>),
     b_wire = (\<lambda>_. []), b_ids = (\<lambda>_. [])(0 := [(1, prepend_header 1 sample_reply)]),
     b_home = [0 \<mapsto> (0, 1)], b_sent = (\<lambda>_. 0)(3 := 1)\<rparr>"

definition sample_wired :: bridge where
  "sample_wired = sample_sent\<lparr>b_conns := [sample_conn\<lparr>corr_id := 2, entries := [(1, (0, 100))]\<rparr>],
     b_wire := (\<lambda>_. [])(0 := [prepend_header 1 sample_reply])\<rparr>"

definition sample_done :: bridge where
  "sample_done = sample_sent\<lparr>b_conns := [sample_conn\<lparr>corr_id := 2\<rparr>],
     b_chan := (\<lambda>_. Unused)(0 := Got (prepend_header 1 sample_reply)),
     b_task := (b_task sample_sent)(3 := (b_task sample_sent 3)\<lparr>x_pc := X_Done (Inr sample_shard_frame)\<rparr>),
     b_wire := (\<lambda>_. [])(0 := [prepend_header 1 sample_reply])\<rparr>"

lemma sample_set_clrid: "set_clrid n (prepend_header m sample_reply) = prepend_header n sample_reply"
  by (simp add: set_clrid_def prepend_header_def)

text \<open>Steps that start no request.\<close>

definition busy_step :: "(bytes \<Rightarrow> bytes \<Rightarrow> bool) \<Rightarrow> nat \<Rightarrow> bridge \<Rightarrow> bridge \<Rightarrow> bool" where
  "busy_step A t s u \<longleftrightarrow> pool_step A s u \<or> pc_of s t \<noteq> X_Idle \<and> task_step t s u"

lemma busy_run: "(busy_step A t)\<^sup>*\<^sup>* s u \<Longrightarrow> bridge_run A s \<Longrightarrow> bridge_run A u"
  by (induction rule: rtranclp_induct) (auto simp: busy_step_def intro: bridge_task bridge_pool)

lemma sample_opening: "pool_step (=) bridge_new sample_opened" "task_step 3 sample_opened sample_started"
proof -
  have "connect ''n1'' (pool_config\<lparr>max_active_conns := 8\<rparr>) demux_new (Inr ()) = Inr sample_conn"
    by (simp add: connect_def pool_config_def default_config_def demux_new_def sample_conn_def)
  from p_open [OF this, of "(=)" bridge_new] show "pool_step (=) bridge_new sample_opened"
    by (simp add: sample_opened_def bridge_new_def)
  show "task_step 3 sample_opened sample_started" unfolding sample_started_def
    by (rule x_start) (use sample_shard_frame_ok in \<open>simp_all add: sample_opened_def bridge_new_def sample_shard_frame_def clrid_field_def prepend_header_def\<close>)
qed

lemma sample_sending: "(busy_step (=) 3)\<^sup>*\<^sup>* sample_started sample_sent"
proof -
  let ?f = "sample_shard_frame" and ?g = "prepend_header 1 sample_reply"
  define s3 where "s3 = jump 3 (X_Chosen 0 ?f 0) sample_started"
  define s4 where "s4 = jump 3 (X_Numbered 0 ?g 0 1) (set_conn 0 (sample_conn\<lparr>corr_id := 2\<rparr>) (s3\<lparr>b_ids := (b_ids s3)(0 := b_ids s3 0 @ [(1, ?g)])\<rparr>))"
  define k where "k = sample_conn\<lparr>corr_id := 2, entries := [(1, (0, 100))]\<rparr>"
  define s5 where "s5 = jump 3 (X_Stored 0 ?g 0 1 0) (set_conn 0 k (s4\<lparr>b_next_tx := 1, b_home := (b_home s4)(0 \<mapsto> (0, 1)),
    b_chan := (b_chan s4)(0 := Waiting_Resp)\<rparr>))"
  note defs = s3_def sample_started_def sample_opened_def jump_def
  have "busy_step (=) 3 sample_started s3"
    unfolding busy_step_def s3_def by (intro disjI2 conjI x_choose) (simp_all add: defs is_closed_def sample_conn_def)
  moreover have "busy_step (=) 3 s3 s4" unfolding busy_step_def s4_def
    by (intro disjI2 conjI, simp add: defs, rule x_number [where f = ?f])
      (use copy_clrid [OF sample_shard_frame_ok(1), of 1] sample_set_clrid [of 1 77, folded sample_shard_frame_def] in
        \<open>simp_all add: defs next_corr_id_def sample_conn_def\<close>)
  moreover have "busy_step (=) 3 s4 s5"
  proof -
    have pc: "pc_of s4 3 = X_Numbered 0 ?g 0 1" by (simp add: s4_def jump_def)
    from x_store [OF this refl refl, of 100] have "task_step 3 s4 s5"
      by (simp add: s5_def s4_def defs k_def set_conn_def bridge_new_def sample_conn_def demux_store_def store_drops_def drop_tx_def)
    with pc show ?thesis by (simp add: busy_step_def)
  qed
  moreover have "busy_step (=) 3 s5 sample_sent"
  proof -
    have pc: "pc_of s5 3 = X_Stored 0 ?g 0 1 0" "send_raw ?g (b_conns s5 ! 0) = (Ready True, k\<lparr>send_queue := [?g]\<rparr>)"
      by (simp_all add: s5_def s4_def defs k_def set_conn_def send_raw_def sample_conn_def)
    from x_sent [OF this] have "task_step 3 s5 sample_sent"
      by (simp add: sample_sent_def s5_def s4_def defs k_def set_conn_def bridge_new_def)
    with pc show ?thesis by (simp add: busy_step_def)
  qed
  ultimately show ?thesis by auto
qed

lemma sample_wiring: "busy_step (=) 3 sample_sent sample_wired"
proof -
  let ?k = "sample_conn\<lparr>corr_id := 2, entries := [(1, (0, 100))]\<rparr>"
  have "write_step True (b_conns sample_sent ! 0) = (?k, Some (prepend_header 1 sample_reply))"
    by (simp add: sample_sent_def write_step_def sample_conn_def)
  from p_write [OF _ this, of "(=)"] have "pool_step (=) sample_sent sample_wired"
    by (simp add: sample_wired_def sample_sent_def set_conn_def)
  then show ?thesis by (simp add: busy_step_def)
qed

lemma sample_reply_wf: "payload_wf sample_reply"
  by (simp add: payload_wf_def sample_reply_def)

lemma sample_finishing: "(busy_step (=) 3)\<^sup>*\<^sup>* sample_wired sample_done"
proof -
  let ?g = "prepend_header 1 sample_reply" and ?s1 = sample_wired
  define s2 where "s2 = ?s1\<lparr>b_conns := [sample_conn\<lparr>corr_id := 2\<rparr>], b_chan := (\<lambda>_. Unused)(0 := Got ?g)\<rparr>"
  note wf = sample_reply_wf
  have "should_close (frame_header 1 sample_reply) ?g = Some False" by (rule should_close_frame(2) [OF wf]) (simp add: erro_id_def)
  then have "read_frame (frame_header 1 sample_reply) ?g (b_conns ?s1 ! 0) = Some (sample_conn\<lparr>corr_id := 2\<rparr>, Some (0, ?g))"
    by (simp add: read_frame_def load_remove_def sample_wired_def sample_conn_def frame_header_def)
  from p_read [where A = "(=)", OF _ _ _ refl refl whole_frame_drained [OF wf, of 1] this] have r: "pool_step (=) ?s1 s2"
    by (simp add: s2_def sample_wired_def sample_sent_def sample_conn_def set_conn_def deliver_def)
  have pc: "pc_of s2 3 = X_Waiting 0 ?g 0 1 0" "b_chan s2 0 = Got ?g" "restore_clrid (x_original (b_task s2 3)) ?g = Some sample_shard_frame"
    by (simp_all add: s2_def sample_wired_def sample_sent_def restore_clrid_eq sample_set_clrid sample_shard_frame_def)
  from x_reply [OF this] have "task_step 3 s2 sample_done" by (simp add: sample_done_def s2_def sample_wired_def sample_sent_def jump_def)
  then have "busy_step (=) 3 s2 sample_done" "busy_step (=) 3 ?s1 s2" using pc r by (simp_all add: busy_step_def)
  then show ?thesis by auto
qed

lemma sample_wired_run: "bridge_run (=) sample_wired" "no_wrap sample_wired"
proof -
  have "(busy_step (=) 3)\<^sup>*\<^sup>* sample_started sample_wired" using sample_sending sample_wiring by auto
  moreover have "bridge_run (=) sample_started" using sample_opening by (meson bridge_start bridge_task bridge_pool)
  ultimately show "bridge_run (=) sample_wired" by (rule busy_run)
  show "no_wrap sample_wired" by (simp add: no_wrap_def sample_wired_def sample_sent_def)
qed

lemma sample_done_run: "bridge_run (=) sample_done" "no_wrap sample_done"
  using busy_run [OF sample_finishing sample_wired_run(1)] by (simp_all add: no_wrap_def sample_done_def sample_sent_def)

section \<open>Properties\<close>

text \<open>C3: No cross-talk: in every interleaving of any number of requests over any number of shared
  connections, a request that is answered with a frame gets a node's answer to its own frame, under its own
  correlation id, as long as no connection has handed out more than $2^{32}$ ids. What the nodes are
  trusted with is that they answer the frames they were sent under the ids of these frames.\<close>
theorem no_cross_talk:
  assumes "bridge_run A s" and "no_wrap s" and "x_pc (b_task s t) = X_Done (Inr b)" and "9 \<le> length b"
  shows "clrid_field b = clrid_field (x_request (b_task s t)) \<and> A (drop 5 (x_request (b_task s t))) (drop 5 b)"
  using bridge_invD(5) [OF bridge_run_inv [OF assms(1,2)], of t] assms(3,4) by (simp add: pc_ok_def)

text \<open>C4: At most once: in every interleaving the retries of \<^verbatim>\<open>execute\<close> put a request into the send queue of a
  node connection at most once, and a request that ends with an error was never put into one; so
  the bridge never makes a node execute a request twice, and after an error the router may
  repeat it. (As long as no connection has handed out more than $2^{32}$ ids.)\<close>
theorem request_sent_at_most_once:
  assumes "bridge_run A s" and "no_wrap s"
  shows "b_sent s t \<le> (case x_pc (b_task s t) of X_Done (Inl e) \<Rightarrow> 0 | _ \<Rightarrow> 1)"
  using bridge_invD(7) [OF bridge_run_inv [OF assms], of t] by (auto split: exec_pc.splits sum.splits)

text \<open>C13: The bridge invents no traffic: in every interleaving each frame written to a node is a shard frame, with magic
  byte and full header, and is the request of some task that entered \<^verbatim>\<open>execute\<close>, with nothing but the correlation id
  replaced. (As long as no connection has handed out more than $2^{32}$ ids.)\<close>
theorem nodes_get_requests_only:
  assumes "bridge_run A s" and "no_wrap s" and "f \<in> set (b_wire s c)"
  shows "9 \<le> length f \<and> f ! 0 = 0xFF \<and> (\<exists>t. x_pc (b_task s t) \<noteq> X_Idle \<and> drop 5 f = drop 5 (x_request (b_task s t)))"
proof -
  obtain cid where "(cid, f) \<in> set (b_ids s c)"
    using ids_okD(3) [OF bridge_invD(1) [OF bridge_run_inv [OF assms(1,2)]], of c] assms(3) by force
  then show ?thesis using bridge_run_req [OF assms(1,2)] by (auto simp: req_ok_def requested_def)
qed

lemma no_cross_talk_witness:
  "x_pc (b_task sample_done 3) = X_Done (Inr sample_shard_frame)
   \<and> clrid_field sample_shard_frame = clrid_field (x_request (b_task sample_done 3))
   \<and> drop 5 (x_request (b_task sample_done 3)) = drop 5 sample_shard_frame"
  using no_cross_talk [OF sample_done_run, of 3 sample_shard_frame] sample_shard_frame_ok by (simp add: sample_done_def)

lemma request_sent_at_most_once_witness: "b_sent sample_done 3 = 1 \<and> b_sent sample_done 3 \<le> 1"
  using request_sent_at_most_once [OF sample_done_run, of 3] by (simp add: sample_done_def sample_sent_def)

lemma nodes_get_requests_only_witness:
  "prepend_header 1 sample_reply \<in> set (b_wire sample_done 0) \<and> prepend_header 1 sample_reply ! 0 = 0xFF
   \<and> (\<exists>t. x_pc (b_task sample_done t) \<noteq> X_Idle \<and> drop 5 (prepend_header 1 sample_reply) = drop 5 (x_request (b_task sample_done t)))"
  using nodes_get_requests_only [OF sample_done_run, of "prepend_header 1 sample_reply" 0] by (simp add: sample_done_def)

end
