(* ===== verification/Rz_Expiry.thy ===== *)
theory Rz_Expiry
  imports Rz_Cluster_Props
begin

text \<open>
  \<^verbatim>\<open>src/cluster_handler.rs\<close>, \<^verbatim>\<open>timeout_sec\<close>: what the clean-ups of the cluster handler can expire. The choice of a
  connection cleans up the connections it finds closed and leaves every open one as it is; the synchronisation
  only adds connections. So the age of a request on an open connection is never looked at.
\<close>

section \<open>Definitions\<close>

text \<open>The requesters whose channels are in the table of connection \<open>r\<close>.\<close>

definition waiting_on :: "cluster \<Rightarrow> conn_ref \<Rightarrow> tx set" where
  "waiting_on s r = fst ` snd ` set (entries (heap s ! r))"

text \<open>The step from \<open>s\<close> to \<open>t\<close> answers \<open>sends\<close>, all of them with empty bytes and from the tables of closed
  connections, and keeps the open connections.\<close>

definition only_closed_expire :: "cluster \<Rightarrow> cluster \<Rightarrow> (tx \<times> bytes) list \<Rightarrow> bool" where
  "only_closed_expire s t sends \<longleftrightarrow> conn_closed t = conn_closed s
     \<and> (\<forall>r. (\<not> conn_closed s r \<longrightarrow> heap t ! r = heap s ! r) \<and> waiting_on t r \<subseteq> waiting_on s r)
     \<and> (\<forall>x b. (x, b) \<in> set sends \<longrightarrow> b = [] \<and> (\<exists>r. conn_closed s r \<and> x \<in> waiting_on s r))"

text \<open>A leader connection that was closed while request 7 waited on it, beside an open follower connection on
  which request 8 waits.\<close>

definition expiry_sample :: cluster where
  "expiry_sample = pool_sample\<lparr>heap := [sample_conn\<lparr>entries := [(1, (7, 0))], closed := True\<rparr>,
     sample_conn\<lparr>entries := [(1, (8, 0))]\<rparr>]\<rparr>"

section \<open>Lemmas\<close>

lemma only_closed_expire_same: "heap t = heap s \<Longrightarrow> only_closed_expire s t []"
  by (simp add: only_closed_expire_def waiting_on_def conn_closed_def fun_eq_iff)

lemma only_closed_expire_trans:
  assumes "only_closed_expire s t sends" and "only_closed_expire t' u sends'" and h: "heap t' = heap t"
  shows "only_closed_expire s u (sends @ sends')"
proof -
  have e: "conn_closed t' = conn_closed t" "waiting_on t' = waiting_on t" by (simp_all add: conn_closed_def waiting_on_def h fun_eq_iff)
  note st = assms(1) [unfolded only_closed_expire_def] and tu = assms(2) [unfolded only_closed_expire_def e h]
  have "waiting_on u r \<subseteq> waiting_on s r" for r using st tu by (meson order_trans)
  with st tu show ?thesis unfolding only_closed_expire_def by (simp, blast)
qed

lemma remove_timed_out_sub:
  assumes "remove_timed_out cids m = (m', sends)"
  shows "set m' \<subseteq> set m" and "fst ` set sends \<subseteq> fst ` snd ` set m" and "snd ` set sends \<subseteq> {[]}"
proof -
  have "set m' \<subseteq> set m \<and> fst ` set sends \<subseteq> fst ` snd ` set m \<and> snd ` set sends \<subseteq> {[]}"
    using assms
  proof (induction cids arbitrary: m sends)
    case (Cons cid cids)
    have d: "set (AList.delete cid m) \<subseteq> set m" by (auto simp: AList.delete_eq)
    show ?case
    proof (cases "map_of m cid")
      case None
      with Cons.prems have "remove_timed_out cids (AList.delete cid m) = (m', sends)" by (simp add: load_remove_def)
      from Cons.IH [OF this] d show ?thesis by (meson image_mono order_trans)
    next
      case (Some v)
      then have v: "fst v \<in> fst ` snd ` set m" by (metis image_eqI map_of_SomeD snd_conv)
      obtain sends' where r: "remove_timed_out cids (AList.delete cid m) = (m', sends')" "sends = (fst v, []) # sends'"
        using Some Cons.prems by (auto simp: load_remove_def Let_def split: prod.splits)
      from Cons.IH [OF r(1)] d have "set m' \<subseteq> set m \<and> fst ` set sends' \<subseteq> fst ` snd ` set m \<and> snd ` set sends' \<subseteq> {[]}"
        by (meson image_mono order_trans)
      with v r(2) show ?thesis by simp
    qed
  qed simp
  then show "set m' \<subseteq> set m" and "fst ` set sends \<subseteq> fst ` snd ` set m" and "snd ` set sends \<subseteq> {[]}" by simp_all
qed

lemma cleanup_only_closed:
  assumes "cleanup_conn now c s = (t, sends)" and "conn_closed s c"
  shows "only_closed_expire s t sends"
proof -
  obtain m where m: "demux_cleanup now (from_secs (timeout_sec (cl_cfg s) * 2)) (entries (heap s ! c)) = (m, sends)"
    and t: "t = s\<lparr>heap := (heap s)[c := (heap s ! c)\<lparr>entries := m\<rparr>]\<rparr>"
    using assms(1) by (auto simp: cleanup_conn_def split: prod.splits)
  note sub = remove_timed_out_sub [OF m [unfolded demux_cleanup_def Let_def]]
  have "waiting_on t r \<subseteq> waiting_on s r" for r
    using sub(1) by (cases "c < length (heap s)"; cases "r = c") (auto simp: waiting_on_def t list_update_beyond image_mono)
  moreover have "heap t ! r = heap s ! r" if "\<not> conn_closed s r" for r
    using that assms(2) by (cases "r = c") (simp_all add: t)
  moreover have "conn_closed t = conn_closed s" using cleanup_conn_props(1) [OF assms(1)] by (simp add: fun_eq_iff)
  moreover have "b = [] \<and> x \<in> waiting_on s c" if "(x, b) \<in> set sends" for x b
    using that sub(2,3) by (force simp: waiting_on_def)
  ultimately show ?thesis using assms(2) unfolding only_closed_expire_def by blast
qed

lemma try_conns_only_closed: "try_conns now nm ni left cid s = (res, t, sends) \<Longrightarrow> only_closed_expire s t sends"
proof (induction left arbitrary: cid s sends)
  case (Suc left)
  show ?case
  proof (cases "map_of (followers s) (nm, ni, cid)")
    case (Some c)
    show ?thesis
    proof (cases "conn_closed s c")
      case True
      obtain s1 sends1 where cl: "cleanup_conn now c s = (s1, sends1)" by (cases "cleanup_conn now c s")
      obtain nxt sends2 where r: "try_conns now nm ni left nxt (s1\<lparr>followers := AList.delete (nm, ni, cid) (followers s1)\<rparr>) = (res, t, sends2)"
        "sends = sends1 @ sends2"
        using Suc.prems Some True cl by (auto simp: Let_def split: prod.splits)
      show ?thesis unfolding r(2)
        by (rule only_closed_expire_trans [OF cleanup_only_closed [OF cl True] Suc.IH [OF r(1)]]) simp
    qed (use Suc.prems Some in \<open>auto simp: Let_def intro: only_closed_expire_same\<close>)
  qed (use Suc in \<open>simp add: Let_def split: if_splits\<close>)
qed (simp add: only_closed_expire_same)

lemma try_leaders_only_closed: "try_leaders now left nxt s = (res, t, sends) \<Longrightarrow> only_closed_expire s t sends"
proof (induction left arbitrary: nxt s sends)
  case (Suc left)
  show ?case
  proof (cases "if nxt < length (leader_conns s) then leader_conns s ! nxt else None")
    case (Some c)
    show ?thesis
    proof (cases "conn_closed s c")
      case True
      obtain s1 sends1 where cl: "cleanup_conn now c s = (s1, sends1)" by (cases "cleanup_conn now c s")
      obtain nxt' sends2 where r: "try_leaders now left nxt' s1 = (res, t, sends2)" "sends = sends1 @ sends2"
        using Suc.prems Some True cl by (auto simp: Let_def split: prod.splits)
      show ?thesis unfolding r(2)
        by (rule only_closed_expire_trans [OF cleanup_only_closed [OF cl True] Suc.IH [OF r(1)]]) simp
    qed (use Suc.prems Some in \<open>auto simp: Let_def intro: only_closed_expire_same\<close>)
  qed (use Suc in \<open>simp add: Let_def split: if_splits\<close>)
qed (simp add: only_closed_expire_same)

lemma follower_round_only_closed:
  assumes "follower_round ho now s = (res, t, sends)"
  shows "only_closed_expire s t sends"
proof -
  let ?s1 = "s\<lparr>lb := (lb s)\<lparr>last_node_id := as_u32 (next_node s)\<rparr>\<rparr>"
  have "only_closed_expire ?s1 t sends"
    using assms by (auto simp: follower_round_def Let_def split: option.splits prod.splits
      intro: try_conns_only_closed only_closed_expire_same)
  from only_closed_expire_trans [OF only_closed_expire_same [of s s] this] show ?thesis by simp
qed

lemma follower_rounds_only_closed: "follower_rounds ho now k s = (res, t, sends) \<Longrightarrow> only_closed_expire s t sends"
proof (induction k arbitrary: s sends)
  case (Suc k)
  obtain r1 s1 sends1 where r: "follower_round ho now s = (r1, s1, sends1)" by (rule prod_cases3)
  note first = follower_round_only_closed [OF r]
  show ?case
  proof (cases r1)
    case None
    then obtain sends2 where "follower_rounds ho now k s1 = (res, t, sends2)" "sends = sends1 @ sends2"
      using Suc.prems r by (auto simp: Let_def split: prod.splits)
    then show ?thesis using only_closed_expire_trans [OF first Suc.IH] by simp
  qed (use Suc.prems r first in auto)
qed (simp add: only_closed_expire_same)

lemma next_conn_only_closed:
  "next_follower_conn ho now s = (res, t, sends) \<or> next_leader_conn now s = (res, t, sends) \<Longrightarrow> only_closed_expire s t sends"
  by (auto simp: next_follower_conn_def next_leader_conn_def Let_def split: if_splits
    intro: follower_rounds_only_closed try_leaders_only_closed only_closed_expire_same)

lemma store_conns_heap: "store_conns nm nidx free i conns h = Some h' \<Longrightarrow> heap h' = heap h"
  by (induction nm nidx free i conns h rule: store_conns.induct) (auto split: bind_splits)

lemma commit_nodes_heap: "commit_nodes ho new free asg h = Some h' \<Longrightarrow> heap h' = heap h"
  by (induction ho new free asg h rule: commit_nodes.induct) (auto split: option.splits bind_splits dest!: store_conns_heap)

lemma open_conn_keeps: "open_conn dial host s = (res, t) \<Longrightarrow> r < length (heap s) \<Longrightarrow> heap t ! r = heap s ! r"
  by (auto simp: open_conn_def nth_append split: sum.splits)

lemma handler_keeps_open:
  assumes "cluster_step (s, p) (t, q)" and r: "r < length (heap s)" and "\<not> conn_closed s r"
  shows "heap t ! r = heap s ! r \<or> t = s\<lparr>heap := (heap s)[r := heap t ! r]\<rparr>"
  using assms(1)
proof cases
  case (sync_reset host names)
  then show ?thesis by (simp add: reset_leader_def)
next
  case (sync_fill dial host i "is" names)
  then obtain res h1 where "open_conn dial host s = (res, h1)" "heap t = heap h1"
    by (auto simp: fill_slot_def split: sum.splits prod.splits if_splits)
  then show ?thesis using open_conn_keeps [OF _ r] by metis
next
  case (sync_dial dial host new new' names k req)
  then obtain res h1 where "open_conn dial host s = (res, h1)" "heap t = heap h1"
    by (auto simp: dial_one_def split: sum.splits prod.splits)
  then show ?thesis using open_conn_keeps [OF _ r] by metis
next
  case (sync_commit ho names new u)
  then have "heap t = heap s" by (auto simp: commit_followers_def dest: commit_nodes_heap)
  then show ?thesis by simp
next
  case (pick_follower ho now res sends)
  then show ?thesis using follower_round_only_closed assms(3) by (metis only_closed_expire_def)
next
  case (pick_leader now res sends)
  then show ?thesis using next_conn_only_closed assms(3) by (metis only_closed_expire_def)
next
  case (conn_activity r' c)
  then show ?thesis using r by (cases "r' = r") simp_all
qed simp_all

section \<open>Properties\<close>

text \<open>C37: The configured \<^verbatim>\<open>timeout_sec\<close> is not enforced on open connections: no step of the cluster handler other than
  the activity of the connection's own tasks changes a connection that is open, and whatever time it is, the requesters
  that \<^verbatim>\<open>next_follower_conn\<close> and \<^verbatim>\<open>next_leader_conn\<close> answer as expired were waiting on connections already closed.\<close>
theorem open_requests_never_expire:
  assumes "r < length (heap s)" and "\<not> conn_closed s r"
  shows "(\<forall>p t q. cluster_step (s, p) (t, q) \<longrightarrow> heap t ! r = heap s ! r \<or> t = s\<lparr>heap := (heap s)[r := heap t ! r]\<rparr>)
    \<and> (\<forall>ho now res t sends x b. (next_follower_conn ho now s = (res, t, sends) \<or> next_leader_conn now s = (res, t, sends)) \<and> (x, b) \<in> set sends
        \<longrightarrow> b = [] \<and> (\<exists>r'. r' \<noteq> r \<and> conn_closed s r' \<and> x \<in> waiting_on s r'))"
  using handler_keeps_open [OF _ assms] next_conn_only_closed assms(2) unfolding only_closed_expire_def by metis

lemma open_requests_never_expire_witness:
  "next_leader_conn (10 ^ 20) expiry_sample =
     (None, expiry_sample\<lparr>heap := [sample_conn\<lparr>closed := True\<rparr>, sample_conn\<lparr>entries := [(1, (8, 0))]\<rparr>]\<rparr>, [(7, [])])
   \<and> (\<exists>r'. r' \<noteq> 1 \<and> conn_closed expiry_sample r' \<and> 7 \<in> waiting_on expiry_sample r')"
proof -
  have l: "next_leader_conn (10 ^ 20) expiry_sample =
     (None, expiry_sample\<lparr>heap := [sample_conn\<lparr>closed := True\<rparr>, sample_conn\<lparr>entries := [(1, (8, 0))]\<rparr>]\<rparr>, [(7, [])])"
    by (simp add: next_leader_conn_def expiry_sample_def pool_sample_def fresh_simps sample_conn_def conn_closed_def is_closed_def
      cleanup_conn_def demux_cleanup_def timed_out_ids_def load_remove_def from_secs_def as_u32_def Let_def)
  have "1 < length (heap expiry_sample)" "\<not> conn_closed expiry_sample 1"
    by (simp_all add: expiry_sample_def conn_closed_def is_closed_def sample_conn_def)
  from open_requests_never_expire [OF this] l show ?thesis by fastforce
qed

end
