(* ===== verification/Rz_Bridge.thy ===== *)
theory Rz_Bridge
  imports Rz_System Rz_Expiry
begin

text \<open>
  The cluster handler (theories \<open>Rz_Cluster\<close> and \<open>Rz_Execute\<close>) inside the system of interleaved tasks
  (theory \<open>Rz_System\<close>): what the handler's own steps do to the connections are steps of the
  system's pool, and one attempt of \<^verbatim>\<open>execute\<close>, from the choice of a connection to the send, is a run of its task.
\<close>

section \<open>The cluster handler in the system\<close>

text \<open>The system after the handler has left the connections as in \<open>h\<close> and its clean-ups have sent \<open>sends\<close>.\<close>

definition after_pool :: "cluster \<Rightarrow> (tx \<times> bytes) list \<Rightarrow> bridge \<Rightarrow> bridge" where
  "after_pool h sends s = s\<lparr>b_conns := heap h, b_chan := fold deliver sends (b_chan s)\<rparr>"

lemma after_pool_simps [simp]:
  "b_conns (after_pool h sends s) = heap h" "b_task (after_pool h sends s) = b_task s" "b_next_tx (after_pool h sends s) = b_next_tx s"
  "after_pool h2 sends2 (after_pool h1 sends1 s) = after_pool h2 (sends1 @ sends2) s"
  by (simp_all add: after_pool_def)

lemma after_pool_cong: "heap h = heap h' \<Longrightarrow> after_pool h sends s = after_pool h' sends s"
  by (simp add: after_pool_def)

lemma after_pool_nothing: "b_conns s = heap h \<Longrightarrow> after_pool h [] s = s"
  by (cases s) (simp add: after_pool_def)

abbreviation pool_steps :: "(bytes \<Rightarrow> bytes \<Rightarrow> bool) \<Rightarrow> bridge \<Rightarrow> bridge \<Rightarrow> bool" where
  "pool_steps A \<equiv> (pool_step A)\<^sup>*\<^sup>*"

lemma unchanged_steps: "b_conns s = heap h \<Longrightarrow> heap h' = heap h \<Longrightarrow> pool_steps A s (after_pool h' [] s)"
  by (simp add: after_pool_nothing)

lemma cleanup_steps:
  assumes "cleanup_conn now r h = (h', sends)" and "r < length (heap h)" and "b_conns s = heap h"
  shows "pool_steps A s (after_pool h' sends s)"
proof -
  obtain m where m: "demux_cleanup now (from_secs (timeout_sec (cl_cfg h) * 2)) (entries (heap h ! r)) = (m, sends)"
    "h' = h\<lparr>heap := (heap h)[r := (heap h ! r)\<lparr>entries := m\<rparr>]\<rparr>"
    using assms(1) by (auto simp: cleanup_conn_def split: prod.splits)
  have "pool_step A s (set_conn r ((b_conns s ! r)\<lparr>entries := m\<rparr>) (s\<lparr>b_chan := fold deliver sends (b_chan s)\<rparr>))"
    by (rule p_cleanup) (use assms(2,3) m(1) in simp_all)
  moreover have "set_conn r ((b_conns s ! r)\<lparr>entries := m\<rparr>) (s\<lparr>b_chan := fold deliver sends (b_chan s)\<rparr>) = after_pool h' sends s"
    using assms(3) m(2) by (simp add: set_conn_def after_pool_def)
  ultimately show ?thesis by auto
qed

lemma steps_append:
  "pool_steps A s (after_pool h1 sends1 s) \<Longrightarrow> pool_steps A (after_pool h1 sends1 s) (after_pool h2 sends2 (after_pool h1 sends1 s)) \<Longrightarrow>
   pool_steps A s (after_pool h2 (sends1 @ sends2) s)"
  by simp

lemma try_leaders_steps:
  "try_leaders now left nxt h = (res, h', sends) \<Longrightarrow> \<forall>r. Some r \<in> set (leader_conns h) \<longrightarrow> r < length (heap h) \<Longrightarrow>
   b_conns s = heap h \<Longrightarrow> pool_steps A s (after_pool h' sends s)"
proof (induction left arbitrary: nxt h sends s)
  case 0
  then show ?case by (simp add: after_pool_nothing)
next
  case (Suc left)
  let ?x = "if nxt < length (leader_conns h) then leader_conns h ! nxt else None"
  show ?case
  proof (cases ?x)
    case None
    then show ?thesis using Suc.IH [OF _ Suc.prems(2,3)] Suc.prems(1) by (simp add: Let_def split: if_splits)
  next
    case (Some c)
    then have c: "c < length (heap h)" using Suc.prems(2) by (metis nth_mem option.distinct(1))
    show ?thesis
    proof (cases "conn_closed h c")
      case True
      obtain h1 sends1 where cl: "cleanup_conn now c h = (h1, sends1)" by (cases "cleanup_conn now c h")
      note cp = cleanup_conn_props [OF cl]
      obtain nxt' sends2 where r: "try_leaders now left nxt' h1 = (res, h', sends2)" "sends = sends1 @ sends2"
        using Suc.prems(1) Some True cl by (auto simp: Let_def split: prod.splits)
      show ?thesis unfolding r(2)
        by (rule steps_append [OF cleanup_steps [OF cl c Suc.prems(3)]], rule Suc.IH [OF r(1)]) (use Suc.prems(2) cp in simp_all)
    next
      case False
      then show ?thesis using Suc.prems(1,3) Some by (auto simp: Let_def intro: unchanged_steps)
    qed
  qed
qed

lemma next_leader_steps:
  assumes "next_leader_conn now h = (res, h', sends)" and "cluster_inv h" and "b_conns s = heap h"
  shows "pool_steps A s (after_pool h' sends s)"
  using assms by (auto simp: next_leader_conn_def Let_def cluster_inv_def after_pool_nothing intro: try_leaders_steps split: if_splits)

lemma try_conns_steps:
  "try_conns now nm ni left cid h = (res, h', sends) \<Longrightarrow> \<forall>k r. map_of (followers h) k = Some r \<longrightarrow> r < length (heap h) \<Longrightarrow>
   b_conns s = heap h \<Longrightarrow> pool_steps A s (after_pool h' sends s)"
proof (induction left arbitrary: cid h sends s)
  case 0
  then show ?case by (simp add: after_pool_nothing)
next
  case (Suc left)
  let ?key = "(nm, ni, cid)"
  show ?case
  proof (cases "map_of (followers h) ?key")
    case None
    then show ?thesis using Suc.IH [OF _ Suc.prems(2,3)] Suc.prems(1) by (simp add: Let_def split: if_splits)
  next
    case (Some c)
    then have c: "c < length (heap h)" using Suc.prems(2) by blast
    show ?thesis
    proof (cases "conn_closed h c")
      case True
      obtain h1 sends1 where cl: "cleanup_conn now c h = (h1, sends1)" by (cases "cleanup_conn now c h")
      note cp = cleanup_conn_props [OF cl]
      let ?h1 = "h1\<lparr>followers := AList.delete ?key (followers h1)\<rparr>"
      obtain nxt' sends2 where r: "try_conns now nm ni left nxt' ?h1 = (res, h', sends2)" "sends = sends1 @ sends2"
        using Suc.prems(1) Some True cl by (auto simp: Let_def split: prod.splits)
      show ?thesis unfolding r(2)
        by (rule steps_append [OF cleanup_steps [OF cl c Suc.prems(3)]], rule Suc.IH [OF r(1)])
          (use Suc.prems(2) cp in \<open>simp_all del: map_of_eq_Some_iff\<close>)
    next
      case False
      then show ?thesis using Suc.prems(1,3) Some by (auto simp: Let_def intro: unchanged_steps)
    qed
  qed
qed

lemma follower_round_steps:
  assumes "follower_round ho now h = (res, h', sends)" and "cluster_inv h" and "b_conns s = heap h"
  shows "pool_steps A s (after_pool h' sends s)"
proof -
  have refs: "\<forall>k r. map_of (followers h) k = Some r \<longrightarrow> r < length (heap h)"
    using assms(2) by (auto simp: cluster_inv_def pool_inv_def simp del: map_of_eq_Some_iff)
  show ?thesis
    using assms(1,3) refs unfolding follower_round_def Let_def
    by (auto split: option.splits prod.splits intro: unchanged_steps elim!: try_conns_steps simp del: map_of_eq_Some_iff)
qed

lemma follower_rounds_steps:
  assumes ho: "valid_hash_order ho"
  shows "follower_rounds ho now k h = (res, h', sends) \<Longrightarrow> cluster_inv h \<Longrightarrow> b_conns s = heap h \<Longrightarrow> pool_steps A s (after_pool h' sends s)"
proof (induction k arbitrary: h sends s)
  case 0
  then show ?case by (simp add: after_pool_nothing)
next
  case (Suc k)
  obtain res1 h1 sends1 where fr: "follower_round ho now h = (res1, h1, sends1)" by (rule prod_cases3)
  note st = follower_round_steps [OF fr Suc.prems(2,3)]
  show ?case
  proof (cases res1)
    case (Some r)
    then show ?thesis using Suc.prems(1) fr st by simp
  next
    case None
    obtain res2 h2 sends2 where fs: "follower_rounds ho now k h1 = (res2, h2, sends2)" by (rule prod_cases3)
    have e: "res2 = res" "h2 = h'" "sends = sends1 @ sends2" using Suc.prems(1) fr None fs by simp_all
    have "cluster_inv h1" using follower_round_spec [OF ho Suc.prems(2) fr] by (simp add: pick_keeps_def)
    from Suc.IH [OF fs [unfolded e] this] show ?thesis unfolding e(3) by (rule steps_append [OF st]) simp
  qed
qed

lemma open_conn_steps: "open_conn dial host h = (res, h') \<Longrightarrow> b_conns s = heap h \<Longrightarrow> pool_steps A s (after_pool h' [] s)"
proof (cases "connect host (cl_cfg h) demux_new (dial (dials h) host)")
  case (Inr k)
  assume o: "open_conn dial host h = (res, h')" "b_conns s = heap h"
  obtain u where "dial (dials h) host = Inr u" using Inr by (auto simp: connect_def split: sum.splits)
  then have "connect host (cl_cfg h) demux_new (Inr ()) = Inr k" using Inr by simp
  from p_open [OF this, of A s] show ?thesis using o Inr by (auto simp: open_conn_def after_pool_def)
qed (auto simp: open_conn_def intro: unchanged_steps)

lemma handler_steps:
  assumes "cluster_step (h, p) (h', q)" and inv: "cluster_inv h" and s: "b_conns s = heap h"
    and own: "\<And>r c. r < length (heap h) \<Longrightarrow> h' \<noteq> h\<lparr>heap := (heap h)[r := c]\<rparr>"
  shows "\<exists>sends. pool_steps A s (after_pool h' sends s)"
  using assms(1)
proof cases
  case (sync_reset host names)
  then have "heap h' = heap h" by (simp add: reset_leader_def)
  then show ?thesis using unchanged_steps [OF s] by blast
next
  case (sync_fill dial host i "is" names)
  then obtain res h1 where "open_conn dial host h = (res, h1)" "heap h' = heap h1"
    by (auto simp: fill_slot_def split: sum.splits prod.splits if_splits)
  then show ?thesis using open_conn_steps [OF _ s] after_pool_cong by metis
next
  case (sync_dial dial host new new' names k req)
  then obtain res h1 where "open_conn dial host h = (res, h1)" "heap h' = heap h1"
    by (auto simp: dial_one_def split: sum.splits prod.splits)
  then show ?thesis using open_conn_steps [OF _ s] after_pool_cong by metis
next
  case (sync_commit ho names new t)
  then have "heap h' = heap h" by (auto simp: commit_followers_def dest: commit_nodes_heap)
  then show ?thesis using unchanged_steps [OF s] by blast
next
  case (pick_follower ho now res sends)
  then show ?thesis using follower_round_steps [OF _ inv s] by blast
next
  case (pick_leader now res sends)
  then show ?thesis using next_leader_steps [OF _ inv s] by blast
next
  case (conn_activity r c)
  then show ?thesis using own by blast
qed (use unchanged_steps [OF s, of h'] in auto)

section \<open>One attempt of execute\<close>

definition bridge_step :: "(bytes \<Rightarrow> bytes \<Rightarrow> bool) \<Rightarrow> bridge \<Rightarrow> bridge \<Rightarrow> bool" where
  "bridge_step A s u \<longleftrightarrow> pool_step A s u \<or> (\<exists>t. task_step t s u)"

definition other_step :: "(bytes \<Rightarrow> bytes \<Rightarrow> bool) \<Rightarrow> nat \<Rightarrow> bridge \<Rightarrow> bridge \<Rightarrow> bool" where
  "other_step A t s u \<longleftrightarrow> pool_step A s u \<or> (\<exists>t'. t' \<noteq> t \<and> task_step t' s u)"

text \<open>The world of \<open>Rz_Execute\<close> and the system have the same connections and the same fresh channel.\<close>

definition caps_ok :: "bridge \<Rightarrow> bool" where
  "caps_ok s \<longleftrightarrow> (\<forall>k \<in> set (b_conns s). 0 < queue_cap k)"

definition in_step :: "world \<Rightarrow> bridge \<Rightarrow> bool" where
  "in_step w s \<longleftrightarrow> b_conns s = heap (w_cluster w) \<and> b_next_tx s = w_next_tx w \<and> cluster_inv (w_cluster w) \<and> caps_ok s"

text \<open>What happens while \<^verbatim>\<open>execute\<close> waits is what the other tasks of the system do, and the wait for room in the
  send queue ends when there is room or the receiver is gone.\<close>

definition env_in_system :: "(bytes \<Rightarrow> bytes \<Rightarrow> bool) \<Rightarrow> nat \<Rightarrow> exec_env \<Rightarrow> bool" where
  "env_in_system A t env \<longleftrightarrow> (\<forall>w s. in_step w s \<longrightarrow>
     valid_hash_order (e_order env w)
     \<and> (\<exists>s'. (other_step A t)\<^sup>*\<^sup>* s s' \<and> in_step (e_between env w) s')
     \<and> (\<forall>c < length (b_conns s). \<exists>s'. (other_step A t)\<^sup>*\<^sup>* s s' \<and> in_step (e_room env c w) s'
          \<and> (rx_alive (b_conns s' ! c) \<longrightarrow> length (send_queue (b_conns s' ! c)) < queue_cap (b_conns s' ! c))))"

text \<open>One attempt of \<^verbatim>\<open>exec_loop\<close> up to the wait for the reply, and where it leaves the task.\<close>

definition exec_attempt :: "exec_env \<Rightarrow> bool \<Rightarrow> nat \<Rightarrow> bytes \<Rightarrow> world \<Rightarrow> exec_pc \<times> world" where
  "exec_attempt env iw a f w =
     (case choose_conn env iw w of
        (None, w1) \<Rightarrow> (failed_attempt a f (if iw then NoLeaderAvailable else NoFollowerNodeAvailable), w1)
      | (Some c, w1) \<Rightarrow>
          (let (cid, w2) = take_corr_id c w1; f1 = set_clrid cid f;
               (x, w3) = register_request env c cid w2; (ok, w4) = send_frame env c f1 w3
           in (if ok then X_Waiting a f1 c cid x else failed_attempt a f1 Timeout, w4)))"

text \<open>What the loop does with it.\<close>

definition resume :: "exec_env \<Rightarrow> bool \<Rightarrow> u32 \<Rightarrow> nat \<Rightarrow> exec_pc \<times> world \<Rightarrow> (bytes rz_result \<times> world) option" where
  "resume env iw original left q = (case q of
     (X_Done r, w) \<Rightarrow> Some (r, w)
   | (X_Choose a f, w) \<Rightarrow> exec_loop env iw original a left f (pause env a w)
   | _ \<Rightarrow> None)"

lemma resume_failed:
  "resume env iw original left (failed_attempt a f e, w) =
     (if a + 1 \<ge> 3 then Some (Inl e, w) else exec_loop env iw original (a + 1) left f (pause env (a + 1) w))"
  by (simp add: resume_def failed_attempt_def)

lemma exec_loop_attempt:
  assumes "9 \<le> length f"
  shows "exec_loop env iw original a (Suc left) f w =
     (case exec_attempt env iw a f w of
        (X_Waiting a' f' c cid x, w1) \<Rightarrow>
          (case await_reply env c cid x w1 of
             (Some response, w2) \<Rightarrow> map_option (\<lambda>b. (Inr b, w2)) (restore_clrid original response)
           | (None, w2) \<Rightarrow> resume env iw original left (failed_attempt a' f' Timeout, w2))
      | q \<Rightarrow> resume env iw original left q)"
proof -
  obtain res w1 where ch: "choose_conn env iw w = (res, w1)" by (cases "choose_conn env iw w")
  show ?thesis
  proof (cases res)
    case None
    then show ?thesis using ch by (cases "a + 1 \<ge> 3") (simp_all add: exec_attempt_def resume_def failed_attempt_def)
  next
    case (Some c)
    obtain cid w2 where n: "take_corr_id c w1 = (cid, w2)" by (cases "take_corr_id c w1")
    obtain x w3 where g: "register_request env c cid w2 = (x, w3)" by (cases "register_request env c cid w2")
    obtain ok w4 where o: "send_frame env c (set_clrid cid f) w3 = (ok, w4)" by (cases "send_frame env c (set_clrid cid f) w3")
    obtain r w5 where y: "await_reply env c cid x w4 = (r, w5)" by (cases "await_reply env c cid x w4")
    have at: "exec_attempt env iw a f w = (if ok then X_Waiting a (set_clrid cid f) c cid x else failed_attempt a (set_clrid cid f) Timeout, w4)"
      using ch Some n g o by (simp add: exec_attempt_def)
    show ?thesis
    proof (cases ok)
      case True
      then show ?thesis unfolding at using ch Some n g o y copy_clrid [OF assms] by (cases r) (simp_all add: resume_failed)
    next
      case False
      then show ?thesis unfolding at using ch Some n g o copy_clrid [OF assms]
        by (cases "a + 1 \<ge> 3") (simp_all add: resume_def failed_attempt_def)
    qed
  qed
qed

lemma in_step_log [simp]: "in_step (keep_log u w) s = in_step w s" "in_step (logged e w) s = in_step w s"
  by (simp_all add: in_step_def keep_log_def logged_def)

lemma caps_ok_set:
  assumes "caps_ok s" and "queue_cap k = queue_cap (b_conns s ! c)" and "b_conns u = (b_conns s)[c := k]"
  shows "caps_ok u"
proof (cases "c < length (b_conns s)")
  case True
  then have "0 < queue_cap k" using assms(1,2) by (simp add: caps_ok_def)
  then show ?thesis using assms(1,3) set_update_subset_insert [of "b_conns s" c k] by (auto simp: caps_ok_def)
qed (use assms in \<open>simp add: caps_ok_def list_update_beyond\<close>)

lemma caps_ok_set_conn: "caps_ok s \<Longrightarrow> queue_cap k = queue_cap (b_conns s ! c) \<Longrightarrow> b_conns v = b_conns s \<Longrightarrow> caps_ok (set_conn c k v)"
  by (rule caps_ok_set [of s k c]) (simp_all add: set_conn_def)

lemma queue_cap_kept:
  "write_step ok k = (k', out) \<Longrightarrow> queue_cap k' = queue_cap k" "read_frame hdr r k = Some (k', out') \<Longrightarrow> queue_cap k' = queue_cap k"
  by (auto simp: write_step_def read_frame_def split: if_splits list.splits option.splits prod.splits bind_splits)

lemma pool_step_caps: "pool_step A s u \<Longrightarrow> caps_ok s \<Longrightarrow> caps_ok u"
proof (induction rule: pool_step.induct)
  case (p_open host cfg k s)
  then show ?case by (auto simp: caps_ok_def connect_def)
qed (rule caps_ok_set_conn, assumption, simp add: queue_cap_kept read_ended_def conn_close_def, simp)+

lemma pool_steps_caps: "pool_steps A s u \<Longrightarrow> caps_ok s \<Longrightarrow> caps_ok u"
  by (induction rule: rtranclp_induct) (auto dest: pool_step_caps)

lemma pool_step_keeps: "pool_step A s u \<Longrightarrow> b_task u = b_task s \<and> length (b_conns s) \<le> length (b_conns u)"
  by (erule pool_step.cases) (simp_all add: set_conn_def)

lemma task_step_keeps: "task_step t' s u \<Longrightarrow> (t \<noteq> t' \<longrightarrow> b_task u t = b_task s t) \<and> length (b_conns s) \<le> length (b_conns u)"
  by (erule task_step.cases) (auto simp: set_conn_def jump_def)

lemma other_step_keeps: "other_step A t s u \<Longrightarrow> b_task u t = b_task s t \<and> length (b_conns s) \<le> length (b_conns u)"
  unfolding other_step_def using pool_step_keeps task_step_keeps by metis

lemma other_steps_keep: "(other_step A t)\<^sup>*\<^sup>* s u \<Longrightarrow> b_task u t = b_task s t \<and> length (b_conns s) \<le> length (b_conns u)"
  by (induction rule: rtranclp_induct) (auto dest: other_step_keeps)

lemma bridge_steps:
  "(other_step A t)\<^sup>*\<^sup>* s u \<Longrightarrow> (bridge_step A)\<^sup>*\<^sup>* s u" "pool_steps A s u \<Longrightarrow> (bridge_step A)\<^sup>*\<^sup>* s u"
  "task_step t s u \<Longrightarrow> (bridge_step A)\<^sup>*\<^sup>* s u"
proof -
  have "other_step A t \<le> bridge_step A" "pool_step A \<le> bridge_step A" by (auto simp: other_step_def bridge_step_def)
  then show "(other_step A t)\<^sup>*\<^sup>* s u \<Longrightarrow> (bridge_step A)\<^sup>*\<^sup>* s u" "pool_steps A s u \<Longrightarrow> (bridge_step A)\<^sup>*\<^sup>* s u"
    by (meson rtranclp_mono predicate2D)+
  show "(bridge_step A)\<^sup>*\<^sup>* s u" if "task_step t s u" using that unfolding bridge_step_def by (intro r_into_rtranclp) blast
qed

lemma chosen_leader:
  assumes inv: "cluster_inv h" and n: "next_leader_conn now h = (r, h', sends)"
  shows "cluster_inv h' \<and> (\<forall>c. r = Some c \<longrightarrow> c < length (heap h'))"
proof (intro conjI allI impI)
  note sp = next_leader_spec [OF inv n]
  show "cluster_inv h'" using leader_keeps_inv [OF inv] sp by blast
  fix c
  assume "r = Some c"
  with sp obtain i j where j: "j < per_node h" "leader_conns h ! ((i + j) mod per_node h) = Some c" by auto
  have "(i + j) mod per_node h < length (leader_conns h)" using inv j(1) by (simp add: cluster_inv_def)
  then have "Some c \<in> set (leader_conns h)" using j(2) by (metis nth_mem)
  then show "c < length (heap h')" using inv sp by (auto simp: cluster_inv_def leader_keeps_def)
qed

lemma chosen_follower:
  assumes ho: "valid_hash_order ho" and inv: "cluster_inv h" and n: "next_follower_conn ho now h = (r, h', sends)"
  shows "cluster_inv h' \<and> (\<forall>c. r = Some c \<longrightarrow> c < length (heap h'))"
proof -
  note sp = follower_rounds_keeps [OF ho inv n [unfolded next_follower_conn_def]]
  then have "cluster_inv h'" by (simp add: pick_keeps_def)
  then show ?thesis using sp by (fastforce simp: cluster_inv_def pool_inv_def simp del: map_of_eq_Some_iff)
qed

lemma choice_steps:
  assumes e: "env_in_system A t env" and i: "in_step w s" and c: "choose_conn env iw w = (res, w1)"
  shows "\<exists>s1. (bridge_step A)\<^sup>*\<^sup>* s s1 \<and> in_step w1 s1 \<and> b_task s1 t = b_task s t
    \<and> (\<forall>c. res = Some c \<longrightarrow> c < length (b_conns s1) \<and> \<not> is_closed (b_conns s1 ! c))"
proof -
  let ?h = "w_cluster w"
  have inv: "cluster_inv ?h" and s: "b_conns s = heap ?h" using i by (simp_all add: in_step_def)
  have ho: "valid_hash_order (e_order env w)" using e i by (auto simp: env_in_system_def)
  obtain r h sends where p: "(if iw then next_leader_conn (e_now env w) ?h else next_follower_conn (e_order env w) (e_now env w) ?h) = (r, h, sends)"
    by (metis prod_cases3)
  have w1: "w1 = keep_log w (e_between env (w\<lparr>w_cluster := h\<rparr>))"
    and r: "res = Some c \<Longrightarrow> r = Some c \<and> \<not> conn_closed (w_cluster w1) c" for c
    using c p by (auto simp: choose_conn_def Let_def split: option.splits if_splits)
  have ps: "pool_steps A s (after_pool h sends s)"
    using p next_leader_steps [OF _ inv s] follower_rounds_steps [OF ho _ inv s] by (auto simp: next_follower_conn_def split: if_splits)
  have h: "cluster_inv h \<and> (\<forall>c. r = Some c \<longrightarrow> c < length (heap h))"
    using p chosen_leader [OF inv] chosen_follower [OF ho inv] by (auto split: if_splits)
  have "in_step (w\<lparr>w_cluster := h\<rparr>) (after_pool h sends s)" using i h pool_steps_caps [OF ps] by (simp add: in_step_def)
  then obtain s1 where s1: "(other_step A t)\<^sup>*\<^sup>* (after_pool h sends s) s1" "in_step w1 s1"
    using e unfolding env_in_system_def w1 by (metis in_step_log(1))
  have "(bridge_step A)\<^sup>*\<^sup>* s s1" using bridge_steps(2) [OF ps] bridge_steps(1) [OF s1(1)] by (rule rtranclp_trans)
  moreover have "c < length (b_conns s1) \<and> \<not> is_closed (b_conns s1 ! c)" if "res = Some c" for c
  proof -
    have "c < length (heap h)" using h r that by blast
    then have "c < length (b_conns s1)" using other_steps_keep [OF s1(1)] by simp
    then show ?thesis using r that s1(2) by (auto simp: in_step_def conn_closed_def)
  qed
  ultimately show ?thesis using other_steps_keep [OF s1(1)] s1(2) by auto
qed

text \<open>The three operations on the chosen connection.\<close>

lemma in_step_update:
  assumes "in_step w s" and "w_cluster w1 = (w_cluster w)\<lparr>heap := (heap (w_cluster w))[c := k]\<rparr>"
    and "queue_cap k = queue_cap (b_conns s ! c)" and "b_conns u = (b_conns s)[c := k]" and "b_next_tx u = w_next_tx w1"
  shows "in_step w1 u"
  using assms caps_ok_set [OF _ assms(3,4)] by (simp add: in_step_def cluster_inv_def)

lemma number_step:
  assumes i: "in_step w s" and pc: "pc_of s t = X_Chosen a f c" and f: "9 \<le> length f" and n: "take_corr_id c w = (cid, w1)"
  shows "\<exists>s1. task_step t s s1 \<and> in_step w1 s1 \<and> b_task s1 t = (b_task s t)\<lparr>x_pc := X_Numbered a (set_clrid cid f) c cid\<rparr>
    \<and> length (b_conns s1) = length (b_conns s)"
proof -
  obtain k where k: "next_corr_id (b_conns s ! c) = (cid, k)" using i n by (auto simp: take_corr_id_def in_step_def next_corr_id_def Let_def)
  from x_number [OF pc k copy_clrid [OF f]] show ?thesis
  proof (intro exI conjI)
    show "in_step w1 (jump t (X_Numbered a (set_clrid cid f) c cid) (set_conn c k (s\<lparr>b_ids := (b_ids s)(c := b_ids s c @ [(cid, set_clrid cid f)])\<rparr>)))"
      by (rule in_step_update [OF i, of _ c k])
        (use i n k in \<open>auto simp: in_step_def take_corr_id_def update_conn_def next_corr_id_def jump_def set_conn_def Let_def\<close>)
  qed (simp_all add: jump_def set_conn_def)
qed

lemma store_step:
  assumes i: "in_step w s" and pc: "pc_of s t = X_Numbered a f c cid" and n: "register_request env c cid w = (x, w1)"
  shows "\<exists>s1. task_step t s s1 \<and> in_step w1 s1 \<and> b_task s1 t = (b_task s t)\<lparr>x_pc := X_Stored a f c cid x\<rparr>
    \<and> length (b_conns s1) = length (b_conns s)"
proof -
  have x: "x = b_next_tx s" using i n by (simp add: register_request_def in_step_def Let_def)
  let ?k = "b_conns s ! c"
  from x_store [OF pc x refl, of "e_now env w"] show ?thesis
  proof (intro exI conjI)
    show "in_step w1 (jump t (X_Stored a f c cid x) (set_conn c (?k\<lparr>entries := demux_store cid x (e_now env w) (entries ?k)\<rparr>)
      (s\<lparr>b_next_tx := x + 1, b_home := (b_home s)(x \<mapsto> (c, cid)),
         b_chan := (drop_tx (store_drops cid (entries ?k)) (b_chan s))(x := Waiting_Resp)\<rparr>)))"
      by (rule in_step_update [OF i, of _ c "?k\<lparr>entries := demux_store cid x (e_now env w) (entries ?k)\<rparr>"])
        (use i n x in \<open>auto simp: in_step_def register_request_def update_conn_def logged_def jump_def set_conn_def Let_def\<close>)
  qed (simp_all add: jump_def set_conn_def)
qed

lemma send_step:
  assumes e: "env_in_system A t env" and i: "in_step w s" and pc: "pc_of s t = X_Stored a f c cid x" and c: "c < length (b_conns s)"
    and n: "send_frame env c f w = (ok, w1)"
  shows "\<exists>s1. (bridge_step A)\<^sup>*\<^sup>* s s1 \<and> in_step w1 s1
    \<and> pc_of s1 t = (if ok then X_Waiting a f c cid x else failed_attempt a f Timeout)"
proof -
  obtain s1 where s1: "(other_step A t)\<^sup>*\<^sup>* s s1" "in_step (e_room env c w) s1"
    "rx_alive (b_conns s1 ! c) \<longrightarrow> length (send_queue (b_conns s1 ! c)) < queue_cap (b_conns s1 ! c)"
    using e i c unfolding env_in_system_def by meson
  have pc1: "pc_of s1 t = X_Stored a f c cid x" using other_steps_keep [OF s1(1)] pc by simp
  obtain b k where k: "send_raw f (b_conns s1 ! c) = (Ready b, k)" "queue_cap k = queue_cap (b_conns s1 ! c)"
    using s1(3) by (cases "rx_alive (b_conns s1 ! c)") (simp_all add: send_raw_def)
  have w1: "ok = b" "w1 = logged (Sent_Frame c f ok) (update_conn c (\<lambda>_. k) (keep_log w (e_room env c w)))"
    using n k s1(2) by (auto simp: send_frame_def in_step_def keep_log_def Let_def)
  define s2 where "s2 = (if b then jump t (X_Waiting a f c cid x) (set_conn c k (s1\<lparr>b_sent := (b_sent s1)(t := b_sent s1 t + 1)\<rparr>))
    else jump t (failed_attempt a f Timeout) (set_conn c k s1))"
  have "task_step t s1 s2" using x_sent [OF pc1] x_not_sent [OF pc1] k by (cases b) (simp_all add: s2_def)
  then have "(bridge_step A)\<^sup>*\<^sup>* s s2" using bridge_steps(1) [OF s1(1)] bridge_steps(3) by (metis rtranclp_trans)
  moreover have "in_step w1 s2"
    by (rule in_step_update [OF s1(2), of _ c k])
      (use s1(2) k(2) in \<open>auto simp: w1 s2_def in_step_def keep_log_def logged_def update_conn_def jump_def set_conn_def\<close>)
  moreover have "pc_of s2 t = (if ok then X_Waiting a f c cid x else failed_attempt a f Timeout)"
    by (simp add: s2_def w1(1) jump_def)
  ultimately show ?thesis by blast
qed

lemma attempt_steps:
  assumes e: "env_in_system A t env" and i: "in_step w s" and pc: "pc_of s t = X_Choose a f" and iw: "x_write (b_task s t) = iw"
    and f: "9 \<le> length f" and r: "exec_attempt env iw a f w = (p, w')"
  shows "\<exists>s'. (bridge_step A)\<^sup>*\<^sup>* s s' \<and> in_step w' s' \<and> pc_of s' t = p"
proof -
  obtain res w1 where ch: "choose_conn env iw w = (res, w1)" by (cases "choose_conn env iw w")
  obtain s1 where s1: "(bridge_step A)\<^sup>*\<^sup>* s s1" "in_step w1 s1" "b_task s1 t = b_task s t"
    and open_c: "\<And>c. res = Some c \<Longrightarrow> c < length (b_conns s1) \<and> \<not> is_closed (b_conns s1 ! c)"
    using choice_steps [OF e i ch] by blast
  have pc1: "pc_of s1 t = X_Choose a f" using s1(3) pc by simp
  show ?thesis
  proof (cases res)
    case None
    then have p: "p = failed_attempt a f (if x_write (b_task s1 t) then NoLeaderAvailable else NoFollowerNodeAvailable)" "w' = w1"
      using r ch iw s1(3) by (auto simp: exec_attempt_def)
    have "(bridge_step A)\<^sup>*\<^sup>* s (jump t p s1)" using x_no_conn [OF pc1] s1(1) p(1) bridge_steps(3) by (metis rtranclp_trans)
    moreover have "in_step w1 (jump t p s1)" using s1(2) by (simp add: in_step_def jump_def caps_ok_def)
    ultimately show ?thesis using p(2) by (intro exI [of _ "jump t p s1"]) (simp add: jump_def)
  next
    case (Some c)
    obtain cid w2 where n: "take_corr_id c w1 = (cid, w2)" by (cases "take_corr_id c w1")
    let ?f = "set_clrid cid f" and ?s2 = "jump t (X_Chosen a f c) s1"
    obtain x w3 where g: "register_request env c cid w2 = (x, w3)" by (cases "register_request env c cid w2")
    obtain ok w4 where o: "send_frame env c ?f w3 = (ok, w4)" by (cases "send_frame env c ?f w3")
    have c: "c < length (b_conns s1)" "\<not> is_closed (b_conns s1 ! c)" using open_c Some by simp_all
    have "in_step w1 ?s2" "pc_of ?s2 t = X_Chosen a f c" using s1(2) by (simp_all add: in_step_def jump_def caps_ok_def)
    from number_step [OF this f n] obtain s3 where s3: "task_step t ?s2 s3" "in_step w2 s3" "pc_of s3 t = X_Numbered a ?f c cid"
      "c < length (b_conns s3)" using c(1) by (auto simp: jump_def)
    from store_step [OF s3(2,3) g] obtain s4 where s4: "task_step t s3 s4" "in_step w3 s4" "pc_of s4 t = X_Stored a ?f c cid x"
      "c < length (b_conns s4)" using s3(4) by auto
    from send_step [OF e s4(2,3,4) o] obtain s5 where s5: "(bridge_step A)\<^sup>*\<^sup>* s4 s5" "in_step w4 s5"
      "pc_of s5 t = (if ok then X_Waiting a ?f c cid x else failed_attempt a ?f Timeout)" by blast
    have "(bridge_step A)\<^sup>*\<^sup>* s s5"
      using s1(1) bridge_steps(3) [OF x_choose [OF pc1 c]] bridge_steps(3) [OF s3(1)] bridge_steps(3) [OF s4(1)] s5(1)
      by (meson rtranclp_trans)
    moreover have "p = (if ok then X_Waiting a ?f c cid x else failed_attempt a ?f Timeout)" "w' = w4"
      using r ch Some n g o by (auto simp: exec_attempt_def Let_def)
    ultimately show ?thesis using s5(2,3) by auto
  qed
qed

section \<open>Properties\<close>

text \<open>C12: The cluster handler inside the system: whatever a synchronisation or a choice of a connection does to
  the shared connections, between any two releases of the handler's locks, is a sequence of steps of the system's pool
  (connections opened, tables cleaned up and their requesters answered), unless it is the activity of a
  single connection's own tasks, which have steps of their own. So what holds in every run of the system
  holds with the handler's real bookkeeping.\<close>
theorem handler_refines_system:
  assumes "cluster_step (h, p) (h', q)" and "cluster_inv h" and "b_conns s = heap h"
  shows "(\<exists>sends. (pool_step A)\<^sup>*\<^sup>* s (after_pool h' sends s))
    \<or> (\<exists>r c. r < length (heap h) \<and> h' = h\<lparr>heap := (heap h)[r := c]\<rparr>)"
  using handler_steps [OF assms] by blast

text \<open>C11: One attempt of \<^verbatim>\<open>execute\<close>, from the choice of a connection through the correlation id and the table to
  the send queue, is a run of its task in the system, if what happens during its waits is what the
  other tasks of the system do: the attempt leaves the task where \<open>exec_attempt\<close> says, with the
  same connections and channels. (The loop of \<^verbatim>\<open>execute\<close> is these attempts, lemma \<open>exec_loop_attempt\<close>.)\<close>
theorem attempt_refines_system:
  assumes "env_in_system A t env" and "in_step w s" and "x_pc (b_task s t) = X_Choose a f" and "x_write (b_task s t) = iw"
    and "9 \<le> length f" and "exec_attempt env iw a f w = (p, w')"
  shows "\<exists>s'. (bridge_step A)\<^sup>*\<^sup>* s s' \<and> in_step w' s' \<and> x_pc (b_task s' t) = p"
  by (rule attempt_steps [OF assms])

section \<open>Witnesses\<close>

text \<open>While the request waits nothing happens, except that the write task of a connection with a full queue fails.\<close>

definition quiet_env :: exec_env where
  "quiet_env = sample_env\<lparr>e_room := (\<lambda>c w.
     let k = heap (w_cluster w) ! c
     in if rx_alive k \<and> queue_cap k \<le> length (send_queue k) then update_conn c (\<lambda>k. fst (write_step False k)) w else w)\<rparr>"

definition waiting_system :: bridge where
  "waiting_system = bridge_new\<lparr>b_conns := heap pool_sample, b_next_tx := 7,
     b_task := (b_task bridge_new)(3 := \<lparr>x_write = True, x_request = sample_shard_frame, x_original = 77,
       x_pc = X_Choose 0 sample_shard_frame\<rparr>)\<rparr>"

lemma quiet_room:
  assumes i: "in_step w s" and c: "c < length (b_conns s)"
  shows "\<exists>s'. (other_step A t)\<^sup>*\<^sup>* s s' \<and> in_step (e_room quiet_env c w) s'
    \<and> (rx_alive (b_conns s' ! c) \<longrightarrow> length (send_queue (b_conns s' ! c)) < queue_cap (b_conns s' ! c))"
proof (cases "rx_alive (b_conns s ! c) \<and> queue_cap (b_conns s ! c) \<le> length (send_queue (b_conns s ! c))")
  case True
  let ?k = "b_conns s ! c" and ?s = "set_conn c (fst (write_step False (b_conns s ! c))) s"
  have "0 < queue_cap ?k" using i c by (auto simp: in_step_def caps_ok_def)
  then obtain f q where "send_queue ?k = f # q" using True by (cases "send_queue ?k") auto
  then have w: "write_step False ?k = (?k\<lparr>send_queue := [], rx_alive := False, closed := True\<rparr>, None)"
    using True by (simp add: write_step_def)
  have "pool_step A s ?s" using p_write [OF c w, of A] by (simp add: w)
  then have "(other_step A t)\<^sup>*\<^sup>* s ?s" by (auto simp: other_step_def)
  moreover have "in_step (e_room quiet_env c w) ?s"
    by (rule in_step_update [OF i, of _ c "fst (write_step False ?k)"])
      (use True i w in \<open>simp_all add: in_step_def quiet_env_def update_conn_def set_conn_def Let_def\<close>)
  ultimately show ?thesis using w c by (intro exI [of _ ?s]) (simp add: set_conn_def)
next
  case False
  then have "in_step (e_room quiet_env c w) s" using i by (auto simp: in_step_def quiet_env_def Let_def)
  then show ?thesis using False by (intro exI [of _ s]) auto
qed

lemma quiet_env_in_system: "env_in_system A t quiet_env"
  unfolding env_in_system_def
proof (intro allI impI conjI)
  fix w s c
  assume i: "in_step w s"
  show "valid_hash_order (e_order quiet_env w)" by (simp add: quiet_env_def sample_env_def list_order_valid)
  have "in_step (e_between quiet_env w) s" using i by (simp add: quiet_env_def sample_env_def)
  then show "\<exists>s'. (other_step A t)\<^sup>*\<^sup>* s s' \<and> in_step (e_between quiet_env w) s'" by blast
qed (rule quiet_room)

lemma attempt_refines_system_witness:
  "\<exists>s'. (bridge_step (=))\<^sup>*\<^sup>* waiting_system s' \<and> x_pc (b_task s' 3) = X_Waiting 0 (set_clrid 1 sample_shard_frame) 0 1 7"
proof -
  have i: "in_step sample_world waiting_system"
    using pool_sample_inv by (simp add: in_step_def caps_ok_def waiting_system_def sample_world_def) (simp add: pool_sample_def sample_conn_def)
  have n: "next_leader_conn 0 pool_sample = (Some 0, pool_sample, [])"
    by (simp add: next_leader_conn_def pool_sample_def fresh_simps conn_closed_def is_closed_def sample_conn_def)
  have q: "e_between quiet_env w = w" "e_now quiet_env w = 0" for w by (simp_all add: quiet_env_def sample_env_def)
  have ch: "choose_conn quiet_env True sample_world = (Some 0, sample_world)"
    using n pool_sample_open(1) by (simp add: choose_conn_def q sample_world_def keep_log_def)
  have h: "heap pool_sample = [sample_conn, sample_conn]" by (simp add: pool_sample_def)
  obtain w2 where w2: "take_corr_id 0 sample_world = (1, w2)" "w_next_tx w2 = 7" "heap (w_cluster w2) = [sample_conn\<lparr>corr_id := 2\<rparr>, sample_conn]"
    by (simp add: take_corr_id_def next_corr_id_def update_conn_def sample_world_def h) (simp add: sample_conn_def)
  obtain w3 k where w3: "register_request quiet_env 0 1 w2 = (7, w3)" "heap (w_cluster w3) ! 0 = k" "rx_alive k" "send_queue k = []" "queue_cap k = 2048"
    using w2 by (simp add: register_request_def update_conn_def logged_def Let_def sample_conn_def)
  have "e_room quiet_env 0 w3 = w3" using w3 by (simp add: quiet_env_def Let_def)
  then obtain w' where "send_frame quiet_env 0 (set_clrid 1 sample_shard_frame) w3 = (True, w')"
    using w3 by (simp add: send_frame_def keep_log_def send_raw_def)
  then have a: "exec_attempt quiet_env True 0 sample_shard_frame sample_world = (X_Waiting 0 (set_clrid 1 sample_shard_frame) 0 1 7, w')"
    using ch w2(1) w3(1) by (simp add: exec_attempt_def)
  from attempt_refines_system [OF quiet_env_in_system i _ _ sample_shard_frame_ok(1) a, where A = "(=)" and t = 3] show ?thesis
    by (auto simp: waiting_system_def)
qed

lemma handler_refines_system_witness:
  "\<exists>sends t. fill_slot dial_ok ''h1'' 0 filling = Some t \<and> length (heap t) = Suc (length (heap filling))
    \<and> (pool_step (=))\<^sup>*\<^sup>* (bridge_new\<lparr>b_conns := heap filling\<rparr>) (after_pool t sends (bridge_new\<lparr>b_conns := heap filling\<rparr>))"
proof -
  let ?s = "bridge_new\<lparr>b_conns := heap filling\<rparr>"
  have inv: "cluster_inv filling" using fresh_handler_inv by (simp add: filling_def cluster_inv_def)
  have l: "leader_conns filling = [None]" by (simp add: filling_def fresh_simps)
  obtain t where t: "fill_slot dial_ok ''h1'' 0 filling = Some t" "length (heap t) = Suc (length (heap filling))"
    using l by (auto simp: fill_slot_def open_conn_def connect_def dial_ok_def split: sum.splits)
  have "cluster_step (filling, Sync_Fill ''h1'' [0] []) (t, Sync_Fill ''h1'' [] [])" by (rule sync_fill [OF t(1)])
  from handler_refines_system [OF this inv, of ?s "(=)"] t show ?thesis by auto
qed

end
