(* ===== verification/Rz_Delivery.thy ===== *)
theory Rz_Delivery
  imports Rz_System
begin

text \<open>
  No answer is lost: in every reachable state of the system of theory \<open>Rz_System\<close> a request that waits is
  registered in the table of the connection its frame went to, so that a node's answer to it
  completes it.
\<close>

section \<open>Waiting requests are registered\<close>

definition wait_ok :: "bridge \<Rightarrow> bool" where
  "wait_ok s \<longleftrightarrow> (\<forall>x c cid. b_home s x = Some (c, cid) \<longrightarrow> b_chan s x = Waiting_Resp \<longrightarrow>
     (\<exists>i. map_of (entries (b_conns s ! c)) cid = Some (x, i)))"

lemma wait_okD:
  assumes "wait_ok s" and "b_home s x = Some (c, cid)" and "b_chan s x = Waiting_Resp"
  obtains i where "map_of (entries (b_conns s ! c)) cid = Some (x, i)"
  using assms unfolding wait_ok_def by blast

lemma home_conn: "bridge_inv A s \<Longrightarrow> b_home s x = Some (c, cid) \<Longrightarrow> c < length (b_conns s)"
  using ids_okD(5) bridge_invD(1) bridge_invD(3) unfolding home_ok_def by fastforce

text \<open>A connection's tables change only for requests that are answered.\<close>

lemma wait_ok_set_conn:
  assumes w: "wait_ok s" and c: "c < length (b_conns s)"
    and v: "b_conns v = b_conns s" "b_home v = b_home s"
    and ch: "\<And>x. b_chan v x = Waiting_Resp \<Longrightarrow> b_chan s x = Waiting_Resp"
    and k: "\<And>cid x i. map_of (entries (b_conns s ! c)) cid = Some (x, i) \<Longrightarrow> b_chan v x = Waiting_Resp \<Longrightarrow>
      map_of (entries k) cid = Some (x, i)"
  shows "wait_ok (set_conn c k v)"
  unfolding wait_ok_def
proof (intro allI impI)
  fix x c' cid
  assume h: "b_home (set_conn c k v) x = Some (c', cid)" and x: "b_chan (set_conn c k v) x = Waiting_Resp"
  then have "b_chan s x = Waiting_Resp" using ch by (simp add: set_conn_def)
  then obtain i where "map_of (entries (b_conns s ! c')) cid = Some (x, i)"
    using w h v unfolding wait_ok_def set_conn_def by simp blast
  then show "\<exists>i. map_of (entries (b_conns (set_conn c k v) ! c')) cid = Some (x, i)"
    using k x c v by (cases "c' = c") (auto simp: set_conn_def simp del: map_of_eq_Some_iff)
qed

lemma pool_step_wait:
  assumes "pool_step A s u" and inv: "bridge_inv A s" and w: "wait_ok s"
  shows "wait_ok u"
  using assms(1)
proof cases
  case (p_open host cfg k)
  then show ?thesis using w home_conn [OF inv] by (auto simp: wait_ok_def nth_append simp del: map_of_eq_Some_iff)
next
  case (p_write c ok k out)
  then show ?thesis unfolding p_write(1)
    by (intro wait_ok_set_conn [OF w p_write(2)]) (auto simp: write_step_def split: if_splits list.splits simp del: map_of_eq_Some_iff)
next
  case (p_read c q r rs rb hdr rs' rb' k out)
  show ?thesis unfolding p_read(1)
  proof (rule wait_ok_set_conn [OF w p_read(2)])
    fix x cid i
    let ?v = "s\<lparr>b_chan := (case out of None \<Rightarrow> b_chan s | Some o1 \<Rightarrow> deliver o1 (b_chan s))\<rparr>"
    assume e: "map_of (entries (b_conns s ! c)) cid = Some (x, i)" and x: "b_chan ?v x = Waiting_Resp"
    then show "map_of (entries k) cid = Some (x, i)"
      using p_read(8)
      by (cases "cid = clr_id hdr") (auto simp: read_frame_def load_remove_def map_of_delete deliver_def
          split: option.splits prod.splits bind_splits if_splits simp del: map_of_eq_Some_iff)
  qed (auto simp: deliver_def split: option.splits if_splits)
next
  case (p_read_end c)
  then show ?thesis by (auto intro!: wait_ok_set_conn [OF w] simp: read_ended_def simp del: map_of_eq_Some_iff)
next
  case (p_cleanup c now age m sends)
  have d: "distinct (map fst (entries (b_conns s ! c)))"
    using ids_okD(4) [OF bridge_invD(1) [OF inv] p_cleanup(2)] by (simp add: conn_ok_def)
  have m: "m = fst (demux_cleanup now age (entries (b_conns s ! c)))" "sends = snd (demux_cleanup now age (entries (b_conns s ! c)))"
    using p_cleanup(3) by simp_all
  show ?thesis unfolding p_cleanup(1)
  proof (rule wait_ok_set_conn [OF w p_cleanup(2)])
    fix x cid i
    let ?v = "s\<lparr>b_chan := fold deliver sends (b_chan s)\<rparr>"
    assume e: "map_of (entries (b_conns s ! c)) cid = Some (x, i)" and x: "b_chan ?v x = Waiting_Resp"
    have "\<not> i < now - int age"
    proof
      assume "i < now - int age"
      then have "(x, []) \<in> set sends" using cleanup_sends [OF d, of x "[]" now age] e unfolding m(2) by blast
      moreover have "\<forall>(y, b) \<in> set sends. b = []" using cleanup_sends [OF d, of _ _ now age] unfolding m(2) by auto
      ultimately show False using x by (auto simp: fold_deliver split: if_splits)
    qed
    then show "map_of (entries ((b_conns s ! c)\<lparr>entries := m\<rparr>)) cid = Some (x, i)"
      using e cleanup_map [OF d, of now age cid] m(1) by (simp del: map_of_eq_Some_iff)
  next
    fix x
    have "\<forall>(y, b) \<in> set sends. b = []" using cleanup_sends [OF d, of _ _ now age] unfolding m(2) by auto
    then show "b_chan (s\<lparr>b_chan := fold deliver sends (b_chan s)\<rparr>) x = Waiting_Resp \<Longrightarrow> b_chan s x = Waiting_Resp"
      by (auto simp: fold_deliver split: if_splits)
  qed simp_all
next
  case (p_close c)
  then show ?thesis by (auto intro!: wait_ok_set_conn [OF w] simp: conn_close_def simp del: map_of_eq_Some_iff)
qed

lemma wait_ok_jump: "wait_ok (jump t p s) = wait_ok s"
  by (simp add: wait_ok_def jump_def)

lemma task_step_wait:
  assumes "task_step t s u" and inv: "bridge_inv A s" and w: "wait_ok s"
  shows "wait_ok u"
  using assms(1)
proof cases
  case (x_number a f c cid k f1)
  have c: "c < length (b_conns s)" using bridge_invD(5) [OF inv, of t] x_number(2) by (simp add: pc_ok_def)
  show ?thesis unfolding x_number(1) wait_ok_jump
    by (rule wait_ok_set_conn [OF w c]) (use x_number(3) in \<open>auto simp: next_corr_id_def simp del: map_of_eq_Some_iff\<close>)
next
  case (x_store a f c cid x k now)
  let ?v = "set_conn c (k\<lparr>entries := demux_store cid x now (entries k)\<rparr>)
      (s\<lparr>b_next_tx := x + 1, b_home := (b_home s)(x \<mapsto> (c, cid)),
         b_chan := (drop_tx (store_drops cid (entries k)) (b_chan s))(x := Waiting_Resp)\<rparr>)"
  have c: "c < length (b_conns s)" using bridge_invD(5) [OF inv, of t] x_store(2) by (simp add: pc_ok_def)
  have no: "b_home s y \<noteq> Some (c, cid)" for y using bridge_invD(6) [OF inv] x_store(2) unfolding numbered_ok_def by blast
  have "\<exists>i. map_of (entries (b_conns ?v ! c')) cid' = Some (y, i)"
    if h: "b_home ?v y = Some (c', cid')" and y: "b_chan ?v y = Waiting_Resp" for y c' cid'
  proof (cases "y = x")
    case True
    then show ?thesis using h c x_store(4) by (auto simp: set_conn_def map_of_demux_store simp del: map_of_eq_Some_iff)
  next
    case False
    then have "b_home s y = Some (c', cid')" "b_chan s y = Waiting_Resp"
      using h y by (auto simp: set_conn_def drop_tx_def split: option.splits if_splits)
    moreover from this have "(c', cid') \<noteq> (c, cid)" using no by blast
    ultimately show ?thesis using w c x_store(4)
      by (cases "c' = c") (auto simp: wait_ok_def set_conn_def map_of_demux_store simp del: map_of_eq_Some_iff)
  qed
  then show ?thesis unfolding x_store(1) wait_ok_jump by (subst wait_ok_def) blast
next
  case (x_sent a f c cid x k)
  have c: "c < length (b_conns s)" using bridge_invD(5) [OF inv, of t] x_sent(2) by (simp add: pc_ok_def)
  show ?thesis unfolding x_sent(1) wait_ok_jump
    by (rule wait_ok_set_conn [OF w c]) (use x_sent(3) in \<open>auto simp: send_raw_def split: if_splits simp del: map_of_eq_Some_iff\<close>)
next
  case (x_not_sent a f c cid x k)
  have c: "c < length (b_conns s)" using bridge_invD(5) [OF inv, of t] x_not_sent(2) by (simp add: pc_ok_def)
  show ?thesis unfolding x_not_sent(1) wait_ok_jump
    by (rule wait_ok_set_conn [OF w c]) (use x_not_sent(3) in \<open>auto simp: send_raw_def split: if_splits simp del: map_of_eq_Some_iff\<close>)
qed (use w in \<open>simp_all add: wait_ok_jump\<close>, use w in \<open>simp_all add: wait_ok_def\<close>)

lemma bridge_run_wait: "bridge_run A s \<Longrightarrow> no_wrap s \<Longrightarrow> wait_ok s"
proof (induction rule: bridge_run.induct)
  case bridge_start
  show ?case by (simp add: wait_ok_def bridge_new_def)
next
  case (bridge_task s t u)
  then show ?case using task_step_wait bridge_run_inv no_wrap_before by blast
next
  case (bridge_pool s u)
  then show ?case using pool_step_wait bridge_run_inv no_wrap_pool by blast
qed

section \<open>Properties\<close>

text \<open>C5: No lost answers: in every interleaving, when the connection a waiting request was sent over is still being
  read and the node's answer to it arrives there, the read task hands the answer to this request and the
  request returns it at once, with the router's correlation id in it. (As long as no connection
  has handed out more than $2^{32}$ ids.)\<close>
theorem answer_completes_request:
  assumes "bridge_run A s" and "no_wrap s" and "x_pc (b_task s t) = X_Waiting a f c cid x" and "b_chan s x = Waiting_Resp"
    and "reading (b_conns s ! c)" and "f \<in> set (b_wire s c)"
    and "payload_wf pl" and "A (drop 5 f) (drop 5 (prepend_header cid pl))"
  shows "\<exists>s1 s2. pool_step A s s1 \<and> task_step t s1 s2
    \<and> x_pc (b_task s2 t) = X_Done (Inr (prepend_header (x_original (b_task s t)) pl))"
proof -
  let ?r = "prepend_header cid pl" and ?k = "b_conns s ! c"
  note inv = bridge_run_inv [OF assms(1,2)]
  have w: "c < length (b_conns s)" "(cid, f) \<in> set (b_ids s c)" "b_home s x = Some (c, cid)"
    using bridge_invD(5) [OF inv, of t] assms(3) by (simp_all add: pc_ok_def)
  obtain i where i: "map_of (entries ?k) cid = Some (x, i)" by (rule wait_okD [OF bridge_run_wait [OF assms(1,2)] w(3) assms(4)])
  obtain sc where sc: "should_close (frame_header cid pl) ?r = Some sc" using should_close_frame(1) [OF assms(7)] by blast
  then obtain k where k: "read_frame (frame_header cid pl) ?r ?k = Some (k, Some (x, ?r))"
    using i by (auto simp: read_frame_def load_remove_def frame_header_def simp del: map_of_eq_Some_iff)
  have id: "clrid_field ?r = clrid_field f"
    using ids_okD(2) [OF bridge_invD(1) [OF inv] w(2)] by (simp add: clrid_field_def prepend_header_def)
  let ?s1 = "set_conn c k (s\<lparr>b_chan := deliver (x, ?r) (b_chan s)\<rparr>)"
  have p: "pool_step A s ?s1"
    using p_read [where A = A, OF w(1) assms(5,6) id assms(8) whole_frame_drained [OF assms(7), of cid] k] by simp
  have "pc_of ?s1 t = X_Waiting a f c cid x" "b_chan ?s1 x = Got ?r"
    "restore_clrid (x_original (b_task ?s1 t)) ?r = Some (prepend_header (x_original (b_task s t)) pl)"
    using assms(3,4) by (simp_all add: set_conn_def deliver_def restore_clrid_eq set_clrid_def prepend_header_def)
  from x_reply [OF this] p show ?thesis by (intro exI conjI) (auto simp: jump_def)
qed

lemma answer_completes_request_witness:
  "\<exists>s1 s2. pool_step (=) sample_wired s1 \<and> task_step 3 s1 s2 \<and> x_pc (b_task s2 3) = X_Done (Inr (prepend_header 77 sample_reply))"
  using answer_completes_request [OF sample_wired_run, of 3 0 "prepend_header 1 sample_reply" 0 1 0 sample_reply] sample_reply_wf
  by (simp add: sample_wired_def sample_sent_def sample_conn_def)

end
