(* ===== verification/Rz_Progress.thy ===== *)
theory Rz_Progress
  imports Rz_System
begin

text \<open>
  Does \<^verbatim>\<open>ClusterHandler::execute\<close> (\<^verbatim>\<open>src/cluster_handler.rs\<close>) return? In the system of theory \<open>Rz_System\<close> a request task takes a bounded
  number of steps of its own, and it is never stuck other than in one of its two awaits without a timeout: for room in the send queue of a
  connection whose write task runs, and for the response. The pauses between attempts and the choice of a connection are steps that can always be
  taken here; the locks of the choice are the subject of theory \<open>Rz_Locks\<close>.
\<close>

section \<open>Definitions\<close>

text \<open>At most so many steps are left: five for each attempt (choose, take an id, store, send, receive), and the start.\<close>

fun steps_left :: "exec_pc \<Rightarrow> nat" where
  "steps_left X_Idle = 16"
| "steps_left (X_Choose a f) = 5 * (3 - a)"
| "steps_left (X_Chosen a f c) = 5 * (3 - a) - 1"
| "steps_left (X_Numbered a f c cid) = 5 * (3 - a) - 2"
| "steps_left (X_Stored a f c cid x) = 5 * (3 - a) - 3"
| "steps_left (X_Waiting a f c cid x) = 5 * (3 - a) - 4"
| "steps_left (X_Done r) = 0"

text \<open>The awaits in which a request may stay for ever.\<close>

fun blocked_at :: "bridge \<Rightarrow> exec_pc \<Rightarrow> bool" where
  "blocked_at s (X_Stored a f c cid x) \<longleftrightarrow> rx_alive (b_conns s ! c) \<and> queue_cap (b_conns s ! c) \<le> length (send_queue (b_conns s ! c))"
| "blocked_at s (X_Waiting a f c cid x) \<longleftrightarrow> b_chan s x = Waiting_Resp"
| "blocked_at s p \<longleftrightarrow> False"

text \<open>The frames that are refused.\<close>

definition bad_frame :: "bytes \<Rightarrow> bool" where
  "bad_frame f \<longleftrightarrow> length f < 9 \<or> f ! 0 \<noteq> 0xFF"

text \<open>The invariant: the attempts are counted, the frame keeps its length, the channel that is awaited exists, and errors are the ones
  of the failed step.\<close>

definition task_safe :: "bridge \<Rightarrow> exec_task \<Rightarrow> bool" where
  "task_safe s k \<longleftrightarrow> (case x_pc k of
     X_Idle \<Rightarrow> True
   | X_Choose a f \<Rightarrow> a < 3 \<and> 9 \<le> length f \<and> \<not> bad_frame (x_request k)
   | X_Chosen a f c \<Rightarrow> a < 3 \<and> 9 \<le> length f \<and> \<not> bad_frame (x_request k)
   | X_Numbered a f c cid \<Rightarrow> a < 3 \<and> 9 \<le> length f \<and> \<not> bad_frame (x_request k)
   | X_Stored a f c cid x \<Rightarrow> a < 3 \<and> 9 \<le> length f \<and> \<not> bad_frame (x_request k) \<and> b_chan s x \<noteq> Unused
   | X_Waiting a f c cid x \<Rightarrow> a < 3 \<and> 9 \<le> length f \<and> \<not> bad_frame (x_request k) \<and> b_chan s x \<noteq> Unused
   | X_Done (Inl e) \<Rightarrow> (if bad_frame (x_request k) then e = Validation ''invalid shard frame'' else exec_error (x_write k) e)
   | X_Done (Inr b) \<Rightarrow> \<not> bad_frame (x_request k))"

section \<open>Lemmas\<close>

lemma task_safe_mono:
  "task_safe s k \<Longrightarrow> (\<And>x. b_chan s x \<noteq> Unused \<Longrightarrow> b_chan u x \<noteq> Unused) \<Longrightarrow> task_safe u k"
  by (auto simp: task_safe_def split: exec_pc.splits sum.splits)

lemma deliver_used: "ch x \<noteq> Unused \<Longrightarrow> deliver o1 ch x \<noteq> Unused"
  by (cases o1) (auto simp: deliver_def)

lemma fold_deliver_used: "ch x \<noteq> Unused \<Longrightarrow> fold deliver sends ch x \<noteq> Unused"
  by (induction sends arbitrary: ch) (auto simp: deliver_used)

lemma pool_step_used: "pool_step A s u \<Longrightarrow> b_chan s x \<noteq> Unused \<Longrightarrow> b_chan u x \<noteq> Unused"
  by (erule pool_step.cases) (auto simp: set_conn_def deliver_used fold_deliver_used split: option.splits)

lemma pool_step_tasks: "pool_step A s u \<Longrightarrow> b_task u = b_task s"
  by (erule pool_step.cases) (auto simp: set_conn_def)

lemma task_step_used: "task_step t s u \<Longrightarrow> b_chan s x \<noteq> Unused \<Longrightarrow> b_chan u x \<noteq> Unused"
  by (erule task_step.cases) (auto simp: bridge_defs drop_tx_def split: option.splits)

lemma task_step_others: "task_step t s u \<Longrightarrow> t' \<noteq> t \<Longrightarrow> b_task u t' = b_task s t'"
  by (erule task_step.cases) (auto simp: bridge_defs)

lemma task_step_own:
  assumes "task_step t s u" and "task_safe s (b_task s t)"
  shows "task_safe u (b_task u t) \<and> steps_left (pc_of u t) < steps_left (pc_of s t)"
  using assms(1)
proof cases
  case (x_number a f c cid k f1)
  then have "9 \<le> length f1" using assms(2) by (auto simp: task_safe_def copy_from_slice_def split: if_splits)
  with x_number assms(2) show ?thesis by (auto simp: task_safe_def bridge_defs)
qed (use assms(2) in \<open>auto simp: task_safe_def bridge_defs failed_attempt_def exec_error_def bad_frame_def drop_tx_def split: option.splits\<close>)

lemma bridge_run_safe: "bridge_run A s \<Longrightarrow> task_safe s (b_task s t)"
proof (induction arbitrary: t rule: bridge_run.induct)
  case bridge_start
  show ?case by (simp add: task_safe_def bridge_new_def)
next
  case (bridge_task s t' u)
  show ?case
  proof (cases "t = t'")
    case True
    then show ?thesis using task_step_own [OF bridge_task(2)] bridge_task.IH by blast
  next
    case False
    then show ?thesis using task_step_others [OF bridge_task(2)] task_safe_mono [OF bridge_task.IH task_step_used [OF bridge_task(2)]] by metis
  qed
next
  case (bridge_pool s u)
  then show ?case using pool_step_tasks [OF bridge_pool(2)] task_safe_mono [OF bridge_pool.IH pool_step_used [OF bridge_pool(2)]] by metis
qed

text \<open>A task that has not returned and is not blocked has a step.\<close>

lemma task_can_step:
  assumes "task_safe s (b_task s t)" and "\<nexists>r. pc_of s t = X_Done r" and "\<not> blocked_at s (pc_of s t)"
  shows "\<exists>u. task_step t s u"
proof (cases "pc_of s t")
  case X_Idle
  then show ?thesis using x_reject [of s t "[]"] by auto
next
  case (X_Choose a f)
  then show ?thesis using x_no_conn by blast
next
  case (X_Chosen a f c)
  then have "9 \<le> length f" using assms(1) by (simp add: task_safe_def)
  then have "copy_from_slice f 1 5 (u32_to_le (fst (next_corr_id (b_conns s ! c)))) = Some (set_clrid (fst (next_corr_id (b_conns s ! c))) f)"
    by (rule copy_clrid)
  then show ?thesis using x_number [OF X_Chosen, of "fst (next_corr_id (b_conns s ! c))"] by (metis prod.collapse)
next
  case (X_Numbered a f c cid)
  then show ?thesis using x_store by blast
next
  case (X_Stored a f c cid x)
  then have "fst (send_raw f (b_conns s ! c)) = Ready True \<or> fst (send_raw f (b_conns s ! c)) = Ready False"
    using assms(3) by (auto simp: send_raw_def)
  then show ?thesis using x_sent [OF X_Stored] x_not_sent [OF X_Stored] by (metis prod.collapse)
next
  case (X_Waiting a f c cid x)
  then have "b_chan s x \<noteq> Unused" "b_chan s x \<noteq> Waiting_Resp" using assms(1,3) by (simp_all add: task_safe_def)
  then show ?thesis using x_reply [OF X_Waiting _ restore_clrid_eq] x_dropped [OF X_Waiting] by (cases "b_chan s x") auto
qed (use assms(2) in auto)

lemma blocked_cannot_step: "task_step t s u \<Longrightarrow> (\<nexists>r. pc_of s t = X_Done r) \<and> \<not> blocked_at s (pc_of s t)"
  by (erule task_step.cases) (auto simp: send_raw_def split: if_splits)

section \<open>Properties\<close>



end
