(* ===== verification/Rz_Exchange.thy ===== *)
theory Rz_Exchange
  imports Rz_Execute Rz_Expiry
begin

text \<open>
  One request through the whole cluster side: \<^verbatim>\<open>execute\<close> (\<^verbatim>\<open>src/cluster_handler.rs\<close>) chooses a connection, registers itself and sends its frame; the
  connection's write task writes it, the node answers, and the connection's read task (\<^verbatim>\<open>src/connection.rs\<close>) takes the answer off
  the socket and hands it over. Unlike in theory \<open>Rz_Execute\<close>, the reply is not a parameter here: it is what the connection's own
  tasks make of the node's bytes.
\<close>

section \<open>The connection's tasks and the node while a request waits\<close>

text \<open>The write task, whose writes succeed: at most \<open>n\<close> turns, and the frames written.\<close>

fun run_writer :: "nat \<Rightarrow> conn \<Rightarrow> conn \<times> bytes list" where
  "run_writer 0 k = (k, [])"
| "run_writer (Suc n) k =
     (case write_step True k of
        (k1, None) \<Rightarrow> (k1, [])
      | (k1, Some f) \<Rightarrow> (let (k2, fs) = run_writer n k1 in (k2, f # fs)))"

text \<open>A node answers a frame under its id; the payload of the answer is a function of the request without magic byte and id.\<close>

definition node_frame :: "(bytes \<Rightarrow> bytes) \<Rightarrow> bytes \<Rightarrow> bytes" where
  "node_frame answer f = prepend_header (the (u32_from_le (clrid_field f))) (answer (drop 5 f))"

text \<open>The queue is written, and the node's answer to the last frame of it arrives, cut into reads by \<open>chunk\<close>.\<close>

definition exchange :: "(bytes \<Rightarrow> bytes) \<Rightarrow> (bytes \<Rightarrow> bytes list) \<Rightarrow> conn \<Rightarrow> conn \<times> (tx \<times> bytes) list" where
  "exchange answer chunk k =
     (let (k1, fs) = run_writer (length (send_queue k)) k
      in if fs = [] then (k1, [])
         else case read_loop (map Bytes_Read (chunk (node_frame answer (last fs)))) [] k1 of
             None \<Rightarrow> (k1, [])
           | Some (k2, outs, _, _) \<Rightarrow> (k2, outs))"

text \<open>The environment in which nothing else happens while a request waits.\<close>

definition conn_env :: "(world \<Rightarrow> hash_order) \<Rightarrow> (world \<Rightarrow> instant) \<Rightarrow> (bytes \<Rightarrow> bytes) \<Rightarrow> (bytes \<Rightarrow> bytes list) \<Rightarrow> exec_env" where
  "conn_env ho now answer chunk = \<lparr>e_order = ho, e_now = now, e_between = (\<lambda>w. w), e_room = (\<lambda>_ w. w),
     e_reply = (\<lambda>c cid t w. let (k, outs) = exchange answer chunk (heap (w_cluster w) ! c) in (map_of outs t, update_conn c (\<lambda>_. k) w)),
     e_sleep = (\<lambda>_ w. w)\<rparr>"

definition chunks_reads :: "(bytes \<Rightarrow> bytes list) \<Rightarrow> bool" where
  "chunks_reads chunk \<longleftrightarrow> (\<forall>b. concat (chunk b) = b \<and> [] \<notin> set (chunk b))"

text \<open>The tasks of the open connections run, and their queues have room.\<close>

definition tasks_run :: "cluster \<Rightarrow> bool" where
  "tasks_run s \<longleftrightarrow> (\<forall>k \<in> set (heap s). \<not> closed k \<longrightarrow> rx_alive k \<and> reading k \<and> length (send_queue k) < queue_cap k)"

text \<open>A connection of the kind a request asks for.\<close>

definition of_kind :: "bool \<Rightarrow> cluster \<Rightarrow> conn_ref \<Rightarrow> bool" where
  "of_kind iw s c \<longleftrightarrow> (if iw then Some c \<in> set (leader_conns s) else \<exists>k. map_of (followers s) k = Some c)"

section \<open>Lemmas\<close>

lemma run_writer_all: "rx_alive k \<Longrightarrow> run_writer (length (send_queue k)) k = (k\<lparr>send_queue := []\<rparr>, send_queue k)"
proof (induction "send_queue k" arbitrary: k)
  case Nil
  then have "k\<lparr>send_queue := []\<rparr> = k" by simp
  then show ?case using Nil by (simp flip: Nil(1))
next
  case (Cons f q)
  then have "run_writer (length q) (k\<lparr>send_queue := q\<rparr>) = (k\<lparr>send_queue := []\<rparr>, q)"
    using Cons.hyps(1) [of "k\<lparr>send_queue := q\<rparr>"] by simp
  then show ?case using Cons.prems by (simp add: write_step_def flip: Cons.hyps(2))
qed

lemma read_one_reply:
  assumes wf: "payload_wf pl" and r: "reading k" and m: "map_of (entries k) cid = Some (t, i)"
    and cs: "concat cs = prepend_header cid pl" "[] \<notin> set cs"
  shows "\<exists>k'. read_loop (map Bytes_Read cs) [] k = Some (k', [(t, prepend_header cid pl)], [], [])"
proof -
  let ?f = "prepend_header cid pl"
  have ne: "\<forall>c \<in> set cs. c \<noteq> []" using cs(2) by auto
  obtain j b' where d: "drain_frame_async (map Bytes_Read cs) [] = Some (Ready (Inr (frame_header cid pl, ?f)), map Bytes_Read (drop j cs), b')"
    and e: "b' @ concat (drop j cs) = []" using drain_frame_chunks [OF wf ne, of "[]" cid "[]"] cs(1) by auto
  have b': "b' = []" and "\<forall>x \<in> set (drop j cs). x = []" using e by simp_all
  then have rest: "drop j cs = []" using ne by (metis in_set_dropD list.set_intros(1) neq_Nil_conv)
  obtain sc where sc: "should_close (frame_header cid pl) ?f = Some sc" using should_close_frame(1) [OF wf] by blast
  then obtain k1 where k1: "read_frame (frame_header cid pl) ?f k = Some (k1, Some (t, ?f))"
    using m by (auto simp: read_frame_def load_remove_def frame_header_def simp del: map_of_eq_Some_iff)
  have "read_loop [] [] k1 = Some (k1, [], [], [])" by (simp add: read_loop.simps drain_frame_async_def)
  then show ?thesis using d k1 rest b' by (simp add: read_loop.simps [of "map Bytes_Read cs"])
qed

text \<open>A request that is registered and whose frame is last in the queue gets the node's answer.\<close>

lemma exchange_answers:
  assumes "rx_alive k" and "reading k" and "map_of (entries k) cid = Some (t, i)" and "send_queue k = q @ [f]"
    and "clrid_field f = u32_to_le cid" and "payload_wf (answer (drop 5 f))" and "chunks_reads chunk"
  shows "\<exists>k'. exchange answer chunk k = (k', [(t, prepend_header cid (answer (drop 5 f)))])"
proof -
  let ?r = "prepend_header cid (answer (drop 5 f))"
  have n: "node_frame answer f = ?r" using assms(5) by (simp add: node_frame_def)
  have "\<exists>k'. read_loop (map Bytes_Read (chunk ?r)) [] (k\<lparr>send_queue := []\<rparr>) = Some (k', [(t, ?r)], [], [])"
    by (rule read_one_reply) (use assms in \<open>simp_all add: chunks_reads_def\<close>)
  then show ?thesis using run_writer_all [OF assms(1)] assms(4) n by (auto simp: exchange_def)
qed

lemma choose_serviceable:
  assumes sv: "serviceable env iw w" and bt: "\<And>u. e_between env u = u"
  shows "\<exists>c w1. choose_conn env iw w = (Some c, w1) \<and> c < length (heap (w_cluster w)) \<and> \<not> conn_closed (w_cluster w) c
    \<and> of_kind iw (w_cluster w) c \<and> heap (w_cluster w1) ! c = heap (w_cluster w) ! c \<and> length (heap (w_cluster w1)) = length (heap (w_cluster w))"
proof -
  let ?s = "w_cluster w"
  have inv: "cluster_inv ?s" using sv by (simp add: serviceable_def)
  obtain res t sends where n: "(if iw then next_leader_conn (e_now env w) ?s
      else next_follower_conn (e_order env w) (e_now env w) ?s) = (res, t, sends)" by (rule prod_cases3)
  have ex: "only_closed_expire ?s t sends" using n next_conn_only_closed by (metis (full_types))
  have "\<exists>c. res = Some c \<and> \<not> conn_closed ?s c \<and> c < length (heap ?s) \<and> of_kind iw ?s c \<and> length (heap t) = length (heap ?s)"
  proof (cases iw)
    case True
    then have nl: "next_leader_conn (e_now env w) ?s = (res, t, sends)" using n by simp
    note sp = next_leader_spec [OF inv nl]
    have "res \<noteq> None" using sp sv True by (cases res) (auto simp: serviceable_def)
    then obtain c j where c: "res = Some c" "j < per_node ?s" "leader_conns ?s ! ((leader_start ?s + j) mod per_node ?s) = Some c"
      "\<not> conn_closed ?s c" using sp by auto
    then have "Some c \<in> set (leader_conns ?s)" using inv by (metis cluster_inv_def nth_mem mod_less_divisor gr_implies_not_zero gr0I)
    moreover from this have "c < length (heap ?s)" using inv by (simp add: cluster_inv_def)
    ultimately show ?thesis using c sp True by (auto simp: leader_keeps_def of_kind_def)
  next
    case False
    then have nf: "next_follower_conn (e_order env w) (e_now env w) ?s = (res, t, sends)" using n by simp
    have ho: "valid_hash_order (e_order env w)" and d: "dense_history ?s" and o: "any_follower_conn ?s"
      using sv False by (simp_all add: serviceable_def)
    have k: "pick_keeps ?s t" "\<forall>r. res = Some r \<longrightarrow> \<not> conn_closed ?s r \<and> (\<exists>k. map_of (followers t) k = Some r)"
      using follower_rounds_keeps [OF ho inv nf [unfolded next_follower_conn_def]] by blast+
    obtain nm i c r where "map_of (followers ?s) (nm, i, c) = Some r" "\<not> conn_closed ?s r"
      using any_followerE [OF inv o] by blast
    from next_follower_complete [OF ho inv d this, of "e_now env w"] nf have "res \<noteq> None" by simp
    then obtain q k' where q: "res = Some q" "\<not> conn_closed ?s q" "map_of (followers t) k' = Some q" using k(2) by auto
    then have m: "map_of (followers ?s) k' = Some q" using k(1) unfolding pick_keeps_def only_closed_def by (metis option.distinct(1))
    then have "q < length (heap ?s)" using inv unfolding cluster_inv_def pool_inv_def by (cases k') blast
    moreover have "of_kind iw ?s q" using m False unfolding of_kind_def by metis
    ultimately show ?thesis using q(1,2) k(1) by (simp add: pick_keeps_def)
  qed
  then obtain c where c: "res = Some c" "\<not> conn_closed ?s c" "c < length (heap ?s)" "of_kind iw ?s c" "length (heap t) = length (heap ?s)" by blast
  have "heap t ! c = heap ?s ! c" "conn_closed t c = conn_closed ?s c" using ex c(2) unfolding only_closed_expire_def by simp_all
  then show ?thesis using n c by (auto simp: choose_conn_def Let_def keep_log_def bt)
qed

text \<open>\<^verbatim>\<open>execute\<close> returns the node's answer at the first attempt.\<close>

lemma execute_exchange:
  assumes sv: "serviceable (conn_env ho now answer chunk) iw w" and run: "tasks_run (w_cluster w)" and chunk: "chunks_reads chunk"
    and wf: "payload_wf (answer (drop 5 f))" and f: "9 \<le> length f" "f ! 0 = 0xFF" "clrid_field f = u32_to_le original"
  shows "\<exists>w' c cid t. execute (conn_env ho now answer chunk) iw f w = Some (Inr (prepend_header original (answer (drop 5 f))), w')
    \<and> w_log w' = w_log w @ [Registered c cid t, Sent_Frame c (set_clrid cid f) True, Answered t (Some (prepend_header cid (answer (drop 5 f))))]
    \<and> of_kind iw (w_cluster w) c \<and> \<not> conn_closed (w_cluster w) c"
proof -
  let ?env = "conn_env ho now answer chunk"
  obtain c w1 where c: "choose_conn ?env iw w = (Some c, w1)" and cl: "c < length (heap (w_cluster w))" "\<not> conn_closed (w_cluster w) c"
    "of_kind iw (w_cluster w) c" and h1: "heap (w_cluster w1) ! c = heap (w_cluster w) ! c" "length (heap (w_cluster w1)) = length (heap (w_cluster w))"
    using choose_serviceable [OF sv] by (auto simp: conn_env_def)
  let ?k = "heap (w_cluster w) ! c"
  have k: "rx_alive ?k" "reading ?k" "length (send_queue ?k) < queue_cap ?k"
    using run cl nth_mem [OF cl(1)] unfolding tasks_run_def conn_closed_def is_closed_def by blast+
  obtain cid w2 where t2: "take_corr_id c w1 = (cid, w2)" by (cases "take_corr_id c w1")
  obtain t w3 where t3: "register_request ?env c cid w2 = (t, w3)" by (cases "register_request ?env c cid w2")
  let ?g = "set_clrid cid f" and ?k3 = "?k\<lparr>corr_id := corr_id ?k + 1, entries := demux_store cid t (now w2) (entries ?k)\<rparr>"
  have h3: "heap (w_cluster w3) ! c = ?k3" "length (heap (w_cluster w3)) = length (heap (w_cluster w))"
    using t2 t3 h1 cl(1) by (auto simp: take_corr_id_def register_request_def update_conn_def logged_def next_corr_id_def conn_env_def Let_def)
  obtain ok w4 where t4: "send_frame ?env c ?g w3 = (ok, w4)" by (cases "send_frame ?env c ?g w3")
  have ok: ok and h4: "heap (w_cluster w4) ! c = ?k3\<lparr>send_queue := send_queue ?k @ [?g]\<rparr>"
    using t4 h3 k cl(1) by (auto simp: send_frame_def send_raw_def keep_log_def conn_env_def update_conn_def logged_def Let_def)
  have dg: "drop 5 ?g = drop 5 f" using f(1) by (simp add: set_clrid_def)
  have "map_of (demux_store cid t (now w2) (entries ?k)) cid = Some (t, now w2)" by (simp add: map_of_demux_store)
  then obtain k' where ex: "exchange answer chunk (heap (w_cluster w4) ! c) = (k', [(t, prepend_header cid (answer (drop 5 f)))])"
    using exchange_answers [of "heap (w_cluster w4) ! c" cid t "now w2" "send_queue ?k" ?g answer chunk] k h4 set_clrid_field [OF f(1)] wf chunk dg
    by (auto simp del: map_of_eq_Some_iff)
  let ?r = "prepend_header cid (answer (drop 5 f))"
  obtain w5 where t5: "await_reply ?env c cid t w4 = (Some ?r, w5)"
    using ex by (auto simp: await_reply_def conn_env_def)
  have log: "w_log w5 = w_log w @ [Registered c cid t, Sent_Frame c ?g True, Answered t (Some ?r)]"
    using await_log [OF t5] send_frame_log [OF t4] register_log [OF t3] take_corr_id_log [OF t2] choose_conn_log [OF c] ok by simp
  obtain orig where o: "execute ?env iw f w = exec_loop ?env iw orig 0 3 f w" "clrid_field f = u32_to_le orig" using execute_loop [OF f(1,2)] by blast
  then have "orig = original" using f(3) by simp
  moreover have "exec_loop ?env iw orig 0 3 f w = Some (Inr (set_clrid orig ?r), w5)"
    using c t2 t3 t4 t5 ok copy_clrid [OF f(1), of cid] by (simp add: numeral_3_eq_3 Let_def restore_clrid_eq prepend_header_def)
  moreover have "set_clrid original ?r = prepend_header original (answer (drop 5 f))" by (simp add: set_clrid_def prepend_header_def)
  ultimately show ?thesis using o(1) log cl(2,3) by auto
qed

lemma sample_tasks_run: "tasks_run (w_cluster sample_world)"
  by (simp add: tasks_run_def sample_world_def pool_sample_def sample_conn_def)

lemma sample_chunks: "chunks_reads (map (\<lambda>x. [x]))"
  by (auto simp: chunks_reads_def)

lemma sample_serviceable: "serviceable env True sample_world"
proof -
  have "open_slot pool_sample 0" using pool_sample_open by (simp add: open_slot_def) (simp add: pool_sample_def)
  then show ?thesis using pool_sample_inv by (auto simp: serviceable_def sample_world_def)
qed

end
