(* ===== verification/Rz_Service.thy ===== *)
theory Rz_Service
  imports Rz_System Rz_Tcp_Server
begin

text \<open>
  The running service: any number of router connections (\<^verbatim>\<open>src/tcp_server.rs\<close>) over the system of requests and
  node connections of theory \<open>Rz_System\<close>. The task of a router connection runs the code of theory \<open>Rz_Tcp_Server\<close> and stops where
  it awaits something: \<open>T_Reading\<close> in the read, \<open>T_Calling t\<close> in \<^verbatim>\<open>cluster.execute\<close>, which is the request task \<open>t\<close> of the
  system. The accept loop spawns the tasks and the counter of open connections follows their close messages
  (\<open>server_step\<close>). The counters of the metrics are kept per task, as what the task has added to the
  shared ones.
\<close>

section \<open>The service\<close>

datatype router_pc = T_None | T_Reading | T_Draining | T_Calling nat | T_Over | T_Dead

fun is_running :: "router_pc \<Rightarrow> bool" where
  "is_running T_Reading = True"
| "is_running T_Draining = True"
| "is_running (T_Calling t) = True"
| "is_running _ = False"

record router_task =
  rt_pc :: router_pc
  rt_h :: handler

record service =
  v_bridge :: bridge
  v_server :: server
  v_tasks :: "nat \<Rightarrow> router_task"

definition fresh_router :: "instant \<Rightarrow> handler" where
  "fresh_router now = \<lparr>buf = [], last_frame_time = now, metrics = BridgeMetrics_new, log = []\<rparr>"

definition service_new :: service where
  "service_new = \<lparr>v_bridge = bridge_new, v_server = server_new, v_tasks = (\<lambda>_. \<lparr>rt_pc = T_None, rt_h = fresh_router 0\<rparr>)\<rparr>"

text \<open>One turn of the drain loop with the time it reads, the result of its execution and the outcome of its write.\<close>

definition given_io :: "instant \<Rightarrow> bytes rz_result \<Rightarrow> bool \<Rightarrow> unit server_io" where
  "given_io now r ok = \<lparr>io_now = (\<lambda>_. (now, ())), io_execute = (\<lambda>_ _ _. (r, ())), io_write_all = (\<lambda>_ _. (ok, ())), io_flush = (\<lambda>_. ())\<rparr>"

text \<open>The request a turn of the drain loop executes, if it does.\<close>

definition request_of :: "Config \<Rightarrow> handler \<Rightarrow> (bool \<times> bytes) option" where
  "request_of cfg h =
     (if length (buf h) > max_buffer_size cfg then None
      else case try_decode_router (buf h) of
          Some (Frame flen seg iw sf off cid) \<Rightarrow>
            (if flen > max_frame_size cfg \<or> seg = KEEPALIVE_SEGMENT then None else Some (iw, sf))
        | _ \<Rightarrow> None)"

text \<open>Where a turn leaves the task, and what the end of a task does to the server's counters: a task that returns has
  sent its close message, one that panics would not have.\<close>

fun pc_after :: "control \<Rightarrow> router_pc" where
  "pc_after Continue = T_Draining"
| "pc_after Break = T_Reading"
| "pc_after Return = T_Over"
| "pc_after Panic = T_Dead"

fun depart :: "router_pc \<Rightarrow> server \<Rightarrow> server" where
  "depart T_Over s = s\<lparr>live := live s - 1, pending := pending s + 1\<rparr>"
| "depart T_Dead s = s\<lparr>live := live s - 1\<rparr>"
| "depart _ s = s"

definition turn :: "nat \<Rightarrow> router_pc \<Rightarrow> handler \<Rightarrow> service \<Rightarrow> service" where
  "turn j p h v = v\<lparr>v_server := depart p (v_server v), v_tasks := (v_tasks v)(j := \<lparr>rt_pc = p, rt_h = h\<rparr>)\<rparr>"

inductive service_step :: "Config \<Rightarrow> (bytes \<Rightarrow> bytes \<Rightarrow> bool) \<Rightarrow> service \<Rightarrow> service \<Rightarrow> bool" for cfg A where
  sv_pool: "pool_step A (v_bridge v) b \<Longrightarrow> service_step cfg A v (v\<lparr>v_bridge := b\<rparr>)"
| sv_exec: "pc_of (v_bridge v) t \<noteq> X_Idle \<Longrightarrow> task_step t (v_bridge v) b \<Longrightarrow> service_step cfg A v (v\<lparr>v_bridge := b\<rparr>)"
| sv_server: "server_step cfg (v_server v) s \<Longrightarrow> live s = live (v_server v) \<Longrightarrow> service_step cfg A v (v\<lparr>v_server := s\<rparr>)"
| sv_spawn: "admitted (v_server v) \<Longrightarrow> rt_pc (v_tasks v j) = T_None \<Longrightarrow>
    service_step cfg A v (v\<lparr>v_server := (v_server v)\<lparr>admitted := False, active := as_u64 (active (v_server v) + 1),
        live := live (v_server v) + 1\<rparr>,
      v_tasks := (v_tasks v)(j := \<lparr>rt_pc = T_Reading, rt_h = fresh_router now\<rparr>)\<rparr>)"
| sv_read: "v_tasks v j = \<lparr>rt_pc = T_Reading, rt_h = h\<rparr> \<Longrightarrow> bs \<noteq> [] \<Longrightarrow>
    service_step cfg A v (turn j T_Draining (bump (add_bytes_received (length bs)) (h\<lparr>buf := buf h @ bs\<rparr>)) v)"
| sv_stop: "v_tasks v j = \<lparr>rt_pc = T_Reading, rt_h = h\<rparr> \<Longrightarrow> (\<And>bs. ev = Read_Ok bs \<Longrightarrow> bs = []) \<Longrightarrow>
    handle_event (given_io now r ok) cfg ev h () = (Break, h', ()) \<Longrightarrow>
    service_step cfg A v (turn j T_Over (emit [Close_Sent] h') v)"
| sv_drain: "v_tasks v j = \<lparr>rt_pc = T_Draining, rt_h = h\<rparr> \<Longrightarrow> request_of cfg h = None \<Longrightarrow>
    drain_iteration (given_io now r ok) cfg h () = (c, h', ()) \<Longrightarrow> service_step cfg A v (turn j (pc_after c) h' v)"
| sv_call: "v_tasks v j = \<lparr>rt_pc = T_Draining, rt_h = h\<rparr> \<Longrightarrow> request_of cfg h = Some (iw, sf) \<Longrightarrow>
    pc_of (v_bridge v) t = X_Idle \<Longrightarrow> task_step t (v_bridge v) b \<Longrightarrow> x_request (b_task b t) = sf \<Longrightarrow>
    (pc_of b t = X_Choose 0 sf \<Longrightarrow> x_write (b_task b t) = iw) \<Longrightarrow>
    service_step cfg A v (turn j (T_Calling t) h (v\<lparr>v_bridge := b\<rparr>))"
| sv_return: "v_tasks v j = \<lparr>rt_pc = T_Calling t, rt_h = h\<rparr> \<Longrightarrow> pc_of (v_bridge v) t = X_Done r \<Longrightarrow>
    drain_iteration (given_io now r ok) cfg h () = (c, h', ()) \<Longrightarrow> service_step cfg A v (turn j (pc_after c) h' v)"

inductive service_run :: "Config \<Rightarrow> (bytes \<Rightarrow> bytes \<Rightarrow> bool) \<Rightarrow> service \<Rightarrow> bool" for cfg A where
  service_start: "service_run cfg A service_new"
| service_more: "service_run cfg A v \<Longrightarrow> service_step cfg A v u \<Longrightarrow> service_run cfg A u"

section \<open>The parts of a run\<close>

lemma turn_simps [simp]:
  "v_bridge (turn j p h v) = v_bridge v" "v_server (turn j p h v) = depart p (v_server v)"
  "v_tasks (turn j p h v) = (v_tasks v)(j := \<lparr>rt_pc = p, rt_h = h\<rparr>)"
  by (simp_all add: turn_def)

lemma service_bridge: "service_run cfg A v \<Longrightarrow> bridge_run A (v_bridge v)"
proof (induction rule: service_run.induct)
  case service_start
  show ?case by (simp add: service_new_def bridge_run.bridge_start)
next
  case (service_more v u)
  from service_more(2,3) show ?case by cases (auto intro: bridge_task bridge_pool)
qed

lemma no_wrap_service: "service_step cfg A v u \<Longrightarrow> no_wrap (v_bridge u) \<Longrightarrow> no_wrap (v_bridge v)"
  by (erule service_step.cases) (auto dest: no_wrap_pool no_wrap_before)

text \<open>The counter of running tasks counts the tasks that run.\<close>

definition running_tasks :: "service \<Rightarrow> nat set" where
  "running_tasks v = {j. is_running (rt_pc (v_tasks v j))}"

definition served_ok :: "Config \<Rightarrow> service \<Rightarrow> bool" where
  "served_ok cfg v \<longleftrightarrow> server_reachable cfg (v_server v) \<and> finite (running_tasks v) \<and> live (v_server v) = card (running_tasks v)
     \<and> (\<forall>j. rt_pc (v_tasks v j) \<noteq> T_Dead)"

lemma running_update:
  "v_tasks u = (v_tasks v)(j := k) \<Longrightarrow> running_tasks u =
    (if is_running (rt_pc k) then insert j (running_tasks v) else running_tasks v - {j})"
  by (auto simp: running_tasks_def)

lemma in_running: "v_tasks v j = \<lparr>rt_pc = p, rt_h = h\<rparr> \<Longrightarrow> is_running p \<Longrightarrow> j \<in> running_tasks v"
  by (simp add: running_tasks_def)

lemma turn_served:
  assumes ok: "served_ok cfg v" and r: "j \<in> running_tasks v" and p: "is_running p \<or> p = T_Over"
  shows "served_ok cfg (turn j p h v)"
proof -
  have fin: "finite (running_tasks v)" and l: "live (v_server v) = card (running_tasks v)" and s: "server_reachable cfg (v_server v)"
    using ok by (simp_all add: served_ok_def)
  have run: "running_tasks (turn j p h v) = (if is_running p then running_tasks v else running_tasks v - {j})"
    using r by (simp add: running_update [of _ v j] insert_absorb)
  show ?thesis
  proof (cases "is_running p")
    case True
    then have "depart p (v_server v) = v_server v" "p \<noteq> T_Dead" by (cases p; simp)+
    then show ?thesis using ok True run by (simp add: served_ok_def)
  next
    case False
    then have p: "p = T_Over" using p by simp
    have "0 < live (v_server v)" using l fin r by (auto simp: card_gt_0_iff)
    then have "server_reachable cfg (depart p (v_server v))" using server_more [OF s conn_done] p by simp
    then show ?thesis using ok p run fin l r by (simp add: served_ok_def)
  qed
qed

lemma pc_after_running: "c \<noteq> Panic \<Longrightarrow> is_running (pc_after c) \<or> pc_after c = T_Over"
  by (cases c) simp_all

lemma service_step_served:
  assumes "service_step cfg A v u" and ok: "served_ok cfg v"
  shows "served_ok cfg u"
  using assms(1)
proof cases
  case (sv_server s)
  then show ?thesis using ok server_more by (auto simp: served_ok_def running_tasks_def)
next
  case (sv_spawn j now)
  let ?s = "v_server v"
  have "server_reachable cfg (?s\<lparr>admitted := False, active := as_u64 (active ?s + 1), live := live ?s + 1\<rparr>)"
    using ok server_more [OF _ accept_spawn [OF sv_spawn(2)]] by (simp add: served_ok_def)
  moreover have "j \<notin> running_tasks v" using sv_spawn(3) by (simp add: running_tasks_def)
  moreover have "running_tasks u = insert j (running_tasks v)" using sv_spawn(1) running_update [of u v j] by simp
  ultimately show ?thesis using ok sv_spawn(1) by (auto simp: served_ok_def)
next
  case (sv_call j h iw sf t b)
  have "served_ok cfg (v\<lparr>v_bridge := b\<rparr>)" using ok by (simp add: served_ok_def running_tasks_def)
  then show ?thesis unfolding sv_call(1) by (rule turn_served) (use sv_call(2) in \<open>simp_all add: running_tasks_def\<close>)
next
  case (sv_drain j h now r ok c h')
  have "c \<noteq> Panic" using drain_iteration_ok [OF sv_drain(4)] by (simp add: iter_ok_def)
  then show ?thesis unfolding sv_drain(1) by (intro turn_served [OF assms(2)] pc_after_running) (simp add: in_running [OF sv_drain(2)])
next
  case (sv_return j t h r now ok c h')
  have "c \<noteq> Panic" using drain_iteration_ok [OF sv_return(4)] by (simp add: iter_ok_def)
  then show ?thesis unfolding sv_return(1) by (intro turn_served [OF assms(2)] pc_after_running) (simp add: in_running [OF sv_return(2)])
next
  case (sv_read j h bs)
  then show ?thesis by (simp add: turn_served [OF assms(2)] in_running [OF sv_read(2)])
next
  case (sv_stop j h ev now r ok h')
  then show ?thesis by (simp add: turn_served [OF assms(2)] in_running [OF sv_stop(2)])
qed (use ok in \<open>simp_all add: served_ok_def running_tasks_def\<close>)

lemma service_served: "service_run cfg A v \<Longrightarrow> served_ok cfg v"
proof (induction rule: service_run.induct)
  case service_start
  show ?case by (simp add: served_ok_def running_tasks_def service_new_def server_start) (simp add: server_new_def)
next
  case (service_more v u)
  then show ?case using service_step_served by blast
qed

section \<open>Each router task is a run of handle_connection\<close>

text \<open>A world for \<open>handle_connection\<close> in which the outcomes of the turns are written down in advance.\<close>

type_synonym foretold = "instant \<times> bytes rz_result \<times> bool"

definition script_io :: "(foretold \<times> foretold list) server_io" where
  "script_io = \<lparr>io_now = (\<lambda>(cur, os). case os of [] \<Rightarrow> (fst cur, (cur, [])) | nxt # rest \<Rightarrow> (fst nxt, (nxt, rest))),
     io_execute = (\<lambda>_ _ w. (fst (snd (fst w)), w)), io_write_all = (\<lambda>_ w. (snd (snd (fst w)), w)), io_flush = (\<lambda>w. w)\<rparr>"

definition no_foretold :: foretold where
  "no_foretold = (0, Inr [], True)"

lemma script_simps [simp]:
  "io_now script_io (cur, nxt # rest) = (fst nxt, (nxt, rest))" "io_execute script_io iw sf w = (fst (snd (fst w)), w)"
  "io_write_all script_io b w = (snd (snd (fst w)), w)" "io_flush script_io w = w"
  by (simp_all add: script_io_def)

lemma given_simps [simp]:
  "io_now (given_io now r ok) x = (now, ())" "io_execute (given_io now r ok) iw sf x = (r, ())"
  "io_write_all (given_io now r ok) b x = (ok, ())" "io_flush (given_io now r ok) x = ()"
  by (simp_all add: given_io_def)

lemma do_request_script:
  "do_request (given_io now r ok) iw sf cid h () = (c, h', ()) \<Longrightarrow>
   do_request script_io iw sf cid h ((now, r, ok), rest) = (c, h', ((now, r, ok), rest))"
  by (auto simp: do_request_def Let_def split: sum.splits if_splits)

lemma on_parse_error_script: "on_parse_error h () = (c, h', ()) \<Longrightarrow> on_parse_error h w = (c, h', w)"
  by (auto simp: on_parse_error_def Let_def split: if_splits option.splits)

lemma on_frame_script:
  assumes "on_frame (given_io now r ok) cfg flen seg iw sf cid h () = (c, h', ())" and "\<not> flen > max_frame_size cfg"
  shows "on_frame script_io cfg flen seg iw sf cid h (cur, (now, r, ok) # rest) = (c, h', ((now, r, ok), rest))"
  using assms by (auto simp: on_frame_def Let_def do_request_script split: option.splits if_splits)

text \<open>A turn of the drain loop takes at most one entry of the script.\<close>

lemma iteration_script:
  assumes it: "drain_iteration (given_io now r ok) cfg h () = (c, h', ())"
  shows "\<exists>os cur'. \<forall>rest. drain_iteration script_io cfg h (cur, os @ rest) = (c, h', (cur', rest))"
proof -
  let ?one = "\<forall>rest. drain_iteration script_io cfg h (cur, [(now, r, ok)] @ rest) = (c, h', ((now, r, ok), rest))"
  let ?none = "\<forall>rest. drain_iteration script_io cfg h (cur, [] @ rest) = (c, h', (cur, rest))"
  obtain d where d: "try_decode_router (buf h) = Some d" by (simp add: try_decode_router_ref)
  have "?one \<or> ?none"
  proof (cases "length (buf h) > max_buffer_size cfg")
    case True
    then show ?thesis using it by (simp add: drain_iteration_def)
  next
    case False
    show ?thesis
    proof (cases d)
      case NeedMore
      then show ?thesis using it d False by (auto simp: drain_iteration_def split: if_splits)
    next
      case (Frame flen seg iw sf off cid)
      then have o: "on_frame (given_io now r ok) cfg flen seg iw sf cid h () = (c, h', ())"
        using it d False by (simp add: drain_iteration_def)
      show ?thesis
      proof (cases "flen > max_frame_size cfg")
        case True
        then show ?thesis using o d False Frame by (simp add: drain_iteration_def on_frame_def)
      next
        case le: False
        then show ?thesis using on_frame_script [OF o le] d False Frame by (simp add: drain_iteration_def)
      qed
    next
      case (Decode_Error e)
      then have pe: "on_parse_error h () = (c, h', ())" using it d False by (simp add: drain_iteration_def)
      have "on_parse_error h (cur, rest) = (c, h', (cur, rest))" for rest :: "foretold list" by (rule on_parse_error_script [OF pe])
      then show ?thesis using d False Decode_Error by (simp add: drain_iteration_def)
    qed
  qed
  then show ?thesis by blast
qed

lemma conn_loop_append:
  "conn_loop io cfg evs h w = (Waiting, h1, w1) \<Longrightarrow> conn_loop io cfg (evs @ es) h w = conn_loop io cfg es h1 w1"
proof (induction evs arbitrary: h w)
  case (Cons ev evs)
  obtain c h2 w2 where "handle_event io cfg ev h w = (c, h2, w2)" by (cases "handle_event io cfg ev h w")
  with Cons show ?case by (cases c) auto
qed simp

definition scripted :: "Config \<Rightarrow> conn_event list \<Rightarrow> foretold list \<Rightarrow> outcome \<Rightarrow> handler \<Rightarrow> foretold \<Rightarrow> bool" where
  "scripted cfg evs os out h cur \<longleftrightarrow>
     (\<forall>rest. handle_connection script_io cfg BridgeMetrics_new evs (no_foretold, os @ rest) = (out, h, (cur, rest)))"

lemma scripted_event:
  assumes s: "scripted cfg evs os Waiting h0 cur"
    and e: "\<And>rest. handle_event script_io cfg ev h0 (cur, os2 @ rest) = (c, h, (cur2, rest))" and c: "c \<noteq> Panic"
  shows "\<exists>evs' os'. scripted cfg evs' os' (if c = Continue then Waiting else Finished) (if c = Break then emit [Close_Sent] h else h) cur2"
proof -
  have "handle_connection script_io cfg BridgeMetrics_new (evs @ [ev]) (no_foretold, (os @ os2) @ rest) =
     (if c = Continue then Waiting else Finished, if c = Break then emit [Close_Sent] h else h, (cur2, rest))" for rest
  proof -
    obtain now w1 where n: "io_now script_io (no_foretold, os @ os2 @ rest) = (now, w1)" by (metis surj_pair)
    have "conn_loop script_io cfg evs \<lparr>buf = [], last_frame_time = now, metrics = BridgeMetrics_new, log = []\<rparr> w1 = (Waiting, h0, (cur, os2 @ rest))"
      using s [unfolded scripted_def, rule_format, of "os2 @ rest"] n by (simp add: handle_connection_def)
    from conn_loop_append [OF this, of "[ev]"] show ?thesis using e [of rest] n c
      by (cases c) (simp_all add: handle_connection_def)
  qed
  then show ?thesis unfolding scripted_def by blast
qed

definition reading_at :: "Config \<Rightarrow> handler \<Rightarrow> bool" where
  "reading_at cfg h \<longleftrightarrow> (\<exists>evs os cur. scripted cfg evs os Waiting h cur)"

definition over_at :: "Config \<Rightarrow> handler \<Rightarrow> bool" where
  "over_at cfg h \<longleftrightarrow> (\<exists>evs os cur. scripted cfg evs os Finished h cur)"

text \<open>Inside the drain loop: the rest of the loop is the loop on the present state.\<close>

definition draining_at :: "Config \<Rightarrow> handler \<Rightarrow> bool" where
  "draining_at cfg h \<longleftrightarrow> (\<exists>evs os h0 cur bs os2 cur2. bs \<noteq> [] \<and> scripted cfg evs os Waiting h0 cur
     \<and> (\<forall>rest. drain_loop script_io cfg (bump (add_bytes_received (length bs)) (h0\<lparr>buf := buf h0 @ bs\<rparr>)) (cur, os2 @ rest)
          = drain_loop script_io cfg h (cur2, rest)))"

definition task_at :: "Config \<Rightarrow> router_task \<Rightarrow> bool" where
  "task_at cfg k \<longleftrightarrow> (case rt_pc k of
     T_Reading \<Rightarrow> reading_at cfg (rt_h k) | T_Draining \<Rightarrow> draining_at cfg (rt_h k) | T_Calling t \<Rightarrow> draining_at cfg (rt_h k)
   | T_Over \<Rightarrow> over_at cfg (rt_h k) | _ \<Rightarrow> True)"

lemma drain_turn:
  assumes d: "draining_at cfg h" and it: "drain_iteration (given_io now r ok) cfg h () = (c, h', ())"
  shows "task_at cfg \<lparr>rt_pc = pc_after c, rt_h = h'\<rparr>"
proof -
  obtain evs os h0 cur bs os2 cur2 where bs: "bs \<noteq> []" and s: "scripted cfg evs os Waiting h0 cur"
    and l: "\<And>rest. drain_loop script_io cfg (bump (add_bytes_received (length bs)) (h0\<lparr>buf := buf h0 @ bs\<rparr>)) (cur, os2 @ rest)
      = drain_loop script_io cfg h (cur2, rest)" using d unfolding draining_at_def by blast
  obtain os3 cur3 where i: "\<And>rest. drain_iteration script_io cfg h (cur2, os3 @ rest) = (c, h', (cur3, rest))"
    using iteration_script [OF it, of cur2] by blast
  let ?g = "bump (add_bytes_received (length bs)) (h0\<lparr>buf := buf h0 @ bs\<rparr>)"
  have step: "drain_loop script_io cfg ?g (cur, (os2 @ os3) @ rest) =
      (if c = Continue then drain_loop script_io cfg h' (cur3, rest) else (c, h', (cur3, rest)))" for rest
    using l [of "os3 @ rest"] i [of rest] by (cases c) (simp_all add: drain_loop.simps [of script_io cfg h])
  have p: "c \<noteq> Panic" using drain_iteration_ok [OF it] by (simp add: iter_ok_def)
  have ev: "handle_event script_io cfg (Read_Ok bs) h0 (cur, (os2 @ os3) @ rest) = (if c = Break then Continue else c, h', (cur3, rest))"
    if "c \<noteq> Continue" for rest
    using step [of rest] that bs by (cases c) (simp_all add: handle_event_def)
  show ?thesis
  proof (cases c)
    case Continue
    then have "draining_at cfg h'" unfolding draining_at_def
      by (intro exI [of _ evs] exI [of _ os] exI [of _ h0] exI [of _ cur] exI [of _ bs] exI [of _ "os2 @ os3"] exI [of _ cur3])
        (use bs s step in simp)
    then show ?thesis using Continue by (simp add: task_at_def)
  next
    case Break
    then have "\<exists>evs' os'. scripted cfg evs' os' Waiting h' cur3" using scripted_event [OF s ev] by simp
    then show ?thesis using Break by (simp add: task_at_def reading_at_def del: split_paired_Ex) blast
  next
    case Return
    then have "\<exists>evs' os'. scripted cfg evs' os' Finished h' cur3" using scripted_event [OF s ev] by simp
    then show ?thesis using Return by (simp add: task_at_def over_at_def del: split_paired_Ex) blast
  qed (use p in simp)
qed

lemma spawn_at: "reading_at cfg (fresh_router now)"
proof -
  have "scripted cfg [] [(now, Inr [], True)] Waiting (fresh_router now) (now, Inr [], True)"
    by (simp add: scripted_def handle_connection_def fresh_router_def)
  then show ?thesis unfolding reading_at_def by blast
qed

lemma read_at:
  assumes "reading_at cfg h" and "bs \<noteq> []"
  shows "draining_at cfg (bump (add_bytes_received (length bs)) (h\<lparr>buf := buf h @ bs\<rparr>))"
proof -
  obtain evs os cur where s: "scripted cfg evs os Waiting h cur" using assms(1) unfolding reading_at_def by blast
  show ?thesis unfolding draining_at_def
    by (intro exI [of _ evs] exI [of _ os] exI [of _ h] exI [of _ cur] exI [of _ bs] exI [of _ "[]"] exI [of _ cur])
      (use s assms(2) in simp)
qed

lemma stop_at:
  assumes r: "reading_at cfg h" and bs: "\<And>bs. ev = Read_Ok bs \<Longrightarrow> bs = []" and e: "handle_event (given_io now r ok) cfg ev h () = (Break, h', ())"
  shows "over_at cfg (emit [Close_Sent] h')"
proof -
  obtain evs os cur where s: "scripted cfg evs os Waiting h cur" using r unfolding reading_at_def by blast
  have "handle_event script_io cfg ev h (cur, [] @ rest) = (Break, h', (cur, rest))" for rest
    using e bs by (cases ev) (auto simp: handle_event_def)
  from scripted_event [OF s this] have "\<exists>evs' os'. scripted cfg evs' os' Finished (emit [Close_Sent] h') cur" by simp
  then show ?thesis unfolding over_at_def by blast
qed

lemma service_tasks_at: "service_run cfg A v \<Longrightarrow> task_at cfg (v_tasks v j)"
proof (induction arbitrary: j rule: service_run.induct)
  case service_start
  show ?case by (simp add: task_at_def service_new_def)
next
  case (service_more v u)
  have at: "task_at cfg \<lparr>rt_pc = p, rt_h = h\<rparr>" if "v_tasks v i = \<lparr>rt_pc = p, rt_h = h\<rparr>" for i p h
    using service_more.IH [of i] that by simp
  from service_more(2) show ?case
  proof cases
    case (sv_spawn i now)
    then show ?thesis using service_more.IH [of j] spawn_at by (auto simp: task_at_def)
  next
    case (sv_read i h bs)
    then show ?thesis using service_more.IH [of j] at [OF sv_read(2)] read_at by (auto simp: task_at_def)
  next
    case (sv_stop i h ev now r ok h')
    then have "over_at cfg (emit [Close_Sent] h')" using at [OF sv_stop(2)] stop_at [of cfg h ev now r ok h'] by (auto simp: task_at_def)
    then show ?thesis using service_more.IH [of j] sv_stop(1) by (simp add: task_at_def)
  next
    case (sv_drain i h now r ok c h')
    have "draining_at cfg h" using at [OF sv_drain(2)] by (simp add: task_at_def)
    from drain_turn [OF this sv_drain(4)] show ?thesis using service_more.IH [of j] sv_drain(1) by simp
  next
    case (sv_call i h iw sf t b)
    then show ?thesis using service_more.IH [of j] at [OF sv_call(2)] by (simp add: task_at_def)
  next
    case (sv_return i t h r now ok c h')
    have "draining_at cfg h" using at [OF sv_return(2)] by (simp add: task_at_def)
    from drain_turn [OF this sv_return(4)] show ?thesis using service_more.IH [of j] sv_return(1) by simp
  qed (use service_more.IH [of j] in simp_all)
qed

end
