(* ===== verification/Rz_Answers.thy ===== *)
theory Rz_Answers
  imports Rz_Service
begin

text \<open>
  What the routers of the service of theory \<open>Rz_Service\<close> are sent: each one the answers to its own requests. The properties of
  the service are at the end, with a run in which one router's request is answered.
\<close>

section \<open>Answers to routers\<close>

text \<open>What a router may be sent for a request: the response is a node's answer to this request under its id,
  or the error frame with its id, or (after a clean-up) nothing that has an id.\<close>

definition answer_matches :: "(bytes \<Rightarrow> bytes \<Rightarrow> bool) \<Rightarrow> bytes \<Rightarrow> bytes rz_result \<Rightarrow> bytes \<Rightarrow> bool" where
  "answer_matches A sf r b = (case r of
       Inr resp \<Rightarrow> b = resp \<and> (9 \<le> length b \<longrightarrow> clrid_field b = clrid_field sf \<and> A (drop 5 sf) (drop 5 b))
     | Inl e \<Rightarrow> (\<exists>cid. b = build_error_response cid 4 \<and> clrid_field sf = u32_to_le cid))"

fun own_answers :: "(bytes \<Rightarrow> bytes \<Rightarrow> bool) \<Rightarrow> action list \<Rightarrow> bool" where
  "own_answers A [] = True"
| "own_answers A (Executed iw sf r # Wrote b ok # as) \<longleftrightarrow> answer_matches A sf r b \<and> own_answers A as"
| "own_answers A (Executed iw sf r # as) = False"
| "own_answers A (Wrote b ok # as) = False"
| "own_answers A (a # as) = own_answers A as"

lemma own_answers_append: "own_answers A xs \<Longrightarrow> own_answers A ys \<Longrightarrow> own_answers A (xs @ ys)"
  by (induction A xs rule: own_answers.induct) auto

text \<open>A turn without a request writes nothing; a turn with a request executes it and writes one reply.\<close>

lemma quiet_turn_log:
  assumes it: "drain_iteration io cfg h w = (c, h', w')" and n: "request_of cfg h = None"
  shows "log h' = log h \<or> log h' = log h @ [Close_Sent]"
proof -
  obtain d where d: "try_decode_router (buf h) = Some d" by (simp add: try_decode_router_ref)
  show ?thesis
  proof (cases d)
    case NeedMore
    then show ?thesis using it d by (auto simp: drain_iteration_def handler_defs split: if_splits prod.splits)
  next
    case (Frame flen seg iw sf off cid)
    then show ?thesis using it d n
      by (auto simp: drain_iteration_def request_of_def on_frame_def handler_defs Let_def split: if_splits prod.splits option.splits)
  next
    case (Decode_Error e)
    then show ?thesis using it d
      by (auto simp: drain_iteration_def on_parse_error_def handler_defs Let_def split: if_splits option.splits)
  qed
qed

lemma request_turn_log:
  assumes it: "drain_iteration (given_io now r ok) cfg h () = (c, h', ())" and q: "request_of cfg h = Some (iw, sf)"
  shows "\<exists>cid late. clrid_field sf = u32_to_le cid \<and> set late \<subseteq> {Flushed, Close_Sent}
    \<and> log h' = log h @ [Executed iw sf r, Wrote (case r of Inr resp \<Rightarrow> resp | Inl e \<Rightarrow> build_error_response cid 4) ok] @ late"
proof -
  obtain flen seg off cid where d: "try_decode_router (buf h) = Some (Frame flen seg iw sf off cid)"
    and len: "\<not> length (buf h) > max_buffer_size cfg" "\<not> flen > max_frame_size cfg" and seg: "seg \<noteq> KEEPALIVE_SEGMENT"
    using q by (auto simp: request_of_def split: if_splits option.splits DecodeResult.splits)
  have cid: "clrid_field sf = u32_to_le cid" using decode_FrameD(8) [OF d] by (simp add: clrid_field_def)
  have f: "flen \<le> length (buf h)" using decode_FrameD(1,4) [OF d] by (auto dest: arg_cong [where f = length])
  define g where "g = (bump inc_frames_received (h\<lparr>last_frame_time := now\<rparr>))\<lparr>buf := drop flen (buf h)\<rparr>"
  have "log g = log h" "do_request (given_io now r ok) iw sf cid g () = (c, h', ())"
    using it d len seg f by (simp_all add: g_def drain_iteration_def on_frame_def advance_def bump_def)
  then show ?thesis using cid
    by (intro exI [of _ cid]) (auto simp: do_request_def handler_defs Let_def split: sum.splits if_splits)
qed

lemma late_answers: "set late \<subseteq> {Flushed, Close_Sent} \<Longrightarrow> own_answers A late"
  by (induction late) auto

text \<open>A router task that awaits the cluster awaits the execution of the request its turn is about.\<close>

definition calling_ok :: "Config \<Rightarrow> service \<Rightarrow> bool" where
  "calling_ok cfg v \<longleftrightarrow> (\<forall>j t. rt_pc (v_tasks v j) = T_Calling t \<longrightarrow> pc_of (v_bridge v) t \<noteq> X_Idle
     \<and> (\<exists>iw. request_of cfg (rt_h (v_tasks v j)) = Some (iw, x_request (b_task (v_bridge v) t))))"

lemma task_keeps_request:
  "task_step t b b' \<Longrightarrow> pc_of b u \<noteq> X_Idle \<Longrightarrow> pc_of b' u \<noteq> X_Idle \<and> x_request (b_task b' u) = x_request (b_task b u)"
  by (erule task_step.cases) (auto simp: jump_def set_conn_def failed_attempt_def)

lemma pool_keeps_tasks: "pool_step A b b' \<Longrightarrow> b_task b' = b_task b"
  by (erule pool_step.cases) (simp_all add: set_conn_def)

lemma task_step_leaves_idle: "task_step t b b' \<Longrightarrow> pc_of b' t \<noteq> X_Idle"
  by (erule task_step.cases) (auto simp: jump_def set_conn_def failed_attempt_def)

lemma calling_bridge:
  assumes "calling_ok cfg v" and "\<And>t. pc_of (v_bridge v) t \<noteq> X_Idle \<Longrightarrow> pc_of b t \<noteq> X_Idle \<and> x_request (b_task b t) = x_request (b_task (v_bridge v) t)"
  shows "calling_ok cfg (v\<lparr>v_bridge := b\<rparr>)"
  using assms unfolding calling_ok_def by simp

lemma calling_turn:
  assumes "calling_ok cfg v" and "\<And>t. p = T_Calling t \<Longrightarrow> pc_of (v_bridge v) t \<noteq> X_Idle \<and> (\<exists>iw. request_of cfg h = Some (iw, x_request (b_task (v_bridge v) t)))"
  shows "calling_ok cfg (turn j p h v)"
  using assms unfolding calling_ok_def by auto

lemma pc_after_calling: "pc_after c \<noteq> T_Calling t"
  by (cases c) simp_all

lemma service_calling: "service_run cfg A v \<Longrightarrow> calling_ok cfg v"
proof (induction rule: service_run.induct)
  case service_start
  show ?case by (simp add: calling_ok_def service_new_def)
next
  case (service_more v u)
  note IH = service_more.IH
  from service_more(2) show ?case
  proof cases
    case (sv_pool b)
    then show ?thesis using calling_bridge [OF IH] pool_keeps_tasks by simp
  next
    case (sv_exec t b)
    then show ?thesis using calling_bridge [OF IH] task_keeps_request by simp
  next
    case (sv_call j h iw sf t b)
    have "calling_ok cfg (v\<lparr>v_bridge := b\<rparr>)" using calling_bridge [OF IH] task_keeps_request [OF sv_call(5)] by simp
    then show ?thesis unfolding sv_call(1)
      by (rule calling_turn) (use sv_call task_step_leaves_idle in auto)
  next
    case (sv_spawn j now)
    then show ?thesis using IH by (auto simp: calling_ok_def)
  next
    case (sv_server s)
    then show ?thesis using IH by (simp add: calling_ok_def)
  qed (use IH pc_after_calling in \<open>auto intro!: calling_turn\<close>)
qed

lemma service_answers:
  "service_run cfg A v \<Longrightarrow> no_wrap (v_bridge v) \<Longrightarrow> own_answers A (log (rt_h (v_tasks v j)))"
proof (induction arbitrary: j rule: service_run.induct)
  case service_start
  show ?case by (simp add: service_new_def fresh_router_def)
next
  case (service_more v u)
  note IH = service_more.IH [OF no_wrap_service [OF service_more(2,4)]]
  have old: "own_answers A (log h)" if "v_tasks v i = \<lparr>rt_pc = p, rt_h = h\<rparr>" for i p h using IH [of i] that by simp
  from service_more(2) show ?case
  proof cases
    case (sv_spawn i now)
    then show ?thesis using IH [of j] by (simp add: fresh_router_def)
  next
    case (sv_read i h bs)
    then show ?thesis using IH [of j] old [OF sv_read(2)] by (simp add: bump_def)
  next
    case (sv_stop i h ev now r ok h')
    have "log h' = log h" using sv_stop(3,4) by (cases ev) (auto simp: handle_event_def bump_def)
    then show ?thesis using IH [of j] old [OF sv_stop(2)] sv_stop(1) by (simp add: emit_def own_answers_append)
  next
    case (sv_drain i h now r ok c h')
    then show ?thesis using IH [of j] old [OF sv_drain(2)] quiet_turn_log [OF sv_drain(4,3)] by (auto intro!: own_answers_append)
  next
    case (sv_call i h iw sf t b)
    then show ?thesis using IH [of j] old [OF sv_call(2)] by simp
  next
    case (sv_return i t h r now ok c h')
    let ?b = "v_bridge v"
    obtain iw where q: "request_of cfg h = Some (iw, x_request (b_task ?b t))"
      using service_calling [OF service_more(1)] sv_return(2) unfolding calling_ok_def by (metis router_task.select_convs)
    obtain cid late where l: "clrid_field (x_request (b_task ?b t)) = u32_to_le cid" "set late \<subseteq> {Flushed, Close_Sent}"
      "log h' = log h @ [Executed iw (x_request (b_task ?b t)) r, Wrote (case r of Inr resp \<Rightarrow> resp | Inl e \<Rightarrow> build_error_response cid 4) ok] @ late"
      using request_turn_log [OF sv_return(4) q] by blast
    have "no_wrap ?b" by (rule no_wrap_service [OF service_more(2,4)])
    then have "pc_ok A ?b (b_task ?b t)" using bridge_invD(5) [OF bridge_run_inv [OF service_bridge [OF service_more(1)]]] by blast
    then have "answer_matches A (x_request (b_task ?b t)) r (case r of Inr resp \<Rightarrow> resp | Inl e \<Rightarrow> build_error_response cid 4)"
      using sv_return(3) l(1) by (auto simp: answer_matches_def pc_ok_def split: sum.splits)
    then have "own_answers A (log h')" unfolding l(3) using old [OF sv_return(2)] late_answers [OF l(2)]
      by (intro own_answers_append) simp_all
    then show ?thesis using IH [of j] sv_return(1) by simp
  qed (use IH in simp_all)
qed

section \<open>Properties\<close>

text \<open>C2: Routers get the answers to their own requests: in every run of the whole service, with any number of router
  connections, requests and node connections interleaved in any way, what is written to a router
  alternates with the requests decoded from its stream, and each reply is a node's answer to the request before
  it under this request's correlation id, or the error frame with this id, or, after the request has
  expired, shorter than a frame. (As long as no node connection has handed out more than $2^{32}$ ids.)\<close>
theorem routers_get_own_answers:
  assumes "service_run cfg A v" and "no_wrap (v_bridge v)"
  shows "own_answers A (log (rt_h (v_tasks v j)))"
  using assms by (rule service_answers)

text \<open>C10: Each router task of the service is a run of \<^verbatim>\<open>handle_connection\<close>: whenever it waits for input or has ended, its state
  is the one \<open>handle_connection\<close> reaches on some sequence of events, with some clock, results of its
  executions and outcomes of its writes. So what is proved of \<open>handle_connection\<close> for all of these holds for every
  router task, whatever the other tasks do.\<close>
theorem router_task_refines_connection:
  assumes "service_run cfg A v" and "rt_pc (v_tasks v j) \<in> {T_Reading, T_Over}"
  shows "\<exists>evs os cur. handle_connection script_io cfg BridgeMetrics_new evs (no_foretold, os) =
    (if rt_pc (v_tasks v j) = T_Reading then Waiting else Finished, rt_h (v_tasks v j), (cur, []))"
proof -
  have "\<exists>evs os cur. scripted cfg evs os (if rt_pc (v_tasks v j) = T_Reading then Waiting else Finished) (rt_h (v_tasks v j)) cur"
    using service_tasks_at [OF assms(1), of j] assms(2)
    by (auto simp: task_at_def reading_at_def over_at_def simp del: split_paired_Ex)
  then show ?thesis unfolding scripted_def by (metis append_Nil2)
qed

text \<open>C30: The connection limit of the service: at most \<^verbatim>\<open>max_connections\<close> router tasks run at any time, none of them
  ever panics, and the shared counter is the number of running tasks plus the close messages that have
  not been counted yet, so it never wraps and no slot is lost.\<close>
theorem service_connection_limit:
  assumes "service_run cfg A v" and "max_connections cfg < 2 ^ 64"
  shows "card (running_tasks v) \<le> max_connections cfg \<and> active (v_server v) = card (running_tasks v) + pending (v_server v)
    \<and> (\<forall>j. rt_pc (v_tasks v j) \<noteq> T_Dead)"
proof -
  have ok: "served_ok cfg v" by (rule service_served [OF assms(1)])
  then have "server_inv cfg (v_server v)" using server_reachable_inv [OF _ assms(2)] by (simp add: served_ok_def)
  with ok show ?thesis by (simp add: served_ok_def server_inv_def)
qed

section \<open>A run of the service\<close>

lemma request_of_enc:
  assumes ok: "router_ok (seg, iw, sf, cid)" and b: "buf h = router_enc (seg, iw, sf, cid) @ rest" and n: "seg \<noteq> KEEPALIVE_SEGMENT"
    and len: "length (buf h) \<le> max_buffer_size cfg" "7 + length seg + length sf \<le> max_frame_size cfg"
  shows "request_of cfg h = Some (iw, sf)"
proof -
  have wf: "router_wf (string_to_bytes seg) sf" and c: "take 4 (drop 1 sf) = u32_to_le cid"
    using ok by (simp_all add: router_ok_def)
  have "try_decode_router (buf h) = Some (Frame (7 + length seg + length sf) seg iw sf (8 + length seg) cid)"
    using decode_layout [OF wf, of "if iw then 1 else 0" rest] c by (simp add: b router_enc_def)
  then show ?thesis using len n by (simp add: request_of_def)
qed

lemma busy_service:
  assumes "(busy_step A t)\<^sup>*\<^sup>* s u" and "service_run cfg A v" and "v_bridge v = s"
  shows "service_run cfg A (v\<lparr>v_bridge := u\<rparr>)"
  using assms
proof (induction rule: rtranclp_induct)
  case base
  then have "v\<lparr>v_bridge := s\<rparr> = v" by auto
  with base show ?case by metis
next
  case (step s1 s2)
  let ?v = "v\<lparr>v_bridge := s1\<rparr>"
  have "pool_step A (v_bridge ?v) s2 \<or> pc_of (v_bridge ?v) t \<noteq> X_Idle \<and> task_step t (v_bridge ?v) s2"
    using step(2) by (simp add: busy_step_def)
  then have "service_step cfg A ?v (?v\<lparr>v_bridge := s2\<rparr>)" using sv_pool [of A ?v s2 cfg] sv_exec [of ?v t s2 cfg A] by blast
  then show ?case using service_more [OF step.IH [OF step.prems]] by simp
qed

definition sample_router_frame :: bytes where
  "sample_router_frame = router_enc (''a'', True, sample_shard_frame, 77)"

lemma sample_router_request:
  "router_ok (''a'', True, sample_shard_frame, 77)" "length sample_router_frame = 22"
  by (simp_all add: router_ok_def router_wf_def sample_shard_frame_def sample_reply_def prepend_header_def SHARD_MAGIC_def
      string_to_bytes_def sample_router_frame_def router_enc_def)

lemma sample_turn:
  assumes b: "buf h = sample_router_frame" and l: "log h = []"
  shows "\<exists>h2. drain_iteration (given_io 0 (Inr sample_shard_frame) True) sample_config h () = (Continue, h2, ())
    \<and> buf h2 = [] \<and> last_frame_time h2 = 0
    \<and> log h2 = [Executed True sample_shard_frame (Inr sample_shard_frame), Wrote sample_shard_frame True, Flushed]"
proof -
  let ?io = "given_io 0 (Inr sample_shard_frame) True" and ?f = "(''a'', True, sample_shard_frame, 77 :: u32)"
  have "length sample_shard_frame = 14" by (simp add: sample_shard_frame_def prepend_header_def sample_reply_def)
  then have "\<exists>h2. serve_one ?io sample_config ?f h () = (Continue, h2, ()) \<and> last_frame_time h2 = 0
    \<and> log h2 = [Executed True sample_shard_frame (Inr sample_shard_frame), Wrote sample_shard_frame True, Flushed]"
    using l by (simp add: serve_one_def default_config_def KEEPALIVE_SEGMENT_def do_request_def bump_def emit_def)
  then obtain h2 where h2: "serve_one ?io sample_config ?f h () = (Continue, h2, ())" "last_frame_time h2 = 0"
    "log h2 = [Executed True sample_shard_frame (Inr sample_shard_frame), Wrote sample_shard_frame True, Flushed]" by blast
  have "drain_iteration ?io sample_config h () = set_buf [] (serve_one ?io sample_config ?f h ())"
    using drain_iteration_request [OF sample_router_request(1), of h "[]" sample_config ?io "()"] b h2(1) sample_router_request(2)
    by (simp add: sample_router_frame_def default_config_def)
  then show ?thesis using h2 by (intro exI [of _ "h2\<lparr>buf := []\<rparr>"]) (simp add: set_buf_def)
qed

lemma sample_service:
  "\<exists>v. service_run sample_config (=) v \<and> v_bridge v = sample_done \<and> rt_pc (v_tasks v 0) = T_Reading
    \<and> log (rt_h (v_tasks v 0)) = [Executed True sample_shard_frame (Inr sample_shard_frame), Wrote sample_shard_frame True, Flushed]"
proof -
  let ?cfg = sample_config and ?A = "(=) :: bytes \<Rightarrow> bytes \<Rightarrow> bool" and ?fr = sample_router_frame
  define h1 where "h1 = bump (add_bytes_received (length ?fr)) ((fresh_router 0)\<lparr>buf := buf (fresh_router 0) @ ?fr\<rparr>)"
  define v1 where "v1 = service_new\<lparr>v_bridge := sample_opened\<rparr>"
  define v2 where "v2 = v1\<lparr>v_server := (v_server v1)\<lparr>admitted := True\<rparr>\<rparr>"
  define v3 where "v3 = v2\<lparr>v_server := (v_server v2)\<lparr>admitted := False, active := as_u64 (active (v_server v2) + 1), live := live (v_server v2) + 1\<rparr>,
      v_tasks := (v_tasks v2)(0 := \<lparr>rt_pc = T_Reading, rt_h = fresh_router 0\<rparr>)\<rparr>"
  define v4 where "v4 = turn 0 T_Draining h1 v3"
  define v5 where "v5 = turn 0 (T_Calling 3) h1 (v4\<lparr>v_bridge := sample_started\<rparr>)"
  define v6 where "v6 = v5\<lparr>v_bridge := sample_done\<rparr>"
  have b: "buf h1 = ?fr" "log h1 = []" by (simp_all add: h1_def bump_def fresh_router_def)
  obtain h2 where h2: "drain_iteration (given_io 0 (Inr sample_shard_frame) True) ?cfg h1 () = (Continue, h2, ())"
    "buf h2 = []" "last_frame_time h2 = 0" "log h2 = [Executed True sample_shard_frame (Inr sample_shard_frame), Wrote sample_shard_frame True, Flushed]"
    using sample_turn [OF b] by blast
  have "service_step ?cfg ?A service_new v1" unfolding v1_def by (rule sv_pool) (simp add: service_new_def sample_opening(1))
  moreover have "service_step ?cfg ?A v1 v2" unfolding v2_def
    by (rule sv_server, rule accept_check) (simp_all add: v1_def service_new_def server_new_def default_config_def)
  moreover have "service_step ?cfg ?A v2 v3" unfolding v3_def by (rule sv_spawn) (simp_all add: v2_def v1_def service_new_def)
  moreover have "service_step ?cfg ?A v3 v4" unfolding v4_def h1_def
    by (rule sv_read) (use sample_router_request(2) in \<open>auto simp: v3_def\<close>)
  moreover have "service_step ?cfg ?A v4 v5" unfolding v5_def
  proof (rule sv_call)
    show "v_tasks v4 0 = \<lparr>rt_pc = T_Draining, rt_h = h1\<rparr>" by (simp add: v4_def)
    show "request_of ?cfg h1 = Some (True, sample_shard_frame)"
      by (rule request_of_enc [OF sample_router_request(1), of _ "[]"])
        (use b sample_router_request(2) in \<open>simp_all add: sample_router_frame_def KEEPALIVE_SEGMENT_def default_config_def
          sample_shard_frame_def prepend_header_def sample_reply_def\<close>)
    show "task_step 3 (v_bridge v4) sample_started" by (simp add: v4_def v3_def v2_def v1_def sample_opening(2))
  qed (simp_all add: v4_def v3_def v2_def v1_def sample_started_def sample_opened_def bridge_new_def)
  ultimately have "service_run ?cfg ?A v5" by (meson service_start service_more)
  moreover have "(busy_step ?A 3)\<^sup>*\<^sup>* sample_started sample_done"
    using sample_sending sample_wiring sample_finishing by (meson rtranclp.rtrancl_into_rtrancl rtranclp_trans)
  ultimately have r6: "service_run ?cfg ?A v6" unfolding v6_def by (intro busy_service) (simp_all add: v5_def)
  have "v_tasks v6 0 = \<lparr>rt_pc = T_Calling 3, rt_h = h1\<rparr>" "pc_of (v_bridge v6) 3 = X_Done (Inr sample_shard_frame)"
    by (simp_all add: v6_def v5_def sample_done_def)
  from service_more [OF r6 sv_return [OF this h2(1)]] have r7: "service_run ?cfg ?A (turn 0 T_Draining h2 v6)" by simp
  have "drain_iteration (given_io 0 (Inr []) True) ?cfg h2 () = (Break, h2, ())" "request_of ?cfg h2 = None"
    using h2(2,3) by (simp_all add: drain_iteration_def request_of_def try_decode_router_def elapsed_def)
  from service_more [OF r7 sv_drain [OF _ this(2,1)]] have "service_run ?cfg ?A (turn 0 T_Reading h2 (turn 0 T_Draining h2 v6))" by simp
  then show ?thesis using h2(4) by (intro exI conjI) (auto simp: v6_def)
qed

lemma routers_get_own_answers_witness:
  "\<exists>v. service_run sample_config (=) v \<and> own_answers (=) (log (rt_h (v_tasks v 0)))
    \<and> log (rt_h (v_tasks v 0)) = [Executed True sample_shard_frame (Inr sample_shard_frame), Wrote sample_shard_frame True, Flushed]"
  using sample_service routers_get_own_answers sample_done_run(2) by metis

lemma router_task_refines_connection_witness:
  "\<exists>(v :: service) evs os cur. requests (rt_h (v_tasks v 0)) = 1
    \<and> handle_connection script_io sample_config BridgeMetrics_new evs (no_foretold, os) = (Waiting, rt_h (v_tasks v 0), (cur, []))"
proof -
  obtain v where v: "service_run sample_config (=) v" "rt_pc (v_tasks v 0) = T_Reading"
    "log (rt_h (v_tasks v 0)) = [Executed True sample_shard_frame (Inr sample_shard_frame), Wrote sample_shard_frame True, Flushed]"
    using sample_service by blast
  from router_task_refines_connection [OF v(1), of 0] v(2,3) show ?thesis
    by (intro exI [of _ v]) (simp add: requests_def del: split_paired_Ex)
qed

lemma service_connection_limit_witness:
  "\<exists>v :: service. 0 \<in> running_tasks v \<and> card (running_tasks v) \<le> max_connections sample_config"
proof -
  obtain v where v: "service_run sample_config (=) v" "rt_pc (v_tasks v 0) = T_Reading" using sample_service by blast
  from service_connection_limit [OF v(1)] v(2) show ?thesis
    by (intro exI [of _ v]) (simp add: running_tasks_def default_config_def)
qed

end
