(* ===== verification/Rz_Sync.thy ===== *)
theory Rz_Sync
  imports Rz_Cluster_Props
begin

text \<open>
  The synchronisation task of \<^verbatim>\<open>src/cluster_handler.rs\<close> as a whole: \<^verbatim>\<open>sync_task\<close> with its two
  intervals, run on the sequence of events its \<^verbatim>\<open>select!\<close> sees. \<open>sync_input\<close> has, for each turn,
  the event, the network and the iteration orders the turn meets, and in \<open>in_others\<close> what
  the request tasks and the connections' own tasks did to the state since the last turn.
  One undisturbed run of \<^verbatim>\<open>sync_with_cluster\<close> is shown to be a sequence of steps of
  \<open>cluster_step\<close>, the relation that interleaves it with the other tasks.
\<close>

section \<open>The task\<close>

record sync_input =
  in_event :: sync_event
  in_json :: json_env
  in_topo_order :: topo_order
  in_net :: discovery_net
  in_hash_order :: hash_order
  in_dialer :: dialer
  in_others :: "cluster \<Rightarrow> cluster"

fun sync_loop :: "sync_input list \<Rightarrow> cluster \<Rightarrow> cluster \<times> unit task" where
  "sync_loop [] s = (s, Task_Running)"
| "sync_loop (i # is) s =
     (case sync_turn (in_json i) (in_topo_order i) (in_net i) (in_hash_order i) (in_dialer i) (in_event i) (in_others i s) of
        None \<Rightarrow> (in_others i s, Task_Panicked)
      | Some (t, True) \<Rightarrow> sync_loop is t
      | Some (t, False) \<Rightarrow> (t, Task_Ended ()))"

definition sync_task :: "sync_input list \<Rightarrow> cluster \<Rightarrow> cluster \<times> unit task" where
  "sync_task is s =
     (case interval (from_millis 300) of
        None \<Rightarrow> (s, Task_Panicked)
      | Some _ \<Rightarrow>
          (case interval (from_secs (node_probe_interval_sec (cl_cfg s))) of
             None \<Rightarrow> (s, Task_Panicked)
           | Some _ \<Rightarrow> sync_loop is s))"

text \<open>What is asked of the parameters: hash maps are iterated completely, and the other tasks keep
  the invariant of the handler.\<close>

definition good_input :: "sync_input \<Rightarrow> bool" where
  "good_input i \<longleftrightarrow> valid_hash_order (in_hash_order i) \<and> (\<forall>s. cluster_inv s \<longrightarrow> cluster_inv (in_others i s))"

section \<open>One synchronisation as a sequence of steps\<close>

abbreviation steps :: "cluster \<times> sync_phase \<Rightarrow> cluster \<times> sync_phase \<Rightarrow> bool" where
  "steps \<equiv> cluster_step\<^sup>*\<^sup>*"

lemma fill_slots_steps: "fill_slots dial host is s = Some t \<Longrightarrow> steps (s, Sync_Fill host is names) (t, Sync_Plan names)"
proof (induction "is" arbitrary: s)
  case Nil
  then show ?case by (auto intro: r_into_rtranclp sync_filled)
next
  case (Cons i "is")
  then obtain s1 where "fill_slot dial host i s = Some s1" "fill_slots dial host is s1 = Some t"
    by (auto split: bind_splits)
  then show ?case by (meson Cons.IH converse_rtranclp_into_rtranclp sync_fill)
qed

lemma dial_node_steps:
  "dial_node dial host k new s = (new', t) \<Longrightarrow> steps (s, Sync_Dial names ((host, k) # req) new) (t, Sync_Dial names req new')"
proof (induction k arbitrary: new s)
  case 0
  then show ?case by (auto intro: r_into_rtranclp sync_dialed)
next
  case (Suc k)
  obtain new1 s1 where d: "dial_one dial host new s = (new1, s1)" by (cases "dial_one dial host new s")
  then have "dial_node dial host k new1 s1 = (new', t)" using Suc.prems by simp
  then show ?case by (meson Suc.IH converse_rtranclp_into_rtranclp sync_dial d)
qed

lemma dial_all_steps:
  "dial_all dial req new s = (new', t) \<Longrightarrow> steps (s, Sync_Dial names req new) (t, Sync_Dial names [] new')"
proof (induction req arbitrary: new s)
  case (Cons x req)
  obtain host k new1 s1 where x: "x = (host, k)" "dial_node dial host k new s = (new1, s1)"
    by (metis prod.exhaust)
  then have "dial_all dial req new1 s1 = (new', t)" using Cons.prems by simp
  then show ?case using x dial_node_steps Cons.IH by (metis rtranclp_trans)
qed simp

lemma apply_topology_steps:
  assumes a: "apply_topology ho dial topo s = Some t" and ho: "valid_hash_order ho"
  shows "steps (s, Sync_Reset (topo_leader topo) (topo_followers topo)) (t\<lparr>syncing := False\<rparr>, Sync_Idle)"
proof -
  let ?h = "topo_leader topo" and ?n = "topo_followers topo" and ?s1 = "reset_leader (topo_leader topo) s"
  obtain s2 req new s3 where f: "fill_slots dial ?h (required_slots ?s1) ?s1 = Some s2"
    and p: "required_conns ho ?n s2 = Some req" "dial_all dial (ord_required ho req) [] s2 = (new, s3)"
      "commit_followers ho ?n new s3 = Some t"
    using a by (auto simp: apply_topology_def sync_leader_def sync_followers_def Let_def split: bind_splits prod.splits)
  have "steps (s, Sync_Reset ?h ?n) (?s1, Sync_Fill ?h (required_slots ?s1) ?n)"
    by (meson converse_rtranclp_into_rtranclp r_into_rtranclp sync_reset sync_scan)
  also have "steps \<dots> (s2, Sync_Plan ?n)" by (rule fill_slots_steps [OF f])
  also have "cluster_step \<dots> (s2, Sync_Dial ?n (ord_required ho req) [])" by (rule sync_plan [OF ho p(1)])
  also have "steps \<dots> (s3, Sync_Dial ?n [] new)" by (rule dial_all_steps [OF p(2)])
  also have "cluster_step \<dots> (t\<lparr>syncing := False\<rparr>, Sync_Idle)" by (rule sync_commit [OF ho p(3)])
  finally show ?thesis .
qed

lemma sync_with_cluster_steps:
  assumes r: "sync_with_cluster js o1 net ho dial s = Some t" and ho: "valid_hash_order ho"
  shows "steps (s, Sync_Idle) (t, Sync_Idle)"
proof (cases "syncing s")
  case True
  with r show ?thesis by (simp add: sync_with_cluster_def)
next
  case False
  obtain res td where d: "discover js o1 net (discovery s) = (res, td)" by (cases "discover js o1 net (discovery s)")
  show ?thesis
  proof (cases res)
    case (Inl e)
    have "s\<lparr>discovery := td, syncing := False\<rparr> = s\<lparr>discovery := td\<rparr>" using False by (cases s) simp
    with r False d Inl have "t = s\<lparr>discovery := td\<rparr>" by (auto simp: sync_with_cluster_def)
    with sync_failed [OF False d [unfolded Inl]] show ?thesis by simp
  next
    case (Inr topo)
    with r False d obtain u where u: "apply_topology ho dial topo (s\<lparr>discovery := td, syncing := True\<rparr>) = Some u"
      "t = u\<lparr>syncing := False\<rparr>" by (auto simp: sync_with_cluster_def)
    with sync_start [OF False d [unfolded Inr]] apply_topology_steps [OF u(1) ho] show ?thesis
      by (simp add: converse_rtranclp_into_rtranclp)
  qed
qed

section \<open>The task keeps the invariant\<close>

lemma fill_slots_ok:
  "cluster_inv s \<Longrightarrow> \<forall>i \<in> set is. i < length (leader_conns s) \<Longrightarrow> \<exists>t. fill_slots dial host is s = Some t \<and> cluster_inv t"
proof (induction "is" arbitrary: s)
  case (Cons i "is")
  then obtain s1 where "fill_slot dial host i s = Some s1" "cluster_inv s1" "length (leader_conns s1) = length (leader_conns s)"
    using fill_slot_ok [of s i dial host] by auto
  with Cons show ?case by simp
qed simp

lemma sync_followers_ok:
  assumes ho: "valid_hash_order ho" and inv: "cluster_inv s"
  shows "\<exists>t. sync_followers ho dial names s = Some t \<and> cluster_inv t"
proof -
  obtain req where r: "required_conns ho names s = Some req" "plan_ok (per_node s) (followers s) req"
    using required_conns_ok [OF ho inv] by blast
  obtain new s1 where d: "dial_all dial (ord_required ho req) [] s = (new, s1)" by (cases "dial_all dial (ord_required ho req) [] s")
  note a = dial_all_ok [OF plan_pending [OF r(2) ho inv] d]
  then have "cluster_inv s1" using same_pool_inv [of s s1] inv by blast
  then obtain t where "commit_followers ho names new s1 = Some t" "cluster_inv t"
    using commit_followers_ok [OF ho] a by blast
  then show ?thesis using r d by (simp add: sync_followers_def)
qed

lemma sync_with_cluster_ok:
  assumes ho: "valid_hash_order ho" and inv: "cluster_inv s"
  shows "\<exists>t. sync_with_cluster js o1 net ho dial s = Some t \<and> cluster_inv t"
proof -
  have c: "cluster_inv (u\<lparr>discovery := td, syncing := b\<rparr>)" "cluster_inv (u\<lparr>syncing := b\<rparr>)" if "cluster_inv u" for u td b
    using that by (simp_all add: cluster_inv_def)
  have "\<exists>t. apply_topology ho dial topo u = Some t \<and> cluster_inv t" if u: "cluster_inv u" for topo u
  proof -
    let ?r = "reset_leader (topo_leader topo) u"
    have "\<forall>i \<in> set (required_slots ?r). i < length (leader_conns ?r)" by (blast dest: required_slots_less)
    from fill_slots_ok [OF reset_leader_inv [OF u] this]
    obtain t where t: "sync_leader dial (topo_leader topo) u = Some t" "cluster_inv t"
      unfolding sync_leader_def Let_def by blast
    with sync_followers_ok [OF ho t(2)] show ?thesis by (simp add: apply_topology_def)
  qed
  then have "\<exists>t. apply_topology ho dial topo (s\<lparr>discovery := td, syncing := True\<rparr>) = Some t \<and> cluster_inv t" for topo td
    using c(1) [OF inv] by blast
  with inv c show ?thesis by (fastforce simp: sync_with_cluster_def split: prod.splits sum.splits)
qed

lemma sync_turn_ok:
  assumes "valid_hash_order ho" and "cluster_inv s"
  shows "\<exists>t. sync_turn js o1 net ho dial e s = Some (t, e \<noteq> Sync_Cancelled) \<and> cluster_inv t"
  using sync_with_cluster_ok [OF assms, of js o1 net dial] assms(2)
  by (cases e) (auto simp: sync_turn_def)

lemma sync_loop_ok:
  assumes "\<forall>i \<in> set is. good_input i" and "cluster_inv s"
  shows "snd (sync_loop is s) = (if \<exists>i \<in> set is. in_event i = Sync_Cancelled then Task_Ended () else Task_Running)
    \<and> cluster_inv (fst (sync_loop is s))"
  using assms
proof (induction "is" arbitrary: s)
  case (Cons i "is")
  then have "valid_hash_order (in_hash_order i)" "cluster_inv (in_others i s)" by (simp_all add: good_input_def)
  from sync_turn_ok [OF this, of "in_json i" "in_topo_order i" "in_net i" "in_dialer i" "in_event i"]
  obtain t where "sync_turn (in_json i) (in_topo_order i) (in_net i) (in_hash_order i) (in_dialer i) (in_event i) (in_others i s)
      = Some (t, in_event i \<noteq> Sync_Cancelled)" "cluster_inv t" by blast
  with Cons show ?case by (cases "in_event i = Sync_Cancelled") auto
qed simp

section \<open>Properties\<close>

text \<open>C26: One undisturbed run of \<^verbatim>\<open>sync_with_cluster\<close> is a run of the step relation that interleaves the
  synchronisation with requests: it starts and ends idle, so what holds in every interleaving
  holds for it.\<close>
theorem sync_with_cluster_refines_steps:
  assumes "sync_with_cluster js o1 net ho dial s = Some t" and "valid_hash_order ho"
  shows "cluster_step\<^sup>*\<^sup>* (s, Sync_Idle) (t, Sync_Idle)"
  using assms by (rule sync_with_cluster_steps)

text \<open>C27: With a probe interval of at least a second the synchronisation task never panics, keeps the
  handler's invariant whatever the network does, and ends exactly when it is cancelled. With a
  probe interval of zero it panics before it has opened a connection.\<close>
theorem sync_task_runs:
  assumes "\<forall>i \<in> set is. good_input i" and "cluster_inv s"
  shows "if node_probe_interval_sec (cl_cfg s) = 0 then sync_task is s = (s, Task_Panicked)
    else snd (sync_task is s) = (if \<exists>i \<in> set is. in_event i = Sync_Cancelled then Task_Ended () else Task_Running)
      \<and> cluster_inv (fst (sync_task is s))"
  using sync_loop_ok [OF assms] by (simp add: sync_task_def interval_def from_secs_def from_millis_def)

definition sample_net :: discovery_net where
  "sample_net = \<lparr>net_known = (\<lambda>_ _. sample_get), net_rzid = sample_get, net_fresh = (\<lambda>_ _. sample_get)\<rparr>"

definition sample_input :: "sync_event \<Rightarrow> sync_input" where
  "sample_input e = \<lparr>in_event = e, in_json = sample_json, in_topo_order = sample_order, in_net = sample_net,
     in_hash_order = list_order, in_dialer = dial_ok, in_others = (\<lambda>s. s)\<rparr>"

lemma sample_input_good: "good_input (sample_input e)"
  by (simp add: good_input_def sample_input_def list_order_valid)

lemma sync_task_runs_witness:
  "snd (sync_task [sample_input Slow_Tick, sample_input Sync_Cancelled] fresh_handler) = Task_Ended ()"
proof -
  have "\<forall>i \<in> set [sample_input Slow_Tick, sample_input Sync_Cancelled]. good_input i" by (simp add: sample_input_good)
  from sync_task_runs [OF this fresh_handler_inv] show ?thesis
    by (simp add: fresh_simps) (simp add: sample_input_def)
qed

lemma sync_with_cluster_refines_steps_witness:
  "\<exists>t. sync_with_cluster sample_json sample_order sample_net list_order dial_ok fresh_handler = Some t
    \<and> cluster_step\<^sup>*\<^sup>* (fresh_handler, Sync_Idle) (t, Sync_Idle)"
proof -
  obtain t where t: "sync_with_cluster sample_json sample_order sample_net list_order dial_ok fresh_handler = Some t"
    using sync_with_cluster_ok [OF list_order_valid fresh_handler_inv] by blast
  from sync_with_cluster_refines_steps [OF this list_order_valid] t show ?thesis by blast
qed

end
