(* ===== verification/Rz_Startup.thy ===== *)
theory Rz_Startup
  imports Rz_Tcp_Server Rz_Sync
begin

text \<open>
  \<^verbatim>\<open>src/main.rs\<close>, \<^verbatim>\<open>src/lib.rs\<close> and \<^verbatim>\<open>src/api.rs\<close>: how the bridge is put together. What the
  libraries do (building the HTTP clients, binding sockets, installing the logger and the metrics
  recorder, building the runtime) has an outcome in \<open>boot_env\<close>, with \<open>Inl\<close> the text of the error. The
  operations return what they started, in order, and what has become of them.
\<close>

section \<open>The HTTP listener for health and metrics\<close>

text \<open>The two routes with status and body; \<open>rendered\<close> is the text of the metrics recorder.\<close>

definition api_routes :: "string \<Rightarrow> (string \<times> nat \<times> string) list" where
  "api_routes rendered = [(''/health'', 200, ''OK''), (''/metrics'', 200, rendered)]"

definition run_api_server :: "(string \<Rightarrow> string + 'addr) \<Rightarrow> ('addr \<Rightarrow> string + unit) \<Rightarrow> string \<Rightarrow> unit rz_result" where
  "run_api_server parse srv addr =
     (case parse addr of
        Inl e \<Rightarrow> Inl (Config_Error (''invalid api listen addr: '' @ e))
      | Inr a \<Rightarrow>
          (case srv a of
             Inl e \<Rightarrow> Inl (System (''api server error: '' @ e))
           | Inr _ \<Rightarrow> Inr ()))"

section \<open>Start-up\<close>

record 'addr boot_env =
  be_logger :: bool
  be_cpus :: nat
  be_runtime :: "string + unit"
  be_rzid_client :: "string + unit"
  be_resolver_client :: "string + unit"
  be_node_client :: "string + unit"
  be_bind :: "string \<Rightarrow> string + unit"
  be_recorder :: bool
  be_parse_addr :: "string \<Rightarrow> string + 'addr"
  be_serve_api :: "'addr \<Rightarrow> string + unit"

datatype boot_event =
    Started_Runtime nat
  | Spawned_Ctrl_C
  | Spawned_Heartbeat
  | Spawned_Sync cluster
  | Bound string
  | Spawned_Api "string list"
  | Serving BridgeMetrics

text \<open>The task of the HTTP listener: an error is logged and nothing else.\<close>

definition api_task :: "'addr boot_env \<Rightarrow> Config \<Rightarrow> string list" where
  "api_task env cfg =
     (case run_api_server (be_parse_addr env) (be_serve_api env) (api_listening_addr cfg) of
        Inl e \<Rightarrow> [''API server failed: '' @ display_error e]
      | Inr _ \<Rightarrow> [])"

text \<open>The final \<^verbatim>\<open>select!\<close>: the shutdown token (\<open>None\<close>), or the accept loop on its events.\<close>

definition serve_until :: "Config \<Rightarrow> accept_event list option \<Rightarrow> unit rz_result task" where
  "serve_until cfg sel =
     (case sel of
        None \<Rightarrow> Task_Ended (Inr ())
      | Some evs \<Rightarrow>
          (case snd (accept_loop cfg evs) of
             Task_Running \<Rightarrow> Task_Running
           | Task_Panicked \<Rightarrow> Task_Panicked
           | Task_Ended (Inl e) \<Rightarrow> Task_Ended (Inl (System (''tcp server error: '' @ e)))
           | Task_Ended (Inr _) \<Rightarrow> Task_Ended (Inr ())))"

definition async_main :: "'addr boot_env \<Rightarrow> Config \<Rightarrow> accept_event list option \<Rightarrow> boot_event list \<times> unit rz_result task" where
  "async_main env cfg sel =
     (case RzidClient_new (be_rzid_client env) (rzid_addr cfg) (bridge_id cfg) (shard_id cfg) (zone_id cfg) of
        Inl e \<Rightarrow> ([], Task_Ended (Inl e))
      | Inr rzid \<Rightarrow>
      (case RzPointResolver_new (be_resolver_client env) (rzpoint_addr cfg) (shard_id cfg) of
        Inl e \<Rightarrow> ([], Task_Ended (Inl e))
      | Inr rslv \<Rightarrow>
      (case NodeClient_new (be_node_client env) (roomzin_api_port cfg) (http_timeout_sec cfg) of
        Inl e \<Rightarrow> ([], Task_Ended (Inl e))
      | Inr client \<Rightarrow>
          (let td = TopologyDiscovery_new rzid rslv client [];
               started = [Spawned_Heartbeat, Spawned_Sync (ClusterHandler_new cfg td)]
           in case be_bind env (listen_addr cfg) of
                Inl e \<Rightarrow> (started, Task_Ended (Inl (Io e)))
              | Inr _ \<Rightarrow>
                  (case Metrics_new (be_recorder env) of
                     None \<Rightarrow> (started @ [Bound (listen_addr cfg)], Task_Panicked)
                   | Some m \<Rightarrow>
                       (started @ [Bound (listen_addr cfg), Spawned_Api (api_task env cfg), Serving m],
                        serve_until cfg sel))))))"

text \<open>\<^verbatim>\<open>worker_threads\<close> of tokio's runtime builder panics on zero.\<close>

definition bridge_main :: "'addr boot_env \<Rightarrow> Config \<Rightarrow> accept_event list option \<Rightarrow> boot_event list \<times> unit rz_result task" where
  "bridge_main env cfg sel =
     (if \<not> be_logger env then ([], Task_Panicked)
      else let desired_workers = effective_workers (be_cpus env) cfg
           in if desired_workers = 0 then ([], Task_Panicked)
              else case be_runtime env of
                  Inl e \<Rightarrow> ([], Task_Ended (Inl (System (''Failed to build runtime: '' @ e))))
                | Inr _ \<Rightarrow>
                    (case async_main env cfg sel of
                       (evs, r) \<Rightarrow> (Started_Runtime desired_workers # Spawned_Ctrl_C # evs, r)))"

section \<open>Properties\<close>

definition clients_built :: "'addr boot_env \<Rightarrow> bool" where
  "clients_built env \<longleftrightarrow> be_logger env \<and> be_runtime env = Inr () \<and> be_rzid_client env = Inr ()
     \<and> be_resolver_client env = Inr () \<and> be_node_client env = Inr ()"

definition started_up :: "'addr boot_env \<Rightarrow> Config \<Rightarrow> bool" where
  "started_up env cfg \<longleftrightarrow> clients_built env \<and> be_bind env (listen_addr cfg) = Inr () \<and> be_recorder env"

definition stopped :: "accept_event list option \<Rightarrow> bool" where
  "stopped sel \<longleftrightarrow> (case sel of None \<Rightarrow> True | Some evs \<Rightarrow> Accept_Cancelled \<in> set evs)"

lemma effective_workers_pos: "0 < effective_workers cpus cfg"
  by (simp add: effective_workers_def less_max_iff_disj)

lemma serve_until_result: "serve_until cfg sel = (if stopped sel then Task_Ended (Inr ()) else Task_Running)"
  by (simp add: serve_until_def stopped_def accept_loop_result split: option.splits)

lemmas boot_simps = bridge_main_def async_main_def RzidClient_new_def RzPointResolver_new_def NodeClient_new_def
  Metrics_new_def clients_built_def started_up_def serve_until_result Let_def

text \<open>The order in which the parts of the bridge start.\<close>

definition boot_order :: "'addr boot_env \<Rightarrow> Config \<Rightarrow> TopologyDiscovery \<Rightarrow> boot_event list" where
  "boot_order env cfg td =
     [Started_Runtime (effective_workers (be_cpus env) cfg), Spawned_Ctrl_C, Spawned_Heartbeat,
      Spawned_Sync (ClusterHandler_new cfg td), Bound (listen_addr cfg), Spawned_Api (api_task env cfg),
      Serving BridgeMetrics_new]"

text \<open>C28: Start-up starts the parts in a fixed order and stops at the first that fails: the bridge serves
  exactly when every part could be set up; then it ends only by a shutdown and without an error,
  whatever happens to the HTTP listener. The heartbeat that registers the bridge starts before the
  listen address is bound, so a bridge that cannot bind it has started to register. The only
  panics are those of a logger or a metrics recorder that cannot be installed; the number of worker
  threads is never zero.\<close>
theorem startup_outcome:
  assumes "bridge_main env cfg sel = (evs, r)"
  shows "(\<exists>td. known_node_ids td = [] \<and> prefix evs (boot_order env cfg td))
    \<and> (Serving BridgeMetrics_new \<in> set evs \<longleftrightarrow> started_up env cfg)
    \<and> (Spawned_Heartbeat \<in> set evs \<longleftrightarrow> clients_built env)
    \<and> (r = Task_Panicked \<longleftrightarrow> \<not> be_logger env \<or>
        clients_built env \<and> be_bind env (listen_addr cfg) = Inr () \<and> \<not> be_recorder env)
    \<and> (if started_up env cfg then r = (if stopped sel then Task_Ended (Inr ()) else Task_Running)
       else r = Task_Panicked \<or> (\<exists>e. r = Task_Ended (Inl e)))"
proof -
  define rz rp nc where "rz = \<lparr>rz_base_url = base_url (rzid_addr cfg), rz_bridge_id = bridge_id cfg,
      rz_shard_id = shard_id cfg, rz_zone_id = zone_id cfg\<rparr>"
    and "rp = \<lparr>rp_base_url = base_url (rzpoint_addr cfg), rp_shard_id = shard_id cfg\<rparr>"
    and "nc = \<lparr>api_port = roomzin_api_port cfg, nc_timeout = from_secs (http_timeout_sec cfg)\<rparr>"
  let ?td = "TopologyDiscovery_new rz rp nc []"
  have "known_node_ids ?td = []" by (simp add: TopologyDiscovery_new_def)
  moreover have "prefix evs (boot_order env cfg ?td)"
    using assms by (auto simp: boot_simps boot_order_def rz_def rp_def nc_def split: if_splits sum.splits)
  moreover have "Serving BridgeMetrics_new \<in> set evs \<longleftrightarrow> started_up env cfg"
    and "Spawned_Heartbeat \<in> set evs \<longleftrightarrow> clients_built env"
    and "r = Task_Panicked \<longleftrightarrow> \<not> be_logger env \<or>
        clients_built env \<and> be_bind env (listen_addr cfg) = Inr () \<and> \<not> be_recorder env"
    and "if started_up env cfg then r = (if stopped sel then Task_Ended (Inr ()) else Task_Running)
       else r = Task_Panicked \<or> (\<exists>e. r = Task_Ended (Inl e))"
    using assms effective_workers_pos [of "be_cpus env" cfg]
    by (auto simp: boot_simps split: if_splits sum.splits)
  ultimately show ?thesis by blast
qed

definition sample_boot :: "unit boot_env" where
  "sample_boot = \<lparr>be_logger = True, be_cpus = 4, be_runtime = Inr (), be_rzid_client = Inr (), be_resolver_client = Inr (),
     be_node_client = Inr (), be_bind = (\<lambda>_. Inl ''address in use''), be_recorder = True, be_parse_addr = (\<lambda>_. Inr ()),
     be_serve_api = (\<lambda>_. Inr ())\<rparr>"

lemma startup_outcome_witness:
  "\<exists>evs e. bridge_main sample_boot pool_config None = (evs, Task_Ended (Inl e)) \<and> Spawned_Heartbeat \<in> set evs
    \<and> Serving BridgeMetrics_new \<notin> set evs"
proof -
  obtain evs r where m: "bridge_main sample_boot pool_config None = (evs, r)" by (cases "bridge_main sample_boot pool_config None")
  have "clients_built sample_boot" "\<not> started_up sample_boot pool_config" "be_logger sample_boot" "be_recorder sample_boot"
    by (simp_all add: sample_boot_def clients_built_def started_up_def)
  with startup_outcome [OF m] m show ?thesis by auto
qed

end
