(* ===== verification/Rz_Locks.thy ===== *)
theory Rz_Locks
  imports Rz_Prelude
begin

text \<open>
  The locks of \<^verbatim>\<open>src/cluster_handler.rs\<close>. The other theories treat a choice of a connection and
  the commit of a synchronisation as atomic; this theory has the order in which their tasks take
  and release the three locks of \<^verbatim>\<open>HandlerInner\<close>, with the data they protect left out: the mutex
  \<^verbatim>\<open>load_balancer\<close> (\<open>lb_owner\<close>) and the read-write locks \<^verbatim>\<open>followers\<close> (\<open>f_owner\<close>) and
  \<^verbatim>\<open>leader_conns\<close> (\<open>l_owner\<close>). A guard that lives across an \<^verbatim>\<open>.await\<close> has an owner here; a
  guard that is dropped in the statement that takes it makes one step, possible while the lock is
  free. \<open>req\<close> is the position of each request task, \<open>sync\<close> the one of the synchronisation
  task, and \<open>hist\<close> the number of entries of \<^verbatim>\<open>follower_history\<close>.
\<close>

section \<open>Positions\<close>

text \<open>A request: \<open>R_Len\<close> is line 312, \<open>R_Round n\<close> the lock of a turn of the loop
  (line 315) after which \<open>n\<close> turns are left, \<open>R_Target\<close> after the lock, \<open>R_Want\<close> line 337, \<open>R_Have\<close> the inner loop. A write:
  \<open>W_Lock\<close> is line 375, \<open>W_Want\<close> line 380, \<open>W_Have\<close> the loop.\<close>

datatype req_pc =
    Idle
  | R_Len | R_Round nat | R_Target nat | R_Want nat | R_Have nat
  | W_Lock | W_Want | W_Have

text \<open>The synchronisation: \<open>S_Check\<close> is line 95, \<open>S_Reset\<close> line 147, \<open>S_Scan\<close> line 161,
  \<open>S_Fill k\<close> line 176 with \<open>k\<close> slots left, \<open>S_Plan\<close> line 194, \<open>S_Commit\<close> line 230,
  \<open>S_History\<close> line 246 and \<open>S_Store k\<close> line 302 with \<open>k\<close> connections left to store.\<close>

datatype sync_pc =
    S_Idle | S_Check | S_Discover | S_Leader | S_Reset | S_Scan | S_Fill nat | S_Plan | S_Commit
  | S_History nat | S_Store nat

datatype f_holder = By_Sync | By_Req nat

record locks =
  lb_owner :: "nat option"
  f_owner :: "f_holder option"
  l_owner :: "nat option"
  req :: "nat \<Rightarrow> req_pc"
  sync :: sync_pc
  hist :: nat

definition locks_new :: locks where
  "locks_new = \<lparr>lb_owner = None, f_owner = None, l_owner = None, req = (\<lambda>_. Idle), sync = S_Idle, hist = 0\<rparr>"

text \<open>Where a read request goes on when a turn found nothing and \<open>n\<close> turns are left.\<close>

fun next_turn :: "nat \<Rightarrow> req_pc" where
  "next_turn 0 = Idle"
| "next_turn (Suc n) = R_Round n"

abbreviation goto :: "nat \<Rightarrow> req_pc \<Rightarrow> locks \<Rightarrow> locks" where
  "goto t p s \<equiv> s\<lparr>req := (req s)(t := p)\<rparr>"

section \<open>Steps\<close>

text \<open>A step of the request task \<open>t\<close>: \<^verbatim>\<open>next_follower_conn\<close> and \<^verbatim>\<open>next_leader_conn\<close>.\<close>

inductive req_step :: "nat \<Rightarrow> locks \<Rightarrow> locks \<Rightarrow> bool" for t where
  read_start: "req s t = Idle \<Longrightarrow> req_step t s (goto t R_Len s)"
| read_len: "req s t = R_Len \<Longrightarrow> lb_owner s = None \<Longrightarrow> req_step t s (goto t (next_turn (hist s)) s)"
| read_lock: "req s t = R_Round n \<Longrightarrow> lb_owner s = None \<Longrightarrow>
    req_step t s (goto t (R_Target n) (s\<lparr>lb_owner := Some t\<rparr>))"
| read_miss: "req s t = R_Target n \<Longrightarrow> req_step t s (goto t (next_turn n) (s\<lparr>lb_owner := None\<rparr>))"
| read_hit: "req s t = R_Target n \<Longrightarrow> 0 < hist s \<Longrightarrow> req_step t s (goto t (R_Want n) s)"
| read_write: "req s t = R_Want n \<Longrightarrow> f_owner s = None \<Longrightarrow>
    req_step t s (goto t (R_Have n) (s\<lparr>f_owner := Some (By_Req t)\<rparr>))"
| read_found: "req s t = R_Have n \<Longrightarrow> req_step t s (goto t Idle (s\<lparr>f_owner := None, lb_owner := None\<rparr>))"
| read_closed: "req s t = R_Have n \<Longrightarrow> req_step t s (goto t (next_turn n) (s\<lparr>f_owner := None, lb_owner := None\<rparr>))"
| write_start: "req s t = Idle \<Longrightarrow> req_step t s (goto t W_Lock s)"
| write_lock: "req s t = W_Lock \<Longrightarrow> lb_owner s = None \<Longrightarrow> req_step t s (goto t W_Want (s\<lparr>lb_owner := Some t\<rparr>))"
| write_conns: "req s t = W_Want \<Longrightarrow> l_owner s = None \<Longrightarrow> req_step t s (goto t W_Have (s\<lparr>l_owner := Some t\<rparr>))"
| write_done: "req s t = W_Have \<Longrightarrow> req_step t s (goto t Idle (s\<lparr>l_owner := None, lb_owner := None\<rparr>))"

text \<open>A step of the synchronisation: \<^verbatim>\<open>sync_task\<close>, \<^verbatim>\<open>sync_with_cluster\<close>, \<^verbatim>\<open>sync_leader\<close> and
  \<^verbatim>\<open>sync_followers\<close>.\<close>

inductive sync_step :: "locks \<Rightarrow> locks \<Rightarrow> bool" where
  fast_leaders: "sync s = S_Idle \<Longrightarrow> l_owner s = None \<Longrightarrow> sync_step s (s\<lparr>sync := S_Check\<rparr>)"
| fast_enough: "sync s = S_Check \<Longrightarrow> f_owner s = None \<Longrightarrow> sync_step s (s\<lparr>sync := S_Idle\<rparr>)"
| fast_needed: "sync s = S_Check \<Longrightarrow> f_owner s = None \<Longrightarrow> sync_step s (s\<lparr>sync := S_Discover\<rparr>)"
| slow_tick: "sync s = S_Idle \<Longrightarrow> sync_step s (s\<lparr>sync := S_Discover\<rparr>)"
| not_discovered: "sync s = S_Discover \<Longrightarrow> sync_step s (s\<lparr>sync := S_Idle\<rparr>)"
| discovered: "sync s = S_Discover \<Longrightarrow> sync_step s (s\<lparr>sync := S_Leader\<rparr>)"
| same_leader: "sync s = S_Leader \<Longrightarrow> sync_step s (s\<lparr>sync := S_Scan\<rparr>)"
| new_leader: "sync s = S_Leader \<Longrightarrow> sync_step s (s\<lparr>sync := S_Reset\<rparr>)"
| slots_reset: "sync s = S_Reset \<Longrightarrow> l_owner s = None \<Longrightarrow> sync_step s (s\<lparr>sync := S_Scan\<rparr>)"
| slots_scanned: "sync s = S_Scan \<Longrightarrow> l_owner s = None \<Longrightarrow> sync_step s (s\<lparr>sync := S_Fill k\<rparr>)"
| slot_failed: "sync s = S_Fill (Suc k) \<Longrightarrow> sync_step s (s\<lparr>sync := S_Fill k\<rparr>)"
| slot_filled: "sync s = S_Fill (Suc k) \<Longrightarrow> l_owner s = None \<Longrightarrow> sync_step s (s\<lparr>sync := S_Fill k\<rparr>)"
| leader_done: "sync s = S_Fill 0 \<Longrightarrow> sync_step s (s\<lparr>sync := S_Plan\<rparr>)"
| planned: "sync s = S_Plan \<Longrightarrow> f_owner s = None \<Longrightarrow> sync_step s (s\<lparr>sync := S_Commit\<rparr>)"
| commit: "sync s = S_Commit \<Longrightarrow> f_owner s = None \<Longrightarrow>
    sync_step s (s\<lparr>f_owner := Some By_Sync, sync := S_History k\<rparr>)"
| history_read: "sync s = S_History k \<Longrightarrow> lb_owner s = None \<Longrightarrow> sync_step s (s\<lparr>sync := S_Store k\<rparr>)"
| stored_known: "sync s = S_Store (Suc k) \<Longrightarrow> lb_owner s = None \<Longrightarrow> 0 < hist s \<Longrightarrow> sync_step s (s\<lparr>sync := S_Store k\<rparr>)"
| stored_new: "sync s = S_Store (Suc k) \<Longrightarrow> lb_owner s = None \<Longrightarrow> sync_step s (s\<lparr>sync := S_Store k, hist := Suc (hist s)\<rparr>)"
| committed: "sync s = S_Store 0 \<Longrightarrow> sync_step s (s\<lparr>f_owner := None, sync := S_Idle\<rparr>)"

inductive lock_step :: "locks \<Rightarrow> locks \<Rightarrow> bool" where
  by_req: "req_step t s u \<Longrightarrow> lock_step s u"
| by_sync: "sync_step s u \<Longrightarrow> lock_step s u"

inductive lock_run :: "locks \<Rightarrow> locks \<Rightarrow> bool" where
  run_here: "lock_run s s"
| run_more: "lock_run s u \<Longrightarrow> lock_step u v \<Longrightarrow> lock_run s v"

inductive_cases req_stepE: "req_step t s u"
inductive_cases sync_stepE: "sync_step s u"
inductive_cases lock_stepE: "lock_step s u"

section \<open>Who holds what\<close>

fun holds_lb :: "req_pc \<Rightarrow> bool" where
  "holds_lb (R_Target n) = True" | "holds_lb (R_Want n) = True" | "holds_lb (R_Have n) = True"
| "holds_lb W_Want = True" | "holds_lb W_Have = True" | "holds_lb _ = False"

fun holds_f :: "req_pc \<Rightarrow> bool" where
  "holds_f (R_Have n) = True" | "holds_f _ = False"

fun holds_l :: "req_pc \<Rightarrow> bool" where
  "holds_l W_Have = True" | "holds_l _ = False"

fun committing :: "sync_pc \<Rightarrow> bool" where
  "committing (S_History k) = True" | "committing (S_Store k) = True" | "committing _ = False"

fun needs_lb :: "sync_pc \<Rightarrow> bool" where
  "needs_lb (S_History k) = True" | "needs_lb (S_Store (Suc k)) = True" | "needs_lb _ = False"

fun wants_f :: "req_pc \<Rightarrow> bool" where
  "wants_f (R_Want n) = True" | "wants_f _ = False"

definition locks_inv :: "locks \<Rightarrow> bool" where
  "locks_inv s \<longleftrightarrow> (\<forall>t. holds_lb (req s t) \<longleftrightarrow> lb_owner s = Some t)
     \<and> (\<forall>t. holds_f (req s t) \<longleftrightarrow> f_owner s = Some (By_Req t))
     \<and> (committing (sync s) \<longleftrightarrow> f_owner s = Some By_Sync)
     \<and> (\<forall>t. holds_l (req s t) \<longleftrightarrow> l_owner s = Some t)"

text \<open>The two tasks of the inversion: the synchronisation holds \<^verbatim>\<open>followers\<close> and waits for
  \<^verbatim>\<open>load_balancer\<close>, a read request holds \<^verbatim>\<open>load_balancer\<close> and waits for \<^verbatim>\<open>followers\<close>.\<close>

definition inversion :: "locks \<Rightarrow> bool" where
  "inversion s \<longleftrightarrow> needs_lb (sync s) \<and> (\<exists>t. wants_f (req s t))"

text \<open>No task that has begun something can go on.\<close>

definition stuck :: "locks \<Rightarrow> bool" where
  "stuck s \<longleftrightarrow> (\<forall>u. lock_step s u \<longrightarrow> sync u = sync s \<and> (\<forall>t. req s t \<noteq> Idle \<longrightarrow> req u t = req s t))"

section \<open>Lemmas\<close>

lemma next_turn_free [simp]: "\<not> holds_lb (next_turn n)" "\<not> holds_f (next_turn n)" "\<not> holds_l (next_turn n)"
  by (cases n; simp)+

lemma locks_inv_at:
  assumes "locks_inv s"
  shows "holds_lb (req s t) \<longleftrightarrow> lb_owner s = Some t" "holds_f (req s t) \<longleftrightarrow> f_owner s = Some (By_Req t)"
    "holds_l (req s t) \<longleftrightarrow> l_owner s = Some t"
  using assms by (simp_all add: locks_inv_def)

lemma req_step_inv: "req_step t s u \<Longrightarrow> locks_inv s \<Longrightarrow> locks_inv u"
proof (erule req_step.cases)
qed (insert locks_inv_at [of s t], auto simp: locks_inv_def)

lemma sync_step_inv: "sync_step s u \<Longrightarrow> locks_inv s \<Longrightarrow> locks_inv u"
  by (erule sync_stepE) (auto simp: locks_inv_def)

lemma lock_run_inv: "lock_run s u \<Longrightarrow> locks_inv s \<Longrightarrow> locks_inv u"
  by (induction rule: lock_run.induct) (auto elim!: lock_stepE intro: req_step_inv sync_step_inv)

lemma locks_new_inv: "locks_inv locks_new"
  by (simp add: locks_inv_def locks_new_def)


text \<open>A step moves exactly one task, and from a request it moves that request.\<close>

lemma req_step_moves: "req_step t s u \<Longrightarrow> req u t \<noteq> req s t \<and> (\<forall>v. v \<noteq> t \<longrightarrow> req u v = req s v) \<and> sync u = sync s"
  by (erule req_stepE) (auto elim: next_turn.elims)

lemma sync_step_moves: "sync_step s u \<Longrightarrow> sync u \<noteq> sync s \<and> req u = req s"
  by (erule sync_stepE) auto

lemma stuck_enabled:
  "stuck s \<longleftrightarrow> (\<forall>u. \<not> sync_step s u) \<and> (\<forall>t. req s t \<noteq> Idle \<longrightarrow> (\<forall>u. \<not> req_step t s u))"
proof
  assume st: "stuck s"
  have "\<not> sync_step s u" for u using st by_sync [of s u] sync_step_moves [of s u] by (auto simp: stuck_def)
  moreover have "\<not> req_step t s u" if "req s t \<noteq> Idle" for t u
    using st that by_req [of t s u] req_step_moves [of t s u] by (auto simp: stuck_def)
  ultimately show "(\<forall>u. \<not> sync_step s u) \<and> (\<forall>t. req s t \<noteq> Idle \<longrightarrow> (\<forall>u. \<not> req_step t s u))" by blast
next
  assume no: "(\<forall>u. \<not> sync_step s u) \<and> (\<forall>t. req s t \<noteq> Idle \<longrightarrow> (\<forall>u. \<not> req_step t s u))"
  have "sync u = sync s \<and> (req s v \<noteq> Idle \<longrightarrow> req u v = req s v)" if "lock_step s u" for u v
  proof -
    from that no obtain t where t: "req_step t s u" by (auto elim: lock_stepE)
    then have "req s t = Idle" using no by blast
    then show ?thesis using req_step_moves [OF t] by (cases "v = t") auto
  qed
  then show "stuck s" by (simp add: stuck_def)
qed

text \<open>What a task waits for.\<close>

lemma req_enabled: "(\<exists>u. req_step t s u) \<longleftrightarrow>
    (case req s t of R_Len \<Rightarrow> lb_owner s = None | R_Round n \<Rightarrow> lb_owner s = None | R_Want n \<Rightarrow> f_owner s = None
     | W_Lock \<Rightarrow> lb_owner s = None | W_Want \<Rightarrow> l_owner s = None | _ \<Rightarrow> True)"
  (is "?L \<longleftrightarrow> ?R")
proof
  show ?R if ?L using that by (auto elim!: req_stepE)
  show ?L if ?R using that by (cases "req s t") (auto intro: req_step.intros)
qed

lemma sync_enabled: "(\<exists>u. sync_step s u) \<longleftrightarrow>
    (case sync s of S_Check \<Rightarrow> f_owner s = None | S_Plan \<Rightarrow> f_owner s = None | S_Commit \<Rightarrow> f_owner s = None
     | S_Reset \<Rightarrow> l_owner s = None | S_Scan \<Rightarrow> l_owner s = None | p \<Rightarrow> needs_lb p \<longrightarrow> lb_owner s = None)"
  (is "?L \<longleftrightarrow> ?R")
proof
  show ?R if ?L using that by (auto elim!: sync_stepE)
  show ?L if ?R
  proof (cases "sync s")
    case (S_Store k)
    with that show ?thesis by (cases k) (auto intro: sync_step.intros)
  next
    case (S_Fill k)
    then show ?thesis by (cases k) (auto intro: sync_step.intros)
  qed (use that in \<open>auto intro: sync_step.intros\<close>)
qed

text \<open>The owner of \<^verbatim>\<open>leader_conns\<close> can always go on, and a request that owns \<^verbatim>\<open>followers\<close> too.\<close>

lemma l_owner_enabled: "locks_inv s \<Longrightarrow> l_owner s = Some t \<Longrightarrow> req s t \<noteq> Idle \<and> (\<exists>u. req_step t s u)"
  using locks_inv_at(3) [of s t] by (cases "req s t") (auto simp: req_enabled)

lemma f_owner_enabled: "locks_inv s \<Longrightarrow> f_owner s = Some (By_Req t) \<Longrightarrow> req s t \<noteq> Idle \<and> (\<exists>u. req_step t s u)"
  using locks_inv_at(2) [of s t] by (cases "req s t") (auto simp: req_enabled)

lemma stuck_inversion:
  assumes inv: "locks_inv s" and st: "stuck s"
  shows "inversion s"
proof -
  have no: "\<not> sync_step s u" "req s t \<noteq> Idle \<Longrightarrow> \<not> req_step t s u" for u t using st by (auto simp: stuck_enabled)
  have l: "l_owner s = None" using l_owner_enabled [OF inv] no(2) by (cases "l_owner s") auto
  have f: "f_owner s = None \<or> f_owner s = Some By_Sync"
    using f_owner_enabled [OF inv] no(2) by (cases "f_owner s") (auto, metis f_holder.exhaust)
  have c: "committing (sync s) \<longleftrightarrow> f_owner s = Some By_Sync" using inv by (simp add: locks_inv_def)
  have n: "needs_lb (sync s)" "lb_owner s \<noteq> None"
    using sync_enabled [of s] no(1) l f c by (cases "sync s"; auto)+
  then obtain t where t: "lb_owner s = Some t" by blast
  then have "holds_lb (req s t)" using locks_inv_at(1) [OF inv] by simp
  then have "wants_f (req s t)"
    using no(2) [of t] req_enabled [of t s] l by (cases "req s t") auto
  with n show ?thesis by (auto simp: inversion_def)
qed

lemma inversion_owners:
  assumes inv: "locks_inv s" and i: "inversion s"
  shows "\<exists>t. f_owner s = Some By_Sync \<and> lb_owner s = Some t \<and> wants_f (req s t) \<and> l_owner s = None"
proof -
  obtain t where n: "needs_lb (sync s)" and t: "wants_f (req s t)" using i by (auto simp: inversion_def)
  from n have "committing (sync s)" by (cases "sync s" rule: needs_lb.cases) auto
  moreover have lb: "lb_owner s = Some t" using t locks_inv_at(1) [OF inv, of t] by (cases "req s t") auto
  moreover have "l_owner s = None"
  proof (rule ccontr)
    assume "l_owner s \<noteq> None"
    then obtain v where v: "holds_l (req s v)" using locks_inv_at(3) [OF inv] by fastforce
    then have "lb_owner s = Some v" using locks_inv_at(1) [OF inv, of v] by (cases "req s v") auto
    with lb v t show False by (cases "req s t") auto
  qed
  ultimately show ?thesis using inv t by (simp add: locks_inv_def)
qed

lemma inversion_stuck:
  assumes inv: "locks_inv s" and i: "inversion s"
  shows "stuck s"
proof -
  obtain v where o: "f_owner s = Some By_Sync" "lb_owner s = Some v" "wants_f (req s v)" "l_owner s = None"
    using inversion_owners [OF assms] by blast
  have "needs_lb (sync s)" using i by (simp add: inversion_def)
  then have "\<not> sync_step s u" for u using sync_enabled [of s] o by (cases "sync s") auto
  moreover have "\<not> req_step t s u" if "req s t \<noteq> Idle" for t u
    using req_enabled [of t s] that o locks_inv_at [OF inv, of t] by (cases "req s t") auto
  ultimately show ?thesis by (simp add: stuck_enabled)
qed

lemma idle_step: "lock_step s u \<Longrightarrow> req s t = Idle \<Longrightarrow> req u t \<in> {Idle, R_Len, W_Lock}"
  by (elim lock_stepE req_stepE sync_stepE) (auto split: if_splits)

lemma inversion_forever:
  assumes "lock_run s u" and "locks_inv s" and "inversion s"
  shows "sync u = sync s \<and> (\<forall>t. if req s t = Idle then req u t \<in> {Idle, R_Len, W_Lock} else req u t = req s t)"
  using assms
proof (induction rule: lock_run.induct)
  case (run_more s u v)
  then have u: "sync u = sync s" "\<And>t. if req s t = Idle then req u t \<in> {Idle, R_Len, W_Lock} else req u t = req s t"
    by blast+
  obtain t where t: "wants_f (req s t)" using run_more.prems(2) by (auto simp: inversion_def)
  then have "req u t = req s t" using u(2) [of t] by (cases "req s t") auto
  with t u(1) run_more.prems(2) have "inversion u" unfolding inversion_def by metis
  then have "stuck u" by (rule inversion_stuck [OF lock_run_inv [OF run_more.hyps(1) run_more.prems(1)]])
  then have v: "sync v = sync u" "\<And>t. req u t \<noteq> Idle \<Longrightarrow> req v t = req u t"
    using run_more.hyps(2) by (simp_all add: stuck_def)
  have r: "if req s t = Idle then req v t \<in> {Idle, R_Len, W_Lock} else req v t = req s t" for t
    using u(2) [of t] v(2) [of t] idle_step [OF run_more.hyps(2), of t] by (cases "req u t = Idle") (auto split: if_splits)
  have "sync v = sync s" using u(1) v(1) by simp
  then show ?case by (intro conjI allI) (assumption, rule r)
qed simp

text \<open>The run to the inversion: a first synchronisation stores a connection; later a read request
  takes \<^verbatim>\<open>load_balancer\<close> while the next synchronisation takes \<^verbatim>\<open>followers\<close>.\<close>

definition inverted :: locks where
  "inverted = locks_new\<lparr>lb_owner := Some 0, f_owner := Some By_Sync, req := (\<lambda>_. Idle)(0 := R_Want 0),
     sync := S_History 0, hist := 1\<rparr>"

lemma run_sync: "lock_run s u \<Longrightarrow> sync_step u v \<Longrightarrow> lock_run s v"
  by (blast intro: run_more by_sync)

lemma run_req: "lock_run s u \<Longrightarrow> req_step t u v \<Longrightarrow> lock_run s v"
  by (blast intro: run_more by_req)

lemma reach_commit:
  assumes "lock_run locks_new (locks_new\<lparr>hist := h\<rparr>)"
  shows "lock_run locks_new (locks_new\<lparr>hist := h, f_owner := Some By_Sync, sync := S_History k\<rparr>)"
proof -
  let ?s = "\<lambda>p. locks_new\<lparr>hist := h, sync := p\<rparr>"
  have "lock_run locks_new (?s S_Idle)" using assms by (simp add: locks_new_def)
  then have "lock_run locks_new (?s S_Discover)" using run_sync [OF _ slow_tick [of "?s S_Idle"]] by simp
  then have "lock_run locks_new (?s S_Leader)" using run_sync [OF _ discovered [of "?s S_Discover"]] by simp
  then have "lock_run locks_new (?s S_Scan)" using run_sync [OF _ same_leader [of "?s S_Leader"]] by simp
  then have "lock_run locks_new (?s (S_Fill 0))"
    using run_sync [OF _ slots_scanned [of "?s S_Scan" 0]] by (simp add: locks_new_def)
  then have "lock_run locks_new (?s S_Plan)" using run_sync [OF _ leader_done [of "?s (S_Fill 0)"]] by simp
  then have "lock_run locks_new (?s S_Commit)"
    using run_sync [OF _ planned [of "?s S_Plan"]] by (simp add: locks_new_def)
  then show ?thesis using run_sync [OF _ commit [of "?s S_Commit" k]] by (simp add: locks_new_def)
qed

lemma inverted_reachable: "lock_run locks_new inverted"
proof -
  let ?c = "locks_new\<lparr>hist := 0, f_owner := Some By_Sync, sync := S_History 1\<rparr>"
  have "lock_run locks_new ?c" using reach_commit [of 0 1] run_here [of locks_new] by (simp add: locks_new_def)
  then have "lock_run locks_new (?c\<lparr>sync := S_Store 1\<rparr>)"
    using run_sync [OF _ history_read [of ?c 1]] by (simp add: locks_new_def)
  then have "lock_run locks_new (?c\<lparr>sync := S_Store 0, hist := 1\<rparr>)"
    using run_sync [OF _ stored_new [of "?c\<lparr>sync := S_Store 1\<rparr>" 0]] by (simp add: locks_new_def)
  then have "lock_run locks_new (locks_new\<lparr>hist := 1\<rparr>)"
    using run_sync [OF _ committed [of "?c\<lparr>sync := S_Store 0, hist := 1\<rparr>"]] by (simp add: locks_new_def)
  from reach_commit [OF this, of 0]
  have d: "lock_run locks_new (locks_new\<lparr>hist := 1, f_owner := Some By_Sync, sync := S_History 0\<rparr>)" (is "lock_run _ ?d") .
  have "lock_run locks_new (goto 0 R_Len ?d)" using run_req [OF d read_start] by (simp add: locks_new_def)
  then have "lock_run locks_new (goto 0 (R_Round 0) ?d)"
    using run_req [OF _ read_len [of "goto 0 R_Len ?d" 0]] by (simp add: locks_new_def)
  then have "lock_run locks_new (goto 0 (R_Target 0) (?d\<lparr>lb_owner := Some 0\<rparr>))"
    using run_req [OF _ read_lock [of "goto 0 (R_Round 0) ?d" 0 0]] by (simp add: locks_new_def)
  then show ?thesis
    using run_req [OF _ read_hit [of "goto 0 (R_Target 0) (?d\<lparr>lb_owner := Some 0\<rparr>)" 0 0]]
    by (simp add: locks_new_def inverted_def)
qed

lemma inverted_inversion: "inversion inverted"
  by (auto simp: inversion_def inverted_def intro: exI [of _ 0])

section \<open>Properties\<close>

text \<open>The locks of the cluster handler exclude what they should: in every interleaving at most one
  task works on the followers' map (a request in its inner loop or the commit of the
  synchronisation), at most one on the leader vector, and at most one request is between taking and
  releasing the load balancer.\<close>
lemma locks_exclude:
  assumes "lock_run locks_new s"
  shows "(committing (sync s) \<longrightarrow> \<not> holds_f (req s t))
    \<and> (t \<noteq> u \<longrightarrow> \<not> (holds_lb (req s t) \<and> holds_lb (req s u)) \<and> \<not> (holds_f (req s t) \<and> holds_f (req s u))
        \<and> \<not> (holds_l (req s t) \<and> holds_l (req s u)))"
  using lock_run_inv [OF assms locks_new_inv] by (auto simp: locks_inv_def)

text \<open>C9: The tasks of the cluster handler block each other in one way only: in every interleaving, all
  the tasks that have begun something are blocked exactly when the synchronisation holds
  \<^verbatim>\<open>followers\<close> and waits for \<^verbatim>\<open>load_balancer\<close> while a read request holds \<^verbatim>\<open>load_balancer\<close> and waits for
  \<^verbatim>\<open>followers\<close>.\<close>
theorem stuck_iff_inversion:
  assumes "lock_run locks_new s"
  shows "stuck s \<longleftrightarrow> inversion s"
  using lock_run_inv [OF assms locks_new_inv] stuck_inversion inversion_stuck by blast

lemma stuck_iff_inversion_witness: "stuck inverted"
  using stuck_iff_inversion [OF inverted_reachable] inverted_inversion by simp

text \<open>C8: The two lock orders deadlock for ever: once a read request holds \<^verbatim>\<open>load_balancer\<close> and waits for
  \<^verbatim>\<open>followers\<close> while the synchronisation holds \<^verbatim>\<open>followers\<close> and waits for \<^verbatim>\<open>load_balancer\<close>, neither the
  synchronisation nor any request in progress makes another step, and a request that arrives
  later, read or write, stops at its first lock. Such a state is reachable.\<close>
theorem inversion_is_permanent:
  assumes "lock_run locks_new s" and "inversion s" and "lock_run s u"
  shows "sync u = sync s \<and> (\<forall>t. if req s t = Idle then req u t \<in> {Idle, R_Len, W_Lock} else req u t = req s t)"
  using inversion_forever [OF assms(3) lock_run_inv [OF assms(1) locks_new_inv] assms(2)] .

lemma inversion_is_permanent_witness:
  "lock_run inverted (goto 1 W_Lock inverted) \<and> sync (goto 1 W_Lock inverted) = S_History 0
    \<and> req (goto 1 W_Lock inverted) 0 = R_Want 0 \<and> req (goto 1 W_Lock inverted) 1 = W_Lock"
proof -
  have "req inverted 1 = Idle" by (simp add: inverted_def)
  then have r: "lock_run inverted (goto 1 W_Lock inverted)" by (rule run_req [OF run_here write_start])
  have "sync inverted = S_History 0" "req inverted 0 = R_Want 0" by (simp_all add: inverted_def)
  with inversion_is_permanent [OF inverted_reachable inverted_inversion r] r show ?thesis by auto
qed

end
