(* ===== verification/Rz_Chunking.thy ===== *)
theory Rz_Chunking
  imports Rz_Tcp_Server
begin

text \<open>
  The connection task of \<^verbatim>\<open>src/tcp_server.rs\<close> on a stream of requests that arrives in reads of any
  sizes: it does what \<open>serve\<close> does on the decoded requests. The receive buffer between two reads
  holds a proper prefix of the next frame; the locale \<open>framed_codec\<close> of \<open>Rz_Stream\<close> says that the
  decoder waits on it.
\<close>

section \<open>What the router and the cluster can see\<close>

text \<open>Two results agree when the task goes the same way, has done the same things and left the same
  world; counters, times and buffer may differ.\<close>

definition same_view :: "control \<times> handler \<times> 'w \<Rightarrow> control \<times> handler \<times> 'w \<Rightarrow> bool" where
  "same_view x y \<longleftrightarrow> fst x = fst y \<and> log (fst (snd x)) = log (fst (snd y)) \<and> snd (snd x) = snd (snd y)"

text \<open>The clock stays within the frame timeout, and reading it changes nothing.\<close>

definition in_time :: "'w server_io \<Rightarrow> Config \<Rightarrow> instant \<Rightarrow> bool" where
  "in_time io cfg t0 \<longleftrightarrow> (\<forall>w. snd (io_now io w) = w \<and> t0 \<le> fst (io_now io w) \<and> fst (io_now io w) \<le> t0 + int (frame_timeout cfg))"

definition fresh_frame :: "Config \<Rightarrow> instant \<Rightarrow> handler \<Rightarrow> bool" where
  "fresh_frame cfg t0 h \<longleftrightarrow> t0 \<le> last_frame_time h \<and> last_frame_time h \<le> t0 + int (frame_timeout cfg)"

text \<open>The buffer holds nothing, or a proper prefix of the next request's frame.\<close>

definition incomplete :: "bytes \<Rightarrow> (string \<times> bool \<times> bytes \<times> u32) list \<Rightarrow> bool" where
  "incomplete b reqs \<longleftrightarrow> b = [] \<or> (\<exists>g rs. reqs = g # rs \<and> strict_prefix b (router_enc g))"

section \<open>The message-level server\<close>

lemma do_request_view:
  assumes "log h = log h'"
  shows "same_view (do_request io iw sf cid h w) (do_request io iw sf cid h' w)"
  using assms by (auto simp: do_request_def same_view_def handler_defs Let_def split: prod.splits sum.splits if_splits)

lemma serve_one_view:
  assumes "log h = log h'"
  shows "same_view (serve_one io cfg r h w) (serve_one io cfg r h' w)"
proof (cases r)
  case (fields seg iw sf cid)
  have "same_view (do_request io iw sf cid (bump inc_frames_received (h\<lparr>last_frame_time := n\<rparr>)) w1)
      (do_request io iw sf cid (bump inc_frames_received (h'\<lparr>last_frame_time := n\<rparr>)) w1)" for n w1
    by (rule do_request_view) (simp add: bump_def assms)
  then show ?thesis using assms
    by (auto simp: fields serve_one_def same_view_def handler_defs Let_def split: prod.splits)
qed

lemma serve_view: "log h = log h' \<Longrightarrow> same_view (serve io cfg rs h w) (serve io cfg rs h' w)"
proof (induction rs arbitrary: h h' w)
  case Nil
  then show ?case by (simp add: same_view_def)
next
  case (Cons r rs)
  obtain c h1 w1 where a: "serve_one io cfg r h w = (c, h1, w1)" by (rule prod_cases3)
  obtain c' h2 w2 where b: "serve_one io cfg r h' w = (c', h2, w2)" by (rule prod_cases3)
  have "c' = c" "log h2 = log h1" "w2 = w1" using serve_one_view [OF Cons.prems, of io cfg r w] a b by (simp_all add: same_view_def)
  with a b Cons.IH [of h1 h2 w1] show ?case by (cases c) (simp_all add: same_view_def)
qed

lemma serve_append:
  "serve io cfg (rs @ rs') h w = (case serve io cfg rs h w of (Continue, h', w') \<Rightarrow> serve io cfg rs' h' w' | r \<Rightarrow> r)"
proof (induction rs arbitrary: h w)
  case (Cons r rs)
  obtain c h1 w1 where "serve_one io cfg r h w = (c, h1, w1)" by (rule prod_cases3)
  with Cons show ?case by (cases c) simp_all
qed simp

lemma serve_one_result:
  assumes "serve_one io cfg r h w = (c, h', w')"
  shows "c = Return \<or> c = Continue \<and> last_frame_time h' = fst (io_now io w)"
  using assms
  by (cases r) (auto simp: serve_one_def do_request_def handler_defs Let_def split: prod.splits sum.splits if_splits)

lemma serve_result:
  assumes "serve io cfg rs h w = (c, h', w')" and "in_time io cfg t0" and "fresh_frame cfg t0 h"
  shows "c = Return \<or> c = Continue \<and> fresh_frame cfg t0 h'"
  using assms(1,3)
proof (induction rs arbitrary: h w)
  case (Cons r rs)
  obtain c1 h1 w1 where a: "serve_one io cfg r h w = (c1, h1, w1)" by (rule prod_cases3)
  from serve_one_result [OF a] show ?case
  proof
    assume "c1 = Return"
    with a Cons.prems show ?thesis by simp
  next
    assume c: "c1 = Continue \<and> last_frame_time h1 = fst (io_now io w)"
    then have "fresh_frame cfg t0 h1" using assms(2) by (simp add: fresh_frame_def in_time_def)
    with c a Cons show ?thesis by simp
  qed
qed simp

section \<open>The buffer between two reads\<close>

lemma router_enc_nonempty [simp]: "router_enc f \<noteq> []"
  by (auto simp: router_enc_def router_layout_def split: prod.splits)

lemma split_buffer:
  assumes "prefix b (concat (map router_enc reqs))"
  shows "\<exists>rs1 rs2 p. reqs = rs1 @ rs2 \<and> b = concat (map router_enc rs1) @ p \<and> incomplete p rs2"
  using assms
proof (induction reqs arbitrary: b)
  case Nil
  then show ?case by (auto simp: incomplete_def)
next
  case (Cons g reqs)
  then consider "prefix b (router_enc g)" | us where "b = router_enc g @ us" "prefix us (concat (map router_enc reqs))"
    by (auto simp: prefix_append)
  then show ?case
  proof cases
    case 1
    show ?thesis
    proof (cases "b = router_enc g")
      case True
      then show ?thesis by (intro exI [of _ "[g]"] exI [of _ reqs] exI [of _ "[]"]) (simp add: incomplete_def)
    next
      case False
      with 1 show ?thesis
        by (intro exI [of _ "[]"] exI [of _ "g # reqs"] exI [of _ b]) (auto simp: incomplete_def strict_prefix_def)
    qed
  next
    case 2
    with Cons.IH obtain rs1 rs2 p where "reqs = rs1 @ rs2" "us = concat (map router_enc rs1) @ p" "incomplete p rs2" by blast
    with 2 show ?thesis by (intro exI [of _ "g # rs1"] exI [of _ rs2] exI [of _ p]) simp
  qed
qed

lemma incomplete_needs_more:
  assumes "incomplete p rs" and "\<forall>f \<in> set rs. router_ok f"
  shows "try_decode_router p = Some NeedMore"
proof (cases "p = []")
  case False
  with assms obtain g where g: "strict_prefix p (router_enc g)" "router_ok g" by (auto simp: incomplete_def)
  then show ?thesis by (cases g) (auto simp: router_ok_def router_enc_def intro: decode_partial)
qed (simp add: try_decode_router_def)

lemma drain_incomplete:
  assumes "incomplete (buf h) rs" and "\<forall>f \<in> set rs. router_ok f" and "length (buf h) \<le> max_buffer_size cfg"
    and "in_time io cfg t0" and "fresh_frame cfg t0 h"
  shows "drain_loop io cfg h w = (Break, h, w)"
proof -
  obtain n where n: "io_now io w = (n, w)" "t0 \<le> n" "n \<le> t0 + int (frame_timeout cfg)"
    using assms(4) unfolding in_time_def by (metis prod.collapse)
  then have "\<not> elapsed n (last_frame_time h) > int (frame_timeout cfg)"
    using assms(5) by (auto simp: elapsed_def fresh_frame_def max_def)
  then show ?thesis
    using incomplete_needs_more [OF assms(1,2)] assms(3) n(1)
    by (simp add: drain_loop.simps drain_iteration_def)
qed

section \<open>Any sequence of reads\<close>

definition outcome_of :: "control \<Rightarrow> outcome" where
  "outcome_of c = (if c = Continue then Waiting else Finished)"

lemma conn_loop_chunks:
  assumes "\<forall>f \<in> set reqs. router_ok f" and "buf h @ concat cs = concat (map router_enc reqs)" and "[] \<notin> set cs"
    and "length (buf h @ concat cs) \<le> max_buffer_size cfg" and it: "in_time io cfg t0" and "fresh_frame cfg t0 h"
    and "incomplete (buf h) reqs"
  shows "case conn_loop io cfg (map Read_Ok cs) h w of (r, h', w') \<Rightarrow>
      (case serve io cfg reqs h w of (c, h1, w1) \<Rightarrow> r = outcome_of c \<and> log h' = log h1 \<and> w' = w1)"
  using assms(1-4,6-)
proof (induction cs arbitrary: h w reqs)
  case Nil
  have "reqs = []"
  proof (cases reqs)
    case (Cons g rs)
    with Nil.prems(2,6) show ?thesis by (auto simp: incomplete_def strict_prefix_def prefix_def)
  qed simp
  then show ?case by (simp add: outcome_of_def)
next
  case (Cons ch cs)
  have "prefix (buf h @ ch) (concat (map router_enc reqs))"
    using Cons.prems(2) by (metis append.assoc concat.simps(2) prefixI)
  then obtain rs1 rs2 p where s: "reqs = rs1 @ rs2" "buf h @ ch = concat (map router_enc rs1) @ p" "incomplete p rs2"
    using split_buffer by blast
  have ok: "\<forall>f \<in> set rs1. router_ok f" "\<forall>f \<in> set rs2. router_ok f" using Cons.prems(1) s(1) by auto
  let ?h = "bump (add_bytes_received (length ch)) (h\<lparr>buf := buf h @ ch\<rparr>)"
  have lh: "log ?h = log h" "buf ?h = buf h @ ch" and ff: "fresh_frame cfg t0 ?h"
    using Cons.prems(5) by (simp_all add: bump_def fresh_frame_def)
  have "length (buf h @ ch) = length (concat (map router_enc rs1)) + length p" unfolding s(2) by simp
  then have sz: "length (buf ?h) \<le> max_buffer_size cfg" "length p + length (concat cs) \<le> max_buffer_size cfg"
    using Cons.prems(4) by (simp_all add: lh(2))
  obtain c h1 w1 where sv: "serve io cfg rs1 ?h w = (c, h1, w1)" by (rule prod_cases3)
  obtain b where d: "drain_loop io cfg ?h w = (case serve io cfg rs1 ?h w of
       (Continue, h', w') \<Rightarrow> drain_loop io cfg (h'\<lparr>buf := p\<rparr>) w' | (c, h', w') \<Rightarrow> (c, h'\<lparr>buf := b\<rparr>, w'))"
    using drain_loop_requests [OF ok(1), of ?h p cfg io w] lh(2) s(2) sz(1) by auto
  have v: "same_view (serve io cfg reqs h w) (serve io cfg reqs ?h w)" by (rule serve_view) (simp add: lh)
  have ne: "ch \<noteq> []" using Cons.prems(3) by auto
  from serve_result [OF sv it ff] show ?case
  proof
    assume c: "c = Return"
    then have "handle_event io cfg (Read_Ok ch) h w = (Return, h1\<lparr>buf := b\<rparr>, w1)"
      using d sv ne by (simp add: handle_event_def)
    moreover have "serve io cfg reqs ?h w = (Return, h1, w1)" by (simp add: s(1) serve_append sv c)
    ultimately show ?thesis using v by (auto simp: same_view_def outcome_of_def split: prod.splits)
  next
    assume c: "c = Continue \<and> fresh_frame cfg t0 h1"
    let ?h1 = "h1\<lparr>buf := p\<rparr>"
    have f1: "fresh_frame cfg t0 ?h1" using c by (simp add: fresh_frame_def)
    have "drain_loop io cfg ?h1 w1 = (Break, ?h1, w1)"
      by (rule drain_incomplete [OF _ ok(2) _ it f1]) (use s(3) sz(2) in simp_all)
    then have "handle_event io cfg (Read_Ok ch) h w = (Continue, ?h1, w1)"
      using d sv c ne by (simp add: handle_event_def)
    moreover have "case conn_loop io cfg (map Read_Ok cs) ?h1 w1 of (r, h', w') \<Rightarrow>
        (case serve io cfg rs2 ?h1 w1 of (c, h2, w2) \<Rightarrow> r = outcome_of c \<and> log h' = log h2 \<and> w' = w2)"
    proof (rule Cons.IH [OF ok(2) _ _ _ f1])
      have "(buf h @ ch) @ concat cs = concat (map router_enc reqs)" using Cons.prems(2) by simp
      then show e: "buf ?h1 @ concat cs = concat (map router_enc rs2)" using s(1,2) by simp
      show "length (buf ?h1 @ concat cs) \<le> max_buffer_size cfg" using sz(2) by simp
    qed (use Cons.prems(3) s(3) in simp_all)
    moreover have "same_view (serve io cfg rs2 ?h1 w1) (serve io cfg rs2 h1 w1)" by (rule serve_view) simp
    moreover have "serve io cfg reqs ?h w = serve io cfg rs2 h1 w1" by (simp add: s(1) serve_append sv c)
    ultimately show ?thesis using v by (auto simp: same_view_def split: prod.splits)
  qed
qed

section \<open>Property\<close>

text \<open>C16: However the bytes of a sequence of requests are cut into reads, the connection task executes
  exactly these requests, in order, and writes the replies of the message-level server \<open>serve\<close>
  that gets them already decoded: the same actions and the same end, as long as the bytes fit into
  the receive buffer and arrive within the frame timeout.\<close>
theorem requests_any_chunking:
  assumes "\<forall>f \<in> set reqs. router_ok f" and "concat cs = concat (map router_enc reqs)" and "[] \<notin> set cs"
    and "length (concat cs) \<le> max_buffer_size cfg" and "in_time io cfg t0"
    and "handle_connection io cfg m (map Read_Ok cs) w = (r, h', w')"
    and "serve io cfg reqs \<lparr>buf = [], last_frame_time = t0, metrics = m, log = []\<rparr> w = (c, h1, w1)"
  shows "r = (if c = Continue then Waiting else Finished) \<and> log h' = log h1 \<and> w' = w1"
proof -
  obtain n where n: "io_now io w = (n, w)" "t0 \<le> n" "n \<le> t0 + int (frame_timeout cfg)"
    using assms(5) unfolding in_time_def by (metis prod.collapse)
  let ?h = "\<lparr>buf = [], last_frame_time = n, metrics = m, log = []\<rparr>"
  have "case conn_loop io cfg (map Read_Ok cs) ?h w of (r, h', w') \<Rightarrow>
      (case serve io cfg reqs ?h w of (c, h1, w1) \<Rightarrow> r = outcome_of c \<and> log h' = log h1 \<and> w' = w1)"
    by (rule conn_loop_chunks [OF assms(1) _ assms(3) _ assms(5)])
      (use assms(2,4) n in \<open>simp_all add: fresh_frame_def incomplete_def\<close>)
  moreover have "same_view (serve io cfg reqs ?h w) (c, h1, w1)"
    unfolding assms(7) [symmetric] by (rule serve_view) simp
  moreover have "conn_loop io cfg (map Read_Ok cs) ?h w = (r, h', w')"
    using assms(6) n by (simp add: handle_connection_def)
  ultimately show ?thesis by (auto simp: same_view_def outcome_of_def split: prod.splits)
qed

definition still_io :: "int server_io" where
  "still_io = (echo_io 0)\<lparr>io_now := (\<lambda>w. (0, w))\<rparr>"

lemma requests_any_chunking_witness:
  "log (fst (snd (handle_connection still_io sample_config BridgeMetrics_new
      (map Read_Ok [take 3 (router_enc sample_request), drop 3 (router_enc sample_request)]) 0))) =
   [Executed True (prepend_header 7 []) (Inr (prepend_header 7 [])), Wrote (prepend_header 7 []) True, Flushed]"
proof -
  let ?q = "router_enc sample_request" and ?io = still_io
  obtain r h' w' where h: "handle_connection ?io sample_config BridgeMetrics_new
      (map Read_Ok [take 3 ?q, drop 3 ?q]) 0 = (r, h', w')" by (rule prod_cases3)
  obtain c h1 w1 where s: "serve ?io sample_config [sample_request]
      \<lparr>buf = [], last_frame_time = 0, metrics = BridgeMetrics_new, log = []\<rparr> 0 = (c, h1, w1)" by (rule prod_cases3)
  have l: "length ?q = 17" by (rule length_sample_request)
  have "log h' = log h1"
  proof -
    have "\<forall>f \<in> set [sample_request]. router_ok f" by (simp add: sample_request_ok)
    moreover have "[] \<notin> set [take 3 ?q, drop 3 ?q]" using l by auto
    moreover have "length (concat [take 3 ?q, drop 3 ?q]) \<le> max_buffer_size sample_config"
      using l by (simp add: default_config_def)
    moreover have "in_time ?io sample_config 0" by (simp add: in_time_def still_io_def)
    ultimately show ?thesis using requests_any_chunking [OF _ _ _ _ _ h s] by simp
  qed
  moreover have "log h1 = [Executed True (prepend_header 7 []) (Inr (prepend_header 7 [])), Wrote (prepend_header 7 []) True, Flushed]"
    using s by (auto simp: sample_request_def serve_one_def do_request_def still_io_def echo_io_def handler_defs KEEPALIVE_SEGMENT_def
        default_config_def Let_def)
  ultimately show ?thesis using h by simp
qed

end
