(* ===== verification/Spec2Isabelle.thy ===== *)
theory Spec2Isabelle
  imports Rz_Bridge Rz_Delivery Rz_Progress Rz_Exchange Rz_Answers Rz_Startup Rz_Locks Rz_Chunking
begin

text \<open>
  \<^bold>\<open>rzbridge: a verification library\<close>

  rzbridge sits between a router and the nodes of one roomzin shard. It accepts TCP connections
  from routers, takes request frames off them, sends each request to the leader (a write) or to a
  follower (a read) over a pool of multiplexed node connections, and writes the node's response back.
  A background task finds the current leader and followers through two HTTP services (RZID and
  RzPoint) and the nodes' own HTTP interface, and keeps the pool filled. The crate is the Rust code
  under \<^verbatim>\<open>src/src\<close>; the theories follow its files.

  \<^bold>\<open>Conventions.\<close> A computation that may panic has an \<open>option\<close> type, with \<open>None\<close> for the panic;
  \<^verbatim>\<open>Result<T, RZError>\<close> is \<open>RZError + 'a\<close>; a future that is not ready is \<open>Pending\<close>. Bytes, ports
  and correlation ids are words of their width; \<^verbatim>\<open>usize\<close> and \<^verbatim>\<open>u64\<close> values are natural numbers, with the
  casts to \<^verbatim>\<open>u32\<close> and the wrap-around of atomic counters written out. A hash map is an association
  list with distinct keys; wherever the code iterates over one, the order is a parameter that may be
  any permutation. Sockets, the clock, the HTTP client, JSON decoding and what other tasks do
  while an operation waits are parameters too, constrained only where a theorem says so. Loops are
  structural recursion over the events or the attempts left, or recursion with a proved measure
  (\<open>drain_loop\<close>, \<open>read_loop\<close>: the bytes not yet consumed); no fuel is used.

  \<^bold>\<open>Theories, in the order of their imports.\<close>

  \<^item> \<open>Rz_Prelude\<close>: integers, slices, little-endian codecs, UTF-8, tasks, association lists.
  \<^item> \<open>Rz_Error\<close> (\<^verbatim>\<open>error.rs\<close>), \<open>Rz_Config\<close> (\<^verbatim>\<open>config.rs\<close>), \<open>Rz_Metrics\<close> (\<^verbatim>\<open>metrics.rs\<close>),
    \<open>Rz_Text\<close> (the string functions of Rust's library the crate calls).
  \<^item> \<open>Rz_Stream\<close>: the locales \<open>framing\<close> and \<open>framed_codec\<close>, the contract of a frame recogniser on a byte
    stream: however the stream is cut into reads, the frames come out once and in order.
  \<^item> \<open>Rz_Protocol\<close> (\<^verbatim>\<open>protocol.rs\<close>): the two decoders and the encoders, with interpretations of
    \<open>framed_codec\<close> on both. The router's decoder reports a frame exactly for well-formed input, never
    panics, and inverts the encoder of the integration tests.
  \<^item> \<open>Rz_Executor\<close>: the interface between server and cluster: the record \<open>server_io\<close> and the locale
    \<open>executor\<close>, the contract of \<^verbatim>\<open>execute\<close>.
  \<^item> \<open>Rz_Tcp_Server\<close> (\<^verbatim>\<open>tcp_server.rs\<close>): \<open>handle_connection\<close> on the sequence of its events and the
    accept loop as the step relation \<open>server_step\<close>. The task never panics, closes exactly once, keeps its
    counters balanced and its buffer bounded, recovers after garbage without a false frame head, and refines \<open>serve\<close>, the server
    on requests that are already decoded. Its lemmas on requests and replies are proved in the
    locale \<open>executor\<close>.
  \<^item> \<open>Rz_Chunking\<close>: the connection task serves the same requests however their bytes are cut into reads.
  \<^item> \<open>Rz_Demux\<close> (\<^verbatim>\<open>demux.rs\<close>): the table of pending requests, with the locale \<open>pending_table\<close>.
  \<^item> \<open>Rz_Connection\<close> (\<^verbatim>\<open>connection.rs\<close>): a node connection: its operations, the read and the write task, and
    the step relation \<open>conn_step\<close> that interleaves them with requests. A response reaches the
    requester with its correlation id, in every interleaving.
  \<^item> \<open>Rz_Http\<close>, \<open>Rz_Resolver\<close> (\<^verbatim>\<open>resolver.rs\<close>), \<open>Rz_Rzid\<close> (\<^verbatim>\<open>rzid.rs\<close>): the HTTP clients of the control
    plane: requests, retries, the heartbeat.
  \<^item> \<open>Rz_Topology\<close> (\<^verbatim>\<open>topology.rs\<close>): probing in two phases, the vote, the fallback to RZID.
  \<^item> \<open>Rz_Cluster\<close>, \<open>Rz_Cluster_Inv\<close>, \<open>Rz_Cluster_Props\<close> (\<^verbatim>\<open>cluster_handler.rs\<close>): the pool, its
    synchronisation and the choice of a connection; the step relation \<open>cluster_step\<close>, whose atomic
    steps are the stretches of code between two points where all locks are free; the invariant
    \<open>cluster_inv\<close>; the locale \<open>conn_chooser\<close> with interpretations on both choices.
  \<^item> \<open>Rz_Expiry\<close>: what the clean-ups behind \<^verbatim>\<open>timeout_sec\<close> can expire: requests on closed connections only.
  \<^item> \<open>Rz_Sync\<close>: the synchronisation task as a whole, and that one run of \<^verbatim>\<open>sync_with_cluster\<close> is a run
    of \<open>cluster_step\<close>.
  \<^item> \<open>Rz_Locks\<close>: the order in which the tasks of the cluster handler take its locks. It justifies the
    atomic steps (\<open>locks_exclude\<close>) and shows that the tasks deadlock in exactly one way.
  \<^item> \<open>Rz_Execute\<close>: \<^verbatim>\<open>ClusterHandler::execute\<close> with its three attempts, what it does to a connection as steps
    of \<open>conn_step\<close>, and the interpretation of \<open>executor\<close> on it.
  \<^item> \<open>Rz_System\<close>: the whole bridge as one system: any number of requests inside \<^verbatim>\<open>execute\<close> (\<open>task_step\<close>), stopped at
    each of its awaits, over connections they share with the read and write tasks (\<open>pool_step\<close>), and nodes
    that answer what they were sent. In every interleaving no request gets the answer to another one, no request is
    sent twice, and nothing but requests reaches the nodes; the invariant is \<open>bridge_inv\<close>.
  \<^item> \<open>Rz_Progress\<close>: how \<^verbatim>\<open>execute\<close> ends in this system: at most 16 steps of its own, and never stuck other than in the two awaits that
    have no timeout.
  \<^item> \<open>Rz_Exchange\<close>: one request through \<^verbatim>\<open>execute\<close> and the read and write task of the connection it chooses, with the node's answer as bytes.
  \<^item> \<open>Rz_Delivery\<close>: a request that waits is registered where its frame went, so a node's answer completes it.
  \<^item> \<open>Rz_Bridge\<close>: the models above inside this system: what \<open>cluster_step\<close> does to the connections are steps of
    the pool, and an attempt of \<open>exec_loop\<close> is a run of its task.
  \<^item> \<open>Rz_Service\<close>, \<open>Rz_Answers\<close>: the running service: router connections with the code of \<open>Rz_Tcp_Server\<close>, spawned by the
    accept loop, over the system of \<open>Rz_System\<close>. Each router task is a run of \<open>handle_connection\<close>, at most
    \<^verbatim>\<open>max_connections\<close> run, and every router gets the answers to its own requests.
  \<^item> \<open>Rz_Startup\<close> (\<^verbatim>\<open>main.rs\<close>, \<^verbatim>\<open>lib.rs\<close>, \<^verbatim>\<open>api.rs\<close>): the stages of start-up.
  \<^item> This theory: the server on top of the cluster handler, end to end.

  \<^bold>\<open>Bounds.\<close> The theorems on the pool assume \<^verbatim>\<open>conn_per_roomzin_node\<close> and the number of followers below
  $2^{32}$, the width of the indices; the one on the connection limit assumes \<^verbatim>\<open>max_connections\<close> below
  $2^{64}$. The theorems on the whole system hold as long as no connection has handed out more than $2^{32}$
  correlation ids (\<open>no_wrap\<close>): the counter then wraps, and an id may be in use twice. Frames of the router are at most 16 MiB and payloads of nodes below $2^{32}$ bytes by the code's
  own checks and field widths. Products of a configured number of seconds with a small constant are
  taken not to overflow 64 bits; instants are integers, so that subtracting a duration from one does not fail. A write to a node's socket
  takes the whole frame or, when it fails, counts as nothing written.

  \<^bold>\<open>Where the code does not do what it says.\<close> The theorems \<open>error_replies_never_close\<close>,
  \<open>waiters_stay_after_read_end\<close>, \<open>unreachable_nodes_hide_followers\<close>, \<open>frame_timeout_counts_idle_time\<close>,
  \<open>open_requests_never_expire\<close>, \<open>inversion_is_permanent\<close> and \<open>sync_task_runs\<close> state behaviour that a comment, the documentation or the
  purpose of the code contradicts.

  \<^bold>\<open>Not modelled.\<close> Log output, command-line parsing (clap), the bodies of JSON documents (serde), the
  Prometheus text format, TLS and HTTP themselves (reqwest, axum), tokio's scheduler and the
  fairness of its locks, the drop of background tasks when the runtime shuts down, and the integration tests
  apart from their router-side encoder. The internal lock of the demultiplexer is never held across
  an await, so its operations are atomic steps.
\<close>

section \<open>The server on top of the cluster handler\<close>

text \<open>The environment of a connection task when the server runs on the cluster handler: requests go
  to \<open>execute\<close>, the clock is the one of the handler's world, and \<open>wr\<close> says which writes to
  the router's socket succeed.\<close>

definition bridge_io :: "exec_env \<Rightarrow> (bytes \<Rightarrow> world \<Rightarrow> bool) \<Rightarrow> world server_io" where
  "bridge_io env wr = \<lparr>io_now = (\<lambda>w. (e_now env w, w)), io_execute = run_execute env,
     io_write_all = (\<lambda>b w. (wr b w, w)), io_flush = (\<lambda>w. w)\<rparr>"

text \<open>C6: Every reply the bridge writes to a router answers the request executed just before it: the
  requests and replies of a connection task alternate, in every run and whatever the cluster, the
  clock and the socket do, and the reply carries the correlation id of the request: a response
  that is long enough to have an id is the one \<^verbatim>\<open>execute\<close> returned, and a failed execution is
  answered with the 31-byte error frame.\<close>
theorem bridge_pairs_replies:
  assumes "io_execute io = run_execute env" and "handle_connection io cfg m evs w = (r, h, w')"
  shows "well_paired (log h)"
  using assms by (rule bridge.handle_connection_paired)

lemma drain_empty:
  assumes "buf h = []"
  shows "drain_loop io cfg h w = (let (now, w1) = io_now io w in
     if elapsed now (last_frame_time h) > int (frame_timeout cfg) then (Return, emit [Close_Sent] (bump inc_timeouts h), w1)
     else (Break, h, w1))"
  using assms by (simp add: drain_loop.simps drain_iteration_def try_decode_router_def split: prod.splits)

lemma serve_request:
  assumes ok: "execute env iw sf w = Some (Inr b, w')" and n: "seg \<noteq> KEEPALIVE_SEGMENT"
    and sz: "7 + length seg + length sf \<le> max_frame_size cfg" and wr: "wr b w'"
  shows "serve (bridge_io env wr) cfg [(seg, iw, sf, cid)] h w =
    (Continue, emit [Executed iw sf (Inr b), Wrote b True, Flushed]
       (bump (add_bytes_sent (length b)) (bump inc_frames_executed (bump inc_frames_received (h\<lparr>last_frame_time := e_now env w\<rparr>)))), w')"
proof -
  have "run_execute env iw sf w = (Inr b, w')" using ok by (simp add: run_execute_def)
  then show ?thesis
    using n sz wr by (simp add: bridge_io_def serve_one_def do_request_def emit_def bump_def Let_def)
qed

lemma request_served:
  assumes ok: "router_ok (seg, iw, sf, cid)" and len: "9 \<le> length sf" and n: "seg \<noteq> KEEPALIVE_SEGMENT"
    and sz: "7 + length seg + length sf \<le> max_frame_size cfg" "7 + length seg + length sf \<le> max_buffer_size cfg"
    and sv: "serviceable (conn_env ho now answer chunk) iw w" and run: "tasks_run (w_cluster w)"
    and node: "payload_wf (answer (drop 5 sf))" "chunks_reads chunk" and wr: "\<forall>b u. wr b u"
    and reply: "reply = prepend_header cid (answer (drop 5 sf))"
  shows "\<exists>r h w' c id t late.
      handle_connection (bridge_io (conn_env ho now answer chunk) wr) cfg m [Read_Ok (router_enc (seg, iw, sf, cid))] w = (r, h, w')
    \<and> of_kind iw (w_cluster w) c \<and> \<not> conn_closed (w_cluster w) c
    \<and> w_log w' = w_log w @ [Registered c id t, Sent_Frame c (set_clrid id sf) True, Answered t (Some (prepend_header id (answer (drop 5 sf))))]
    \<and> log h = [Executed iw sf (Inr reply), Wrote reply True, Flushed] @ late
    \<and> (r, late) \<in> {(Waiting, []), (Finished, [Close_Sent])} \<and> buf h = []"
proof -
  let ?env = "conn_env ho now answer chunk" and ?q = "router_enc (seg, iw, sf, cid)"
  let ?io = "bridge_io ?env wr"
  have z: "sf ! 0 = 0xFF" and cf: "clrid_field sf = u32_to_le cid"
    using ok by (simp_all add: router_ok_def router_wf_def SHARD_MAGIC_def clrid_field_def)
  obtain w' c id t where e: "execute ?env iw sf w = Some (Inr reply, w')" and c: "of_kind iw (w_cluster w) c" "\<not> conn_closed (w_cluster w) c"
    and l: "w_log w' = w_log w @ [Registered c id t, Sent_Frame c (set_clrid id sf) True, Answered t (Some (prepend_header id (answer (drop 5 sf))))]"
    using execute_exchange [OF sv run node(2,1) len z cf] reply by blast
  let ?h = "bump (add_bytes_received (length ?q)) \<lparr>buf = ?q, last_frame_time = e_now ?env w, metrics = m, log = []\<rparr>"
  define h' where "h' = emit [Executed iw sf (Inr reply), Wrote reply True, Flushed]
       (bump (add_bytes_sent (length reply)) (bump inc_frames_executed (bump inc_frames_received (?h\<lparr>last_frame_time := e_now ?env w\<rparr>))))"
  have lq: "length ?q = 7 + length seg + length sf" by (simp add: router_enc_def router_layout_def string_to_bytes_def)
  have s: "serve ?io cfg [(seg, iw, sf, cid)] ?h w = (Continue, h', w')"
    using serve_request [OF e n sz(1), of wr cid ?h] wr unfolding h'_def by simp
  have "drain_loop ?io cfg ?h w = drain_loop ?io cfg (h'\<lparr>buf := []\<rparr>) w'"
    using drain_loop_requests [of "[(seg, iw, sf, cid)]" ?h "[]" cfg ?io w] ok sz(2) lq s by (simp add: bump_def)
  moreover have "io_now ?io u = (e_now ?env u, u)" for u by (simp add: bridge_io_def)
  ultimately show ?thesis
    using l c lq unfolding handle_connection_def
    by (auto simp: handle_event_def drain_empty h'_def emit_def bump_def)
qed

text \<open>C1: End to end: when a router connection's task reads a request frame, a connection of the kind the request asks for is open (for a read, the
  node indices must also be dense, see \<open>unreachable_nodes_hide_followers\<close>), the tasks of the open connections run with room in their queues and
  nothing else happens meanwhile, then the request goes out once, over an open connection of that kind and under an id of that connection, with nothing else changed.
  The connection's write task writes it; the bytes of the node's answer, however they are cut into reads, go through the connection's
  read task, which hands the answer to this request; and the router is written that answer with its own correlation id.
  Afterwards the task waits with an empty buffer, or has closed because the reply took longer than the frame timeout.\<close>
theorem request_is_answered:
  assumes ok: "router_ok (seg, iw, sf, cid)" and len: "9 \<le> length sf" and n: "seg \<noteq> KEEPALIVE_SEGMENT"
    and sz: "7 + length seg + length sf \<le> max_frame_size cfg" "7 + length seg + length sf \<le> max_buffer_size cfg"
    and sv: "serviceable (conn_env ho now answer chunk) iw w" and run: "tasks_run (w_cluster w)"
    and node: "payload_wf (answer (drop 5 sf))" "chunks_reads chunk" and wr: "\<forall>b u. wr b u"
    and reply: "reply = prepend_header cid (answer (drop 5 sf))"
  shows "\<exists>r h w' c id t late.
      handle_connection (bridge_io (conn_env ho now answer chunk) wr) cfg m [Read_Ok (router_enc (seg, iw, sf, cid))] w = (r, h, w')
    \<and> of_kind iw (w_cluster w) c \<and> \<not> conn_closed (w_cluster w) c
    \<and> w_log w' = w_log w @ [Registered c id t, Sent_Frame c (set_clrid id sf) True, Answered t (Some (prepend_header id (answer (drop 5 sf))))]
    \<and> log h = [Executed iw sf (Inr reply), Wrote reply True, Flushed] @ late
    \<and> (r, late) \<in> {(Waiting, []), (Finished, [Close_Sent])} \<and> buf h = []"
  using assms by (rule request_served)

lemma sample_request_served:
  "router_ok (''a'', True, prepend_header 7 [], 7)" "(9::nat) \<le> length (prepend_header 7 [])" "''a'' \<noteq> KEEPALIVE_SEGMENT"
  using sample_request_ok by (simp_all add: sample_request_def KEEPALIVE_SEGMENT_def)

lemmas sample_run = sample_serviceable sample_tasks_run sample_reply_wf sample_chunks

theorem request_is_answered_witness:
  "\<exists>r h w' c id t late.
      handle_connection (bridge_io (conn_env (\<lambda>_. list_order) (\<lambda>_. 0) (\<lambda>_. sample_reply) (map (\<lambda>x. [x]))) (\<lambda>_ _. True)) sample_config
        BridgeMetrics_new [Read_Ok (router_enc (''a'', True, prepend_header 7 [], 7))] sample_world = (r, h, w')
    \<and> of_kind True (w_cluster sample_world) c \<and> \<not> conn_closed (w_cluster sample_world) c
    \<and> w_log w' = w_log sample_world @
        [Registered c id t, Sent_Frame c (set_clrid id (prepend_header 7 [])) True, Answered t (Some (prepend_header id sample_reply))]
    \<and> log h = [Executed True (prepend_header 7 []) (Inr (prepend_header 7 sample_reply)), Wrote (prepend_header 7 sample_reply) True, Flushed] @ late
    \<and> (r, late) \<in> {(Waiting, []), (Finished, [Close_Sent])} \<and> buf h = []"
  by (rule request_is_answered [OF sample_request_served]) (simp_all add: sample_run default_config_def)

theorem bridge_pairs_replies_witness:
  "\<exists>h b late. log h = [Executed True (prepend_header 7 []) (Inr b), Wrote b True, Flushed] @ late
     \<and> well_paired (log h)
     \<and> fst (snd (handle_connection (bridge_io (conn_env (\<lambda>_. list_order) (\<lambda>_. 0) (\<lambda>_. sample_reply) (map (\<lambda>x. [x]))) (\<lambda>_ _. True)) sample_config
        BridgeMetrics_new [Read_Ok (router_enc (''a'', True, prepend_header 7 [], 7))] sample_world)) = h"
proof -
  let ?env = "conn_env (\<lambda>_. list_order) (\<lambda>_. 0) (\<lambda>_. sample_reply) (map (\<lambda>x. [x]))"
  let ?io = "bridge_io ?env (\<lambda>_ _. True)"
  obtain r h w' late where h: "handle_connection ?io sample_config BridgeMetrics_new
      [Read_Ok (router_enc (''a'', True, prepend_header 7 [], 7))] sample_world = (r, h, w')"
      "log h = [Executed True (prepend_header 7 []) (Inr (prepend_header 7 sample_reply)), Wrote (prepend_header 7 sample_reply) True, Flushed] @ late"
    using request_served [OF sample_request_served, of sample_config "\<lambda>_. list_order" "\<lambda>_. 0" "\<lambda>_. sample_reply" "map (\<lambda>x. [x])"
        sample_world "\<lambda>_ _. True" "prepend_header 7 sample_reply" BridgeMetrics_new] sample_run by (auto simp: default_config_def)
  moreover have "io_execute ?io = run_execute ?env" by (simp add: bridge_io_def)
  from bridge_pairs_replies [OF this h(1)] have "well_paired (log h)" .
  ultimately show ?thesis by (metis fst_conv snd_conv)
qed

end
